theory Spec2Isabelle
  imports Main
begin

section \<open>Errors, tensors and factor operators\<close>

text \<open>
  The Python exceptions that the modelled code can raise. The constructors of the two
  composite classes raise \<open>RuntimeError\<close>; reading \<open>lazy_tensors[0]\<close> of an empty tuple
  raises \<open>IndexError\<close>; \<open>lazify\<close> raises \<open>TypeError\<close>; an integer division by zero
  raises \<open>ZeroDivisionError\<close>.
\<close>

datatype error = RuntimeError | IndexError | TypeError | ZeroDivisionError

text \<open>
  A dense tensor: its shape and its entries in row-major order. Entries are taken in a
  commutative semiring (exact arithmetic); rounding of floating-point numbers is not
  modelled.
\<close>

record 'a tensor =
  shape :: "nat list"
  data :: "'a list"

definition wf_tensor :: "'a tensor \<Rightarrow> bool" where
  "wf_tensor t \<longleftrightarrow> length (data t) = prod_list (shape t)"

text \<open>
  A factor operator (a \<open>LazyTensor\<close>): an operator with a batch shape, a size
  \<open>(rows, cols)\<close> and a dense representation, stored batch-major and row-major.
  \<open>triangular\<close> records whether the object is an instance of \<open>TriangularLazyTensor\<close>.
\<close>

record 'a lazy_tensor =
  triangular :: bool
  batch_shape :: "nat list"
  nrows :: nat
  ncols :: nat
  entries :: "'a list"

definition wf_lt :: "'a lazy_tensor \<Rightarrow> bool" where
  "wf_lt lt \<longleftrightarrow> length (entries lt) = prod_list (batch_shape lt) * (nrows lt * ncols lt)"

text \<open>The \<open>\<beta>\<close>-th block of \<open>sz\<close> consecutive entries of a flat list.\<close>

definition block :: "nat \<Rightarrow> 'a list \<Rightarrow> nat \<Rightarrow> 'a list" where
  "block sz xs \<beta> = take sz (drop (\<beta> * sz) xs)"

text \<open>\<open>_prod\<close>: \<open>reduce(operator.mul, iterable, 1)\<close>.\<close>

definition prod_reduce :: "nat list \<Rightarrow> nat" where
  "prod_reduce iterable = foldl (*) 1 iterable"

section \<open>The composite classes and their constructors\<close>

text \<open>
  An argument of a constructor: an object that \<open>lazify\<close> accepts (a factor operator, or a
  dense tensor already wrapped as one), or any other object.
  Modelled from the spec: \<open>lazify\<close> is not part of the source file; it fails with a
  \<open>TypeError\<close> when an input cannot be converted to an operator.
\<close>

datatype 'a arg = Operator "'a lazy_tensor" | NotOperator

fun lazify :: "'a arg \<Rightarrow> error + 'a lazy_tensor" where
  "lazify (Operator lt) = Inr lt"
| "lazify NotOperator = Inl TypeError"

fun lazify_all :: "'a arg list \<Rightarrow> error + 'a lazy_tensor list" where
  "lazify_all [] = Inr []"
| "lazify_all (a # as) =
     (case lazify a of Inl e \<Rightarrow> Inl e
      | Inr lt \<Rightarrow> (case lazify_all as of Inl e \<Rightarrow> Inl e | Inr lts \<Rightarrow> Inr (lt # lts)))"

text \<open>
  The two classes. \<open>KP\<close> is \<open>KroneckerProductLazyTensor\<close>, \<open>KPT\<close> is
  \<open>KroneckerProductTriangularLazyTensor\<close> with its \<open>upper\<close> attribute.
\<close>

datatype 'a kp = KP "'a lazy_tensor list" | KPT "'a lazy_tensor list" bool

fun lazy_tensors :: "'a kp \<Rightarrow> 'a lazy_tensor list" where
  "lazy_tensors (KP lts) = lts"
| "lazy_tensors (KPT lts u) = lts"

text \<open>The loop over \<open>zip(lazy_tensors[:-1], lazy_tensors[1:])\<close>.\<close>

fun check_batch_shapes :: "('a lazy_tensor \<times> 'a lazy_tensor) list \<Rightarrow> error + unit" where
  "check_batch_shapes [] = Inr ()"
| "check_batch_shapes ((prev_lazy_tensor, curr_lazy_tensor) # ps) =
     (if batch_shape prev_lazy_tensor \<noteq> batch_shape curr_lazy_tensor then Inl RuntimeError
      else check_batch_shapes ps)"

text \<open>\<open>KroneckerProductLazyTensor.__init__\<close>, up to the call of the base initialiser.\<close>

definition KP_init :: "'a arg list \<Rightarrow> error + 'a lazy_tensor list" where
  "KP_init args =
     (case lazify_all args of
        Inl e \<Rightarrow> (if e = TypeError then Inl RuntimeError else Inl e)
      | Inr lts \<Rightarrow>
         (case check_batch_shapes (zip (butlast lts) (tl lts)) of
            Inl e \<Rightarrow> Inl e
          | Inr u \<Rightarrow> Inr lts))"

definition new_KP :: "'a arg list \<Rightarrow> error + 'a kp" where
  "new_KP args = (case KP_init args of Inl e \<Rightarrow> Inl e | Inr lts \<Rightarrow> Inr (KP lts))"

fun isinstance_triangular :: "'a arg \<Rightarrow> bool" where
  "isinstance_triangular (Operator lt) = triangular lt"
| "isinstance_triangular NotOperator = False"

text \<open>\<open>KroneckerProductTriangularLazyTensor.__init__\<close>.\<close>

definition new_KPT :: "'a arg list \<Rightarrow> bool \<Rightarrow> error + 'a kp" where
  "new_KPT args upper =
     (if \<not> list_all isinstance_triangular args then Inl RuntimeError
      else (case KP_init args of Inl e \<Rightarrow> Inl e | Inr lts \<Rightarrow> Inr (KPT lts upper)))"

text \<open>
  \<open>self.__class__(*factors, **self._kwargs)\<close>. Neither initialiser hands a keyword
  argument to the base initialiser, so \<open>_kwargs\<close> is empty and the triangular class is
  rebuilt with the default \<open>upper=False\<close>.
\<close>

fun new_like :: "'a kp \<Rightarrow> 'a arg list \<Rightarrow> error + 'a kp" where
  "new_like (KP lts) args = new_KP args"
| "new_like (KPT lts u) args = new_KPT args False"

text \<open>\<open>_size\<close>: both products are computed before \<open>lazy_tensors[0]\<close> is read.\<close>

definition size_kp :: "'a kp \<Rightarrow> error + nat list" where
  "size_kp k =
     (let left_size = prod_reduce (map nrows (lazy_tensors k));
          right_size = prod_reduce (map ncols (lazy_tensors k))
      in (case lazy_tensors k of
            [] \<Rightarrow> Inl IndexError
          | lt # lts \<Rightarrow> Inr (batch_shape lt @ [left_size, right_size])))"

text \<open>\<open>self.size(d)\<close> for the negative dimensions \<open>-1\<close> and \<open>-2\<close> (\<open>shape_neg s 1\<close> is \<open>s[-1]\<close>).\<close>

definition shape_neg :: "nat list \<Rightarrow> nat \<Rightarrow> error + nat" where
  "shape_neg s d = (if 1 \<le> d \<and> d \<le> length s then Inr (s ! (length s - d)) else Inl IndexError)"

section \<open>Index gathering\<close>

text \<open>
  Index tensors are modelled by the flat list of their (integer) entries; the row, column
  and batch index tensors have the same number of entries.
  \<open>//\<close> on an index tensor is floor division and \<open>fmod\<close> is the remainder that takes
  the sign of the dividend; both raise on a zero divisor.
\<close>

definition floordiv :: "int list \<Rightarrow> nat \<Rightarrow> error + int list" where
  "floordiv xs d = (if d = 0 then Inl RuntimeError else Inr (map (\<lambda>x. x div int d) xs))"

definition fmod1 :: "int \<Rightarrow> nat \<Rightarrow> int" where
  "fmod1 x d = (if 0 \<le> x then x mod int d else - ((- x) mod int d))"

definition fmod :: "int list \<Rightarrow> nat \<Rightarrow> error + int list" where
  "fmod xs d = (if d = 0 then Inl RuntimeError else Inr (map (\<lambda>x. fmod1 x d) xs))"

text \<open>An index into a dimension of extent \<open>n\<close>: negative indices count from the end.\<close>

definition norm_index :: "nat \<Rightarrow> int \<Rightarrow> error + nat" where
  "norm_index n i =
     (if 0 \<le> i \<and> i < int n then Inr (nat i)
      else if - int n \<le> i \<and> i < 0 then Inr (nat (i + int n))
      else Inl IndexError)"

text \<open>The flat (row-major) position of a multi-index in a shape.\<close>

fun ravel :: "nat list \<Rightarrow> int list \<Rightarrow> nat \<Rightarrow> error + nat" where
  "ravel [] [] acc = Inr acc"
| "ravel (n # ns) (i # is) acc =
     (case norm_index n i of Inl e \<Rightarrow> Inl e | Inr j \<Rightarrow> ravel ns is (acc * n + j))"
| "ravel _ _ acc = Inl IndexError"

text \<open>
  Modelled from the spec: the factor capability \<open>index-gather\<close>, which is not part of the
  source file. For one position it reads the factor's entry at the given batch indices,
  row and column.
\<close>

definition lt_get_index :: "'a lazy_tensor \<Rightarrow> int \<Rightarrow> int \<Rightarrow> int list \<Rightarrow> error + 'a" where
  "lt_get_index lt r c bs =
     (case ravel (batch_shape lt) bs 0 of Inl e \<Rightarrow> Inl e
      | Inr \<beta> \<Rightarrow>
        (case norm_index (nrows lt) r of Inl e \<Rightarrow> Inl e
         | Inr i \<Rightarrow>
           (case norm_index (ncols lt) c of Inl e \<Rightarrow> Inl e
            | Inr j \<Rightarrow> Inr (block (nrows lt * ncols lt) (entries lt) \<beta> ! (i * ncols lt + j)))))"

text \<open>
  The vectorised gather: position \<open>p\<close> of the result is read at \<open>row_index[p]\<close>,
  \<open>col_index[p]\<close> and the \<open>p\<close>-th entry of each batch index tensor.
\<close>

fun lt_get_indices ::
  "'a lazy_tensor \<Rightarrow> int list \<Rightarrow> int list \<Rightarrow> int list list \<Rightarrow> error + 'a list" where
  "lt_get_indices lt [] [] bss = Inr []"
| "lt_get_indices lt (r # rs) (c # cs) bss =
     (if list_ex (\<lambda>bs. bs = []) bss then Inl IndexError
      else (case lt_get_index lt r c (map hd bss) of Inl e \<Rightarrow> Inl e
            | Inr x \<Rightarrow>
              (case lt_get_indices lt rs cs (map tl bss) of Inl e \<Rightarrow> Inl e
               | Inr xs \<Rightarrow> Inr (x # xs))))"
| "lt_get_indices lt _ _ bss = Inl IndexError"

text \<open>The loop of \<open>_get_indices\<close>; \<open>res\<close> is \<open>None\<close> before the first factor.\<close>

fun get_indices_loop ::
  "'a::comm_semiring_1 lazy_tensor list \<Rightarrow> nat \<Rightarrow> nat \<Rightarrow> int list \<Rightarrow> int list \<Rightarrow> int list list
     \<Rightarrow> 'a list option \<Rightarrow> error + 'a list option" where
  "get_indices_loop [] row_factor col_factor row_index col_index batch_indices res = Inr res"
| "get_indices_loop (lazy_tensor # lts) row_factor col_factor row_index col_index batch_indices res =
     (let sub_row_size = nrows lazy_tensor; sub_col_size = ncols lazy_tensor in
      if sub_row_size = 0 \<or> sub_col_size = 0 then Inl ZeroDivisionError
      else
        let row_factor' = row_factor div sub_row_size; col_factor' = col_factor div sub_col_size in
        (case floordiv row_index row_factor' of Inl e \<Rightarrow> Inl e
         | Inr rq \<Rightarrow>
           (case fmod rq sub_row_size of Inl e \<Rightarrow> Inl e
            | Inr ri \<Rightarrow>
              (case floordiv col_index col_factor' of Inl e \<Rightarrow> Inl e
               | Inr cq \<Rightarrow>
                 (case fmod cq sub_col_size of Inl e \<Rightarrow> Inl e
                  | Inr ci \<Rightarrow>
                    (case lt_get_indices lazy_tensor ri ci batch_indices of Inl e \<Rightarrow> Inl e
                     | Inr sub_res \<Rightarrow>
                       get_indices_loop lts row_factor' col_factor' row_index col_index batch_indices
                         (case res of None \<Rightarrow> Some sub_res
                          | Some res0 \<Rightarrow> Some (map2 (*) sub_res res0))))))))"

definition get_indices ::
  "'a::comm_semiring_1 kp \<Rightarrow> int list \<Rightarrow> int list \<Rightarrow> int list list \<Rightarrow> error + 'a list option" where
  "get_indices k row_index col_index batch_indices =
     (case size_kp k of Inl e \<Rightarrow> Inl e
      | Inr s \<Rightarrow>
        (case shape_neg s 2 of Inl e \<Rightarrow> Inl e
         | Inr row_factor \<Rightarrow>
           (case shape_neg s 1 of Inl e \<Rightarrow> Inl e
            | Inr col_factor \<Rightarrow>
              get_indices_loop (lazy_tensors k) row_factor col_factor row_index col_index
                batch_indices None)))"

text \<open>
  The local row (or column) indices that the loop of \<open>_get_indices\<close> hands to the factors,
  in factor order, for one flat index: \<open>(index // radix) fmod size\<close>, the radix divided
  by each size in turn.
\<close>

fun local_indices :: "nat list \<Rightarrow> nat \<Rightarrow> int \<Rightarrow> int list" where
  "local_indices [] factor i = []"
| "local_indices (sz # szs) factor i =
     fmod1 (i div int (factor div sz)) sz # local_indices szs (factor div sz) i"

section \<open>Dense tensor operations\<close>

text \<open>
  Modelled from the spec: the shape helper \<open>_mul_broadcast_shape\<close>, which is not part of
  the source file. Shapes are aligned at their last dimension; two extents are
  compatible when they are equal or one of them is 1. The recursion runs over the
  reversed shapes.
\<close>

fun mul_broadcast_rev :: "nat list \<Rightarrow> nat list \<Rightarrow> error + nat list" where
  "mul_broadcast_rev [] ys = Inr ys"
| "mul_broadcast_rev (x # xs) [] = Inr (x # xs)"
| "mul_broadcast_rev (x # xs) (y # ys) =
     (if x = y \<or> x = 1 \<or> y = 1
      then (case mul_broadcast_rev xs ys of Inl e \<Rightarrow> Inl e
            | Inr zs \<Rightarrow> Inr ((if x = 1 then y else x) # zs))
      else Inl RuntimeError)"

definition mul_broadcast_shape :: "nat list \<Rightarrow> nat list \<Rightarrow> error + nat list" where
  "mul_broadcast_shape a b =
     (case mul_broadcast_rev (rev a) (rev b) of Inl e \<Rightarrow> Inl e | Inr zs \<Rightarrow> Inr (rev zs))"

text \<open>
  Modelled from the spec: the shape helper \<open>_matmul_broadcast_shape\<close>, which is not part
  of the source file: the leading dimensions broadcast, the last two follow the rule of
  the matrix product.
\<close>

definition matmul_broadcast_shape :: "nat list \<Rightarrow> nat list \<Rightarrow> error + nat list" where
  "matmul_broadcast_shape shape_a shape_b =
     (if length shape_a < 2 \<or> length shape_b < 1 then Inl IndexError
      else
        let m = shape_a ! (length shape_a - 2); n = last shape_a; p = last shape_b in
        if length shape_b = 1 then (if n \<noteq> p then Inl RuntimeError else Inr (butlast shape_a))
        else if n \<noteq> shape_b ! (length shape_b - 2) then Inl RuntimeError
        else (case mul_broadcast_shape (take (length shape_a - 2) shape_a)
                     (take (length shape_b - 2) shape_b) of
                Inl e \<Rightarrow> Inl e
              | Inr bc \<Rightarrow> Inr (bc @ [m, p])))"

text \<open>
  The flat batch index read from an operand of batch shape \<open>inp\<close> for the flat batch
  index \<open>k\<close> of a result of batch shape \<open>out\<close>: a dimension of extent 1 is repeated.
\<close>

fun bidx_rev :: "nat list \<Rightarrow> nat list \<Rightarrow> nat \<Rightarrow> nat" where
  "bidx_rev (n # ns) (d # ds) k = (if d = 1 then 0 else k mod n) + d * bidx_rev ns ds (k div n)"
| "bidx_rev ns ds k = 0"

definition bidx :: "nat list \<Rightarrow> nat list \<Rightarrow> nat \<Rightarrow> nat" where
  "bidx out inp k = bidx_rev (rev out) (rev inp) k"

text \<open>
  The product of an \<open>r \<times> c\<close> matrix and a \<open>c \<times> n\<close> matrix, the transposition of an
  \<open>r \<times> c\<close> matrix, and the exchange of the first two axes of a \<open>p \<times> q \<times> n\<close> block, all
  on row-major lists.
\<close>

definition mm :: "nat \<Rightarrow> nat \<Rightarrow> nat \<Rightarrow> 'a::comm_semiring_1 list \<Rightarrow> 'a list \<Rightarrow> 'a list" where
  "mm r c n A B =
     map (\<lambda>k. sum_list (map (\<lambda>a. A ! ((k div n) * c + a) * B ! (a * n + k mod n)) [0..<c]))
       [0..<r * n]"

definition tr2 :: "nat \<Rightarrow> nat \<Rightarrow> 'a list \<Rightarrow> 'a list" where
  "tr2 r c A = map (\<lambda>k. A ! ((k mod r) * c + k div r)) [0..<c * r]"

definition tr3 :: "nat \<Rightarrow> nat \<Rightarrow> nat \<Rightarrow> 'a list \<Rightarrow> 'a list" where
  "tr3 p q n X =
     map (\<lambda>k. X ! ((((k div n) mod p) * q + (k div n) div p) * n + k mod n)) [0..<q * p * n]"

text \<open>
  Modelled from the spec: the operations of the dense-tensor engine that the source
  calls; the engine is not part of the source file.

  \<open>infer_size\<close> resolves the argument list of \<open>view\<close> and \<open>reshape\<close>, in which one
  entry may be \<open>-1\<close>: the inferred extent is the number of elements divided by the
  product of the other extents; the call fails when that product is 0 or does not divide
  the number of elements, and, without \<open>-1\<close>, when the product differs from the number
  of elements.
\<close>

definition infer_size :: "int list \<Rightarrow> nat \<Rightarrow> error + nat list" where
  "infer_size dims numel =
     (if list_ex (\<lambda>d. d < - 1) dims \<or> 1 < length (filter (\<lambda>d. d = - 1) dims)
      then Inl RuntimeError
      else
        let newsize = prod_list (map nat (filter (\<lambda>d. d \<noteq> - 1) dims)) in
        if list_ex (\<lambda>d. d = - 1) dims
        then (if 0 < newsize \<and> numel mod newsize = 0
              then Inr (map (\<lambda>d. if d = - 1 then numel div newsize else nat d) dims)
              else Inl RuntimeError)
        else (if numel = newsize then Inr (map nat dims) else Inl RuntimeError))"

text \<open>
  \<open>view\<close> and \<open>reshape\<close> keep the entries in row-major order and change the shape. The
  tensors viewed by the source are contiguous in every dimension that a call regroups,
  so that \<open>view\<close> does not fail on strides.
\<close>

definition view :: "'a tensor \<Rightarrow> int list \<Rightarrow> error + 'a tensor" where
  "view t dims =
     (case infer_size dims (prod_list (shape t)) of
        Inl e \<Rightarrow> Inl e
      | Inr s \<Rightarrow> Inr \<lparr>shape = s, data = data t\<rparr>)"

definition reshape :: "'a tensor \<Rightarrow> int list \<Rightarrow> error + 'a tensor" where
  "reshape t dims = view t dims"

text \<open>\<open>t.transpose(-3, -2)\<close>, which is also \<open>t.permute(*perm_batch, -2, -3, -1)\<close>.\<close>

definition transpose32 :: "'a tensor \<Rightarrow> error + 'a tensor" where
  "transpose32 t =
     (let s = shape t; d = length s in
      if d < 3 then Inl IndexError
      else
        let bs = take (d - 3) s; p = s ! (d - 3); q = s ! (d - 2); n = s ! (d - 1) in
        Inr \<lparr>shape = bs @ [q, p, n],
             data = concat (map (\<lambda>\<beta>. tr3 p q n (block (p * q * n) (data t) \<beta>))
                              [0..<prod_list bs])\<rparr>)"

text \<open>
  \<open>t.expand(*batch, *t.shape[-2:])\<close> for a tensor of at least two dimensions: the last
  two dimensions are kept and the batch dimensions are broadcast to \<open>batch\<close>.
\<close>

fun expandable_rev :: "nat list \<Rightarrow> nat list \<Rightarrow> bool" where
  "expandable_rev [] [] = True"
| "expandable_rev (d # ds) [] = False"
| "expandable_rev [] (n # ns) = True"
| "expandable_rev (d # ds) (n # ns) = ((d = n \<or> d = 1) \<and> expandable_rev ds ns)"

definition expand_batch :: "'a tensor \<Rightarrow> nat list \<Rightarrow> error + 'a tensor" where
  "expand_batch t batch =
     (let s = shape t; d = length s in
      if d < 2 then Inl IndexError
      else
        let bs = take (d - 2) s; p = s ! (d - 2); n = s ! (d - 1) in
        if \<not> expandable_rev (rev bs) (rev batch) then Inl RuntimeError
        else Inr \<lparr>shape = batch @ [p, n],
                  data = concat (map (\<lambda>\<beta>. block (p * n) (data t) (bidx batch bs \<beta>))
                                   [0..<prod_list batch])\<rparr>)"

text \<open>\<open>torch.matmul\<close> (also \<open>@\<close>) of two tensors of at least two dimensions each.\<close>

definition matmul :: "'a::comm_semiring_1 tensor \<Rightarrow> 'a tensor \<Rightarrow> error + 'a tensor" where
  "matmul A B =
     (let sa = shape A; sb = shape B; da = length sa; db = length sb in
      if da < 2 \<or> db < 2 then Inl RuntimeError
      else
        let ba = take (da - 2) sa; r = sa ! (da - 2); c = sa ! (da - 1);
            bb = take (db - 2) sb; c' = sb ! (db - 2); n = sb ! (db - 1) in
        if c \<noteq> c' then Inl RuntimeError
        else (case mul_broadcast_shape ba bb of
                Inl e \<Rightarrow> Inl e
              | Inr bo \<Rightarrow>
                  Inr \<lparr>shape = bo @ [r, n],
                       data = concat (map (\<lambda>\<beta>. mm r c n (block (r * c) (data A) (bidx bo ba \<beta>))
                                                       (block (c * n) (data B) (bidx bo bb \<beta>)))
                                        [0..<prod_list bo])\<rparr>))"

definition unsqueeze_last :: "'a tensor \<Rightarrow> 'a tensor" where
  "unsqueeze_last t = \<lparr>shape = shape t @ [1], data = data t\<rparr>"

definition squeeze_last :: "'a tensor \<Rightarrow> 'a tensor" where
  "squeeze_last t =
     (if shape t \<noteq> [] \<and> last (shape t) = 1 then \<lparr>shape = butlast (shape t), data = data t\<rparr>
      else t)"

section \<open>Capabilities of a factor operator\<close>

text \<open>
  Modelled from the spec: the capabilities \<open>matmul\<close>, \<open>transpose\<close> and
  \<open>transpose-matmul\<close> of a factor, which are not part of the source file: the factor acts
  as its dense matrix does, and its transpose is again an operator of the same kind.
\<close>

definition evaluate :: "'a lazy_tensor \<Rightarrow> 'a tensor" where
  "evaluate lt = \<lparr>shape = batch_shape lt @ [nrows lt, ncols lt], data = entries lt\<rparr>"

definition lt_transpose_nonbatch :: "'a lazy_tensor \<Rightarrow> 'a lazy_tensor" where
  "lt_transpose_nonbatch lt =
     \<lparr>triangular = triangular lt, batch_shape = batch_shape lt,
      nrows = ncols lt, ncols = nrows lt,
      entries = concat (map (\<lambda>\<beta>. tr2 (nrows lt) (ncols lt)
                                    (block (nrows lt * ncols lt) (entries lt) \<beta>))
                          [0..<prod_list (batch_shape lt)])\<rparr>"

definition lt_matmul :: "'a::comm_semiring_1 lazy_tensor \<Rightarrow> 'a tensor \<Rightarrow> error + 'a tensor" where
  "lt_matmul lt rhs = matmul (evaluate lt) rhs"

definition lt_t_matmul :: "'a::comm_semiring_1 lazy_tensor \<Rightarrow> 'a tensor \<Rightarrow> error + 'a tensor" where
  "lt_t_matmul lt rhs = matmul (evaluate (lt_transpose_nonbatch lt)) rhs"

text \<open>
  The capabilities \<open>inverse\<close> and \<open>cholesky-factorize\<close> of a factor are parameters of the
  model: \<open>inv_f\<close> and \<open>chol_f\<close> return the factor's inverse and its Cholesky factor as
  operators, or the factor's own error.
  Modelled from the spec: the factor's \<open>solve\<close> (\<open>inv_matmul\<close>) applies its inverse.
\<close>

definition lt_inv_matmul ::
  "('a::comm_semiring_1 lazy_tensor \<Rightarrow> error + 'a lazy_tensor) \<Rightarrow> 'a lazy_tensor \<Rightarrow> 'a tensor
     \<Rightarrow> error + 'a tensor" where
  "lt_inv_matmul inv_f lt rhs =
     (case inv_f lt of Inl e \<Rightarrow> Inl e | Inr g \<Rightarrow> lt_matmul g rhs)"

text \<open>A list comprehension over a call that may raise.\<close>

fun map_err :: "('a \<Rightarrow> error + 'b) \<Rightarrow> 'a list \<Rightarrow> error + 'b list" where
  "map_err f [] = Inr []"
| "map_err f (x # xs) =
     (case f x of Inl e \<Rightarrow> Inl e
      | Inr y \<Rightarrow> (case map_err f xs of Inl e \<Rightarrow> Inl e | Inr ys \<Rightarrow> Inr (y # ys)))"

section \<open>The matrix-free operations of the composite\<close>

text \<open>The loop of the free function \<open>_matmul\<close>.\<close>

fun matmul_loop ::
  "'a::comm_semiring_1 lazy_tensor list \<Rightarrow> nat list \<Rightarrow> nat \<Rightarrow> 'a tensor \<Rightarrow> error + 'a tensor" where
  "matmul_loop [] output_batch_shape num_cols res = Inr res"
| "matmul_loop (lazy_tensor # lts) output_batch_shape num_cols res =
     (case view res (map int output_batch_shape @ [int (ncols lazy_tensor), - 1]) of
        Inl e \<Rightarrow> Inl e
      | Inr res1 \<Rightarrow>
        (case lt_matmul lazy_tensor res1 of
           Inl e \<Rightarrow> Inl e
         | Inr factor \<Rightarrow>
           (case view factor
                   (map int output_batch_shape @ [int (nrows lazy_tensor), - 1, int num_cols]) of
              Inl e \<Rightarrow> Inl e
            | Inr factor1 \<Rightarrow>
              (case transpose32 factor1 of
                 Inl e \<Rightarrow> Inl e
               | Inr factor2 \<Rightarrow>
                 (case reshape factor2 (map int output_batch_shape @ [- 1, int num_cols]) of
                    Inl e \<Rightarrow> Inl e
                  | Inr res2 \<Rightarrow> matmul_loop lts output_batch_shape num_cols res2)))))"

text \<open>The free function \<open>_matmul(lazy_tensors, kp_shape, rhs)\<close>.\<close>

definition matmul_fn ::
  "'a::comm_semiring_1 lazy_tensor list \<Rightarrow> nat list \<Rightarrow> 'a tensor \<Rightarrow> error + 'a tensor" where
  "matmul_fn lts kp_shape rhs =
     (case matmul_broadcast_shape kp_shape (shape rhs) of
        Inl e \<Rightarrow> Inl e
      | Inr output_shape \<Rightarrow>
        (let output_batch_shape = take (length output_shape - 2) output_shape in
         (case expand_batch rhs output_batch_shape of
            Inl e \<Rightarrow> Inl e
          | Inr res \<Rightarrow>
            (case shape_neg (shape rhs) 1 of
               Inl e \<Rightarrow> Inl e
             | Inr num_cols \<Rightarrow> matmul_loop lts output_batch_shape num_cols res))))"

text \<open>The loop of the free function \<open>_t_matmul\<close>.\<close>

fun t_matmul_loop ::
  "'a::comm_semiring_1 lazy_tensor list \<Rightarrow> nat list \<Rightarrow> nat \<Rightarrow> 'a tensor \<Rightarrow> error + 'a tensor" where
  "t_matmul_loop [] output_batch_shape num_cols res = Inr res"
| "t_matmul_loop (lazy_tensor # lts) output_batch_shape num_cols res =
     (case view res (map int output_batch_shape @ [int (nrows lazy_tensor), - 1]) of
        Inl e \<Rightarrow> Inl e
      | Inr res1 \<Rightarrow>
        (case lt_t_matmul lazy_tensor res1 of
           Inl e \<Rightarrow> Inl e
         | Inr factor \<Rightarrow>
           (case view factor
                   (map int output_batch_shape @ [int (ncols lazy_tensor), - 1, int num_cols]) of
              Inl e \<Rightarrow> Inl e
            | Inr factor1 \<Rightarrow>
              (case transpose32 factor1 of
                 Inl e \<Rightarrow> Inl e
               | Inr factor2 \<Rightarrow>
                 (case reshape factor2 (map int output_batch_shape @ [- 1, int num_cols]) of
                    Inl e \<Rightarrow> Inl e
                  | Inr res2 \<Rightarrow> t_matmul_loop lts output_batch_shape num_cols res2)))))"

text \<open>The free function \<open>_t_matmul(lazy_tensors, kp_shape, rhs)\<close>.\<close>

definition t_matmul_fn ::
  "'a::comm_semiring_1 lazy_tensor list \<Rightarrow> nat list \<Rightarrow> 'a tensor \<Rightarrow> error + 'a tensor" where
  "t_matmul_fn lts kp_shape rhs =
     (if length kp_shape < 2 then Inl IndexError
      else
        let kp_t_shape = take (length kp_shape - 2) kp_shape
                           @ [last kp_shape, kp_shape ! (length kp_shape - 2)] in
        (case matmul_broadcast_shape kp_t_shape (shape rhs) of
           Inl e \<Rightarrow> Inl e
         | Inr output_shape \<Rightarrow>
           (let output_batch_shape = take (length output_shape - 2) output_shape in
            (case expand_batch rhs output_batch_shape of
               Inl e \<Rightarrow> Inl e
             | Inr res \<Rightarrow>
               (case shape_neg (shape rhs) 1 of
                  Inl e \<Rightarrow> Inl e
                | Inr num_cols \<Rightarrow> t_matmul_loop lts output_batch_shape num_cols res)))))"

text \<open>The methods \<open>_matmul\<close> and \<open>_t_matmul\<close> of the composite.\<close>

definition KP_matmul :: "'a::comm_semiring_1 kp \<Rightarrow> 'a tensor \<Rightarrow> error + 'a tensor" where
  "KP_matmul k rhs =
     (let is_vec = (length (shape rhs) = 1);
          rhs1 = (if is_vec then unsqueeze_last rhs else rhs) in
      (case size_kp k of
         Inl e \<Rightarrow> Inl e
       | Inr kp_shape \<Rightarrow>
         (case matmul_fn (lazy_tensors k) kp_shape rhs1 of
            Inl e \<Rightarrow> Inl e
          | Inr res \<Rightarrow> Inr (if is_vec then squeeze_last res else res))))"

definition KP_t_matmul :: "'a::comm_semiring_1 kp \<Rightarrow> 'a tensor \<Rightarrow> error + 'a tensor" where
  "KP_t_matmul k rhs =
     (let is_vec = (length (shape rhs) = 1);
          rhs1 = (if is_vec then unsqueeze_last rhs else rhs) in
      (case size_kp k of
         Inl e \<Rightarrow> Inl e
       | Inr kp_shape \<Rightarrow>
         (case t_matmul_fn (lazy_tensors k) kp_shape rhs1 of
            Inl e \<Rightarrow> Inl e
          | Inr res \<Rightarrow> Inr (if is_vec then squeeze_last res else res))))"

text \<open>\<open>_transpose_nonbatch\<close>, \<open>_cholesky\<close> and the two \<open>inverse\<close> methods.\<close>

definition KP_transpose_nonbatch :: "'a kp \<Rightarrow> error + 'a kp" where
  "KP_transpose_nonbatch k =
     new_like k (map (\<lambda>lazy_tensor. Operator (lt_transpose_nonbatch lazy_tensor)) (lazy_tensors k))"

definition KP_cholesky ::
  "(bool \<Rightarrow> 'a lazy_tensor \<Rightarrow> error + 'a lazy_tensor) \<Rightarrow> 'a kp \<Rightarrow> bool \<Rightarrow> error + 'a kp" where
  "KP_cholesky chol_f k upper =
     (case map_err (chol_f upper) (lazy_tensors k) of
        Inl e \<Rightarrow> Inl e
      | Inr chol_factors \<Rightarrow> new_KPT (map Operator chol_factors) upper)"

fun KP_inverse :: "('a lazy_tensor \<Rightarrow> error + 'a lazy_tensor) \<Rightarrow> 'a kp \<Rightarrow> error + 'a kp" where
  "KP_inverse inv_f (KP lts) =
     (case map_err inv_f lts of Inl e \<Rightarrow> Inl e | Inr inverses \<Rightarrow> new_KP (map Operator inverses))"
| "KP_inverse inv_f (KPT lts upper) =
     (case map_err inv_f lts of
        Inl e \<Rightarrow> Inl e
      | Inr inverses \<Rightarrow> new_KPT (map Operator inverses) upper)"

text \<open>The loop of \<open>_inv_matmul\<close> over \<open>zip(tsr_shapes, self.lazy_tensors)\<close>.\<close>

fun inv_matmul_loop ::
  "('a::comm_semiring_1 lazy_tensor \<Rightarrow> error + 'a lazy_tensor) \<Rightarrow> (nat \<times> 'a lazy_tensor) list
     \<Rightarrow> nat list \<Rightarrow> nat \<Rightarrow> 'a tensor \<Rightarrow> error + 'a tensor" where
  "inv_matmul_loop inv_f [] batch_shape0 n_rows y = Inr y"
| "inv_matmul_loop inv_f ((n, q) # nqs) batch_shape0 n_rows y =
     (case reshape y (map int batch_shape0 @ [int n, - 1]) of
        Inl e \<Rightarrow> Inl e
      | Inr y1 \<Rightarrow>
        (case lt_inv_matmul inv_f q y1 of
           Inl e \<Rightarrow> Inl e
         | Inr y2 \<Rightarrow>
           (if n = 0 then Inl ZeroDivisionError
            else
              (case reshape y2 (map int batch_shape0 @ [int n, int (n_rows div n), - 1]) of
                 Inl e \<Rightarrow> Inl e
               | Inr y3 \<Rightarrow>
                 (case transpose32 y3 of
                    Inl e \<Rightarrow> Inl e
                  | Inr y4 \<Rightarrow> inv_matmul_loop inv_f nqs batch_shape0 n_rows y4)))))"

text \<open>\<open>_inv_matmul(right_tensor, left_tensor)\<close>; \<open>left_tensor\<close> is optional.\<close>

definition KP_inv_matmul_sep ::
  "('a::comm_semiring_1 lazy_tensor \<Rightarrow> error + 'a lazy_tensor) \<Rightarrow> 'a kp \<Rightarrow> 'a tensor
     \<Rightarrow> 'a tensor option \<Rightarrow> error + 'a tensor" where
  "KP_inv_matmul_sep inv_f k right_tensor left_tensor =
     (let tsr_shapes = map ncols (lazy_tensors k) in
      (case shape_neg (shape right_tensor) 2 of
         Inl e \<Rightarrow> Inl e
       | Inr n_rows \<Rightarrow>
         (case size_kp k of
            Inl e \<Rightarrow> Inl e
          | Inr kp_shape \<Rightarrow>
            (case mul_broadcast_shape (take (length kp_shape - 2) kp_shape)
                    (take (length (shape right_tensor) - 2) (shape right_tensor)) of
               Inl e \<Rightarrow> Inl e
             | Inr batch_shape0 \<Rightarrow>
               (case expand_batch right_tensor batch_shape0 of
                  Inl e \<Rightarrow> Inl e
                | Inr y \<Rightarrow>
                  (case inv_matmul_loop inv_f (zip tsr_shapes (lazy_tensors k)) batch_shape0
                          n_rows y of
                     Inl e \<Rightarrow> Inl e
                   | Inr y' \<Rightarrow>
                     (case reshape y' (map int batch_shape0 @ [int n_rows, - 1]) of
                        Inl e \<Rightarrow> Inl e
                      | Inr res \<Rightarrow>
                        (case left_tensor of
                           None \<Rightarrow> Inr res
                         | Some l \<Rightarrow> matmul l res))))))))"

text \<open>
  \<open>inv_matmul\<close>: the triangular class calls \<open>_inv_matmul\<close>; the general class calls the
  \<open>inv_matmul\<close> of the base class, which is not part of the source file and is the
  parameter \<open>base_inv_matmul\<close>.
\<close>

fun KP_inv_matmul ::
  "('a kp \<Rightarrow> 'a tensor \<Rightarrow> 'a tensor option \<Rightarrow> error + 'a tensor)
     \<Rightarrow> ('a::comm_semiring_1 lazy_tensor \<Rightarrow> error + 'a lazy_tensor) \<Rightarrow> 'a kp \<Rightarrow> 'a tensor
     \<Rightarrow> 'a tensor option \<Rightarrow> error + 'a tensor" where
  "KP_inv_matmul base_inv_matmul inv_f (KP lts) right_tensor left_tensor =
     base_inv_matmul (KP lts) right_tensor left_tensor"
| "KP_inv_matmul base_inv_matmul inv_f (KPT lts upper) right_tensor left_tensor =
     KP_inv_matmul_sep inv_f (KPT lts upper) right_tensor left_tensor"

text \<open>\<open>_cholesky_solve(rhs, upper)\<close> of the triangular class.\<close>

definition KPT_cholesky_solve ::
  "('a kp \<Rightarrow> 'a tensor \<Rightarrow> 'a tensor option \<Rightarrow> error + 'a tensor)
     \<Rightarrow> ('a::comm_semiring_1 lazy_tensor \<Rightarrow> error + 'a lazy_tensor) \<Rightarrow> 'a kp \<Rightarrow> 'a tensor \<Rightarrow> bool
     \<Rightarrow> error + 'a tensor" where
  "KPT_cholesky_solve base_inv_matmul inv_f k rhs upper =
     (if upper then
        (case KP_transpose_nonbatch k of
           Inl e \<Rightarrow> Inl e
         | Inr kt \<Rightarrow>
           (case KP_inv_matmul base_inv_matmul inv_f kt rhs None of
              Inl e \<Rightarrow> Inl e
            | Inr w \<Rightarrow> KP_inv_matmul base_inv_matmul inv_f k w None))
      else
        (case KP_inv_matmul base_inv_matmul inv_f k rhs None of
           Inl e \<Rightarrow> Inl e
         | Inr w \<Rightarrow>
           (case KP_transpose_nonbatch k of
              Inl e \<Rightarrow> Inl e
            | Inr kt \<Rightarrow> KP_inv_matmul base_inv_matmul inv_f kt w None)))"

section \<open>The dense Kronecker product\<close>

text \<open>
  The reference that the operations are compared with. The Kronecker product of an
  \<open>r1 \<times> c1\<close> matrix \<open>A\<close> and an \<open>r2 \<times> c2\<close> matrix \<open>B\<close> is the block matrix whose block
  \<open>(i, j)\<close> is \<open>A[i, j] \<cdot> B\<close>; the product of a list of factors nests to the right.
\<close>

definition kron_blk ::
  "nat \<Rightarrow> nat \<Rightarrow> 'a::comm_semiring_1 list \<Rightarrow> nat \<Rightarrow> nat \<Rightarrow> 'a list \<Rightarrow> 'a list" where
  "kron_blk r1 c1 A r2 c2 B =
     map (\<lambda>k. A ! (((k div (c1 * c2)) div r2) * c1 + (k mod (c1 * c2)) div c2)
              * B ! (((k div (c1 * c2)) mod r2) * c2 + (k mod (c1 * c2)) mod c2))
       [0..<(r1 * r2) * (c1 * c2)]"

fun kron_list :: "(nat \<times> nat \<times> 'a::comm_semiring_1 list) list \<Rightarrow> 'a list" where
  "kron_list [] = [1]"
| "kron_list ((r, c, A) # fs) =
     kron_blk r c A (prod_list (map fst fs)) (prod_list (map (\<lambda>f. fst (snd f)) fs)) (kron_list fs)"

definition factor_blocks :: "'a lazy_tensor list \<Rightarrow> nat \<Rightarrow> (nat \<times> nat \<times> 'a list) list" where
  "factor_blocks lts \<beta> =
     map (\<lambda>lt. (nrows lt, ncols lt, block (nrows lt * ncols lt) (entries lt) \<beta>)) lts"

definition dense_kron :: "'a::comm_semiring_1 lazy_tensor list \<Rightarrow> 'a lazy_tensor" where
  "dense_kron lts =
     \<lparr>triangular = False, batch_shape = batch_shape (hd lts),
      nrows = prod_list (map nrows lts), ncols = prod_list (map ncols lts),
      entries = concat (map (\<lambda>\<beta>. kron_list (factor_blocks lts \<beta>))
                          [0..<prod_list (batch_shape (hd lts))])\<rparr>"

text \<open>
  The product that the claims describe for one entry: each factor is read at the digits
  of the flat row and column indices, \<open>(index div radix) mod size\<close>, where the radix
  starts at the full size and is divided by the size of each factor in turn.
\<close>

fun decode_product :: "(nat \<times> nat \<times> 'a::comm_semiring_1 list) list \<Rightarrow> nat \<Rightarrow> nat \<Rightarrow> nat \<Rightarrow> nat \<Rightarrow> 'a" where
  "decode_product [] row_radix col_radix i j = 1"
| "decode_product ((r, c, A) # fs) row_radix col_radix i j =
     A ! (((i div (row_radix div r)) mod r) * c + (j div (col_radix div c)) mod c)
       * decode_product fs (row_radix div r) (col_radix div c) i j"

abbreviation rows_of :: "(nat \<times> nat \<times> 'a list) list \<Rightarrow> nat" where
  "rows_of fs \<equiv> prod_list (map fst fs)"
abbreviation cols_of :: "(nat \<times> nat \<times> 'a list) list \<Rightarrow> nat" where
  "cols_of fs \<equiv> prod_list (map (\<lambda>f. fst (snd f)) fs)"

section \<open>Example operators\<close>

text \<open>Small integer factors on which the theorems below are instantiated.\<close>

definition ex_A :: "int lazy_tensor" where
  "ex_A = \<lparr>triangular = False, batch_shape = [], nrows = 2, ncols = 2, entries = [1, 2, 3, 4]\<rparr>"

definition ex_B :: "int lazy_tensor" where
  "ex_B = \<lparr>triangular = False, batch_shape = [], nrows = 3, ncols = 3,
           entries = [1, 0, 2, 0, 1, 1, 5, 0, 1]\<rparr>"

definition ex_P :: "int lazy_tensor" where
  "ex_P = \<lparr>triangular = False, batch_shape = [2], nrows = 1, ncols = 2, entries = [1, 2, 3, 4]\<rparr>"

definition ex_Q :: "int lazy_tensor" where
  "ex_Q = \<lparr>triangular = False, batch_shape = [2], nrows = 2, ncols = 1, entries = [5, 6, 7, 8]\<rparr>"

section \<open>The sweep on one batch element\<close>

text \<open>
  What the loops of \<open>_matmul\<close>, \<open>_t_matmul\<close> and \<open>_inv_matmul\<close> do to one batch
  element, on row-major lists. The state \<open>X\<close> holds \<open>m\<close> columns; its rows are
  indexed by the column indices of the factors still to come, followed by an index below
  \<open>P\<close> for the factors already applied. One iteration applies the matrix \<open>A\<close> of the
  next factor to the regrouped state and moves the new axis behind the others.
\<close>

fun sweep :: "(nat \<times> nat \<times> 'a::comm_semiring_1 list) list \<Rightarrow> nat \<Rightarrow> nat \<Rightarrow> 'a list \<Rightarrow> 'a list" where
  "sweep [] P m X = X"
| "sweep ((r, c, A) # fs) P m X =
     sweep fs (P * r) m (tr3 r (cols_of fs * P) m (mm r c (cols_of fs * P * m) A X))"

text \<open>
  \<open>torch.matmul\<close> of a tensor of at least two dimensions and a 1-D vector: the
  matrix-vector product in every batch element.
\<close>

definition matvec :: "'a::comm_semiring_1 tensor \<Rightarrow> 'a tensor \<Rightarrow> error + 'a tensor" where
  "matvec A v =
     (let sa = shape A; da = length sa in
      if da < 2 \<or> length (shape v) \<noteq> 1 then Inl RuntimeError
      else
        let ba = take (da - 2) sa; r = sa ! (da - 2); c = sa ! (da - 1) in
        if c \<noteq> hd (shape v) then Inl RuntimeError
        else Inr \<lparr>shape = ba @ [r],
                  data = concat (map (\<lambda>\<beta>. map (\<lambda>i. sum_list (map (\<lambda>a. block (r * c) (data A) \<beta> ! (i * c + a)
                                                                  * data v ! a) [0..<c])) [0..<r])
                                   [0..<prod_list ba])\<rparr>)"

section \<open>Matrices used in the statements\<close>

text \<open>
  The identity matrix, the factor-wise product and the factor-wise transpose of two lists
  of matrices, and the composite that \<open>_transpose_nonbatch\<close> builds.
\<close>

definition identity :: "nat \<Rightarrow> 'a::comm_semiring_1 list" where
  "identity n = map (\<lambda>k. if k div n = k mod n then 1 else 0) [0..<n * n]"

fun mm_blocks ::
  "(nat \<times> nat \<times> 'a::comm_semiring_1 list) list \<Rightarrow> (nat \<times> nat \<times> 'a list) list
     \<Rightarrow> (nat \<times> nat \<times> 'a list) list" where
  "mm_blocks ((r, c, A) # gs) ((c', n, B) # fs) = (r, n, mm r c n A B) # mm_blocks gs fs"
| "mm_blocks gs fs = []"

fun tr_blocks :: "(nat \<times> nat \<times> 'a list) list \<Rightarrow> (nat \<times> nat \<times> 'a list) list" where
  "tr_blocks [] = []"
| "tr_blocks ((r, c, A) # fs) = (c, r, tr2 r c A) # tr_blocks fs"

fun transposed :: "'a kp \<Rightarrow> 'a kp" where
  "transposed (KP lts) = KP (map lt_transpose_nonbatch lts)"
| "transposed (KPT lts u) = KPT (map lt_transpose_nonbatch lts) False"

section \<open>Inverses of factors\<close>

text \<open>
  \<open>inverse_of g f\<close>: the operator \<open>g\<close> is the two-sided inverse of the square operator
  \<open>f\<close> in every batch element, with the same batch shape and of the same kind.
  \<open>with_factors k gs\<close> is the composite of the class (and \<open>upper\<close> flag) of \<open>k\<close>
  with the factors \<open>gs\<close>.
\<close>

definition inverse_of :: "'a::comm_semiring_1 lazy_tensor \<Rightarrow> 'a lazy_tensor \<Rightarrow> bool" where
  "inverse_of g f \<longleftrightarrow>
     batch_shape g = batch_shape f \<and> nrows f = ncols f \<and> nrows g = nrows f \<and> ncols g = nrows f
     \<and> triangular g = triangular f
     \<and> list_all (\<lambda>b. mm (nrows f) (nrows f) (nrows f)
                        (block (nrows f * nrows f) (entries g) b)
                        (block (nrows f * nrows f) (entries f) b) = identity (nrows f)
                   \<and> mm (nrows f) (nrows f) (nrows f)
                        (block (nrows f * nrows f) (entries f) b)
                        (block (nrows f * nrows f) (entries g) b) = identity (nrows f))
          [0..<prod_list (batch_shape f)]"

fun with_factors :: "'a kp \<Rightarrow> 'a lazy_tensor list \<Rightarrow> 'a kp" where
  "with_factors (KP lts) gs = KP gs"
| "with_factors (KPT lts u) gs = KPT gs u"

definition ex_L :: "int lazy_tensor" where
  "ex_L = \<lparr>triangular = True, batch_shape = [], nrows = 2, ncols = 2, entries = [1, 0, 3, 1]\<rparr>"

definition ex_M :: "int lazy_tensor" where
  "ex_M = \<lparr>triangular = True, batch_shape = [], nrows = 2, ncols = 2, entries = [1, 0, - 2, 1]\<rparr>"

text \<open>The inverse of a 2-by-2 integer matrix of determinant 1, without batch dimensions.\<close>

definition ex_inv :: "int lazy_tensor \<Rightarrow> error + int lazy_tensor" where
  "ex_inv lt =
     (if batch_shape lt = [] \<and> nrows lt = 2 \<and> ncols lt = 2 \<and> length (entries lt) = 4
         \<and> entries lt ! 0 * entries lt ! 3 - entries lt ! 1 * entries lt ! 2 = 1
      then Inr \<lparr>triangular = triangular lt, batch_shape = [], nrows = 2, ncols = 2,
                entries = [entries lt ! 3, - (entries lt ! 1), - (entries lt ! 2), entries lt ! 0]\<rparr>
      else Inl RuntimeError)"

text \<open>
  A factor with batch shape \<open>(2)\<close> (two unit lower triangular 2-by-2 matrices), and the
  inverse of a batch of 2-by-2 integer matrices of determinant 1, computed batch element by
  batch element.
\<close>

definition ex_R :: "int lazy_tensor" where
  "ex_R = \<lparr>triangular = False, batch_shape = [2], nrows = 2, ncols = 2,
           entries = [1, 0, 3, 1, 1, 0, - 2, 1]\<rparr>"

definition ex_binv :: "int lazy_tensor \<Rightarrow> error + int lazy_tensor" where
  "ex_binv lt =
     (if nrows lt = 2 \<and> ncols lt = 2 \<and> length (entries lt) = prod_list (batch_shape lt) * 4
         \<and> list_all (\<lambda>b. block 4 (entries lt) b ! 0 * block 4 (entries lt) b ! 3
                          - block 4 (entries lt) b ! 1 * block 4 (entries lt) b ! 2 = 1)
              [0..<prod_list (batch_shape lt)]
      then Inr \<lparr>triangular = triangular lt, batch_shape = batch_shape lt, nrows = 2, ncols = 2,
                entries = concat (map (\<lambda>b. [block 4 (entries lt) b ! 3, - (block 4 (entries lt) b ! 1),
                                            - (block 4 (entries lt) b ! 2), block 4 (entries lt) b ! 0])
                                   [0..<prod_list (batch_shape lt)])\<rparr>
      else Inl RuntimeError)"

section \<open>Cholesky factors of factors\<close>

text \<open>
  Modelled from the spec: the factor capability \<open>cholesky-factorize\<close>, which is not part
  of the source file, returns a triangular operator \<open>T\<close> with \<open>T@T^T\<close> (or \<open>T^T@T\<close> for
  upper) equal to the factor; the comments of \<open>_cholesky_solve\<close> write the same
  convention, \<open>L @ L.T\<close> and \<open>U.T @ U\<close>.
  \<open>cholesky_of upper c f\<close>: the triangular operator \<open>c\<close> is such a Cholesky factor of
  the square operator \<open>f\<close> in every batch element, with the same batch shape.
\<close>

definition cholesky_of :: "bool \<Rightarrow> 'a::comm_semiring_1 lazy_tensor \<Rightarrow> 'a lazy_tensor \<Rightarrow> bool" where
  "cholesky_of upper c f \<longleftrightarrow>
     triangular c \<and> batch_shape c = batch_shape f \<and> nrows f = ncols f
     \<and> nrows c = nrows f \<and> ncols c = nrows f
     \<and> list_all (\<lambda>b. (if upper
                       then mm (nrows f) (nrows f) (nrows f)
                              (tr2 (nrows f) (nrows f) (block (nrows f * nrows f) (entries c) b))
                              (block (nrows f * nrows f) (entries c) b)
                       else mm (nrows f) (nrows f) (nrows f)
                              (block (nrows f * nrows f) (entries c) b)
                              (tr2 (nrows f) (nrows f) (block (nrows f * nrows f) (entries c) b)))
                      = block (nrows f * nrows f) (entries f) b)
          [0..<prod_list (batch_shape f)]"

text \<open>
  Two symmetric positive definite 2-by-2 integer matrices, and the Cholesky factor of a
  matrix of the form \<open>[[1, b], [b, b\<^sup>2 + 1]]\<close>, which is \<open>[[1, 0], [b, 1]]\<close> (lower) or its
  transpose (upper).
\<close>

definition ex_S :: "int lazy_tensor" where
  "ex_S = \<lparr>triangular = False, batch_shape = [], nrows = 2, ncols = 2, entries = [1, 2, 2, 5]\<rparr>"

definition ex_T :: "int lazy_tensor" where
  "ex_T = \<lparr>triangular = False, batch_shape = [], nrows = 2, ncols = 2, entries = [1, 3, 3, 10]\<rparr>"

definition ex_chol :: "bool \<Rightarrow> int lazy_tensor \<Rightarrow> error + int lazy_tensor" where
  "ex_chol upper lt =
     (if batch_shape lt = [] \<and> nrows lt = 2 \<and> ncols lt = 2 \<and> length (entries lt) = 4
         \<and> entries lt ! 0 = 1 \<and> entries lt ! 1 = entries lt ! 2
         \<and> entries lt ! 3 = entries lt ! 1 * entries lt ! 1 + 1
      then Inr \<lparr>triangular = True, batch_shape = [], nrows = 2, ncols = 2,
                entries = (if upper then [1, entries lt ! 1, 0, 1] else [1, 0, entries lt ! 1, 1])\<rparr>
      else Inl RuntimeError)"

section \<open>The product of a matrix with its transpose\<close>

text \<open>
  \<open>gram_of K T\<close>: in every batch element the square operator \<open>T\<close> satisfies
  \<open>T @ T\<^sup>T = K\<close>, with the same batch shape. \<open>ex_K\<close> is \<open>T @ T\<^sup>T\<close> for the Kronecker
  product \<open>T\<close> of \<open>ex_L\<close> and \<open>ex_M\<close>, and \<open>ex_Kinv\<close> is its inverse.
\<close>

definition gram_of :: "'a::comm_semiring_1 lazy_tensor \<Rightarrow> 'a lazy_tensor \<Rightarrow> bool" where
  "gram_of K T \<longleftrightarrow>
     batch_shape K = batch_shape T \<and> nrows T = ncols T \<and> nrows K = nrows T \<and> ncols K = nrows T
     \<and> list_all (\<lambda>b. mm (nrows T) (nrows T) (nrows T)
                        (block (nrows T * nrows T) (entries T) b)
                        (tr2 (nrows T) (nrows T) (block (nrows T * nrows T) (entries T) b))
                      = block (nrows T * nrows T) (entries K) b)
          [0..<prod_list (batch_shape T)]"

definition ex_K :: "int lazy_tensor" where
  "ex_K = \<lparr>triangular = False, batch_shape = [], nrows = 4, ncols = 4,
           entries = [1, - 2, 3, - 6, - 2, 5, - 6, 15, 3, - 6, 10, - 20, - 6, 15, - 20, 50]\<rparr>"

definition ex_Kinv :: "int lazy_tensor" where
  "ex_Kinv = \<lparr>triangular = False, batch_shape = [], nrows = 4, ncols = 4,
              entries = [50, 20, - 15, - 6, 20, 10, - 6, - 3, - 15, - 6, 5, 2, - 6, - 3, 2, 1]\<rparr>"

section \<open>Construction\<close>

lemma check_batch_shapes_ok:
  "check_batch_shapes ps = Inr () \<longleftrightarrow> (\<forall>(a, b) \<in> set ps. batch_shape a = batch_shape b)"
  by (induction ps rule: check_batch_shapes.induct) auto

lemma check_batch_shapes_cases:
  "check_batch_shapes ps = Inr () \<or> check_batch_shapes ps = Inl RuntimeError"
  by (induction ps rule: check_batch_shapes.induct) auto

lemma adjacent_equal_all_equal:
  assumes "\<forall>(a, b) \<in> set (zip (butlast xs) (tl xs)). f a = f b"
    and "x \<in> set xs" and "y \<in> set xs"
  shows "f x = f y"
proof -
  have "\<forall>z \<in> set xs. f z = f (hd xs)" using assms(1)
  proof (induction xs rule: induct_list012)
    case (3 a b zs)
    have ab: "f a = f b" using 3(3) by simp
    have "\<forall>(u, v) \<in> set (zip (butlast (b # zs)) (tl (b # zs))). f u = f v"
      using 3(3) by auto
    then have "\<forall>z \<in> set (b # zs). f z = f (hd (b # zs))" by (rule 3(2))
    then show ?case using ab by auto
  qed auto
  then show ?thesis using assms(2,3) by metis
qed

lemma lazify_all_Inr: "lazify_all args = Inr lts \<Longrightarrow> args = map Operator lts"
proof (induction args arbitrary: lts)
  case (Cons a as)
  then show ?case by (cases a) (auto split: sum.splits)
qed auto

lemma lazify_all_Operator: "lazify_all (map Operator lts) = Inr lts"
  by (induction lts) auto

lemma lazify_all_cases: "(\<exists>lts. lazify_all args = Inr lts) \<or> lazify_all args = Inl TypeError"
proof (induction args)
  case (Cons a as)
  then show ?case by (cases a) (auto split: sum.splits)
qed auto

lemma KP_init_error: "KP_init args = Inl e \<Longrightarrow> e = RuntimeError"
proof -
  assume a: "KP_init args = Inl e"
  show ?thesis
  proof (cases "lazify_all args")
    case (Inl e')
    then have "e' = TypeError" using lazify_all_cases [of args] by auto
    with a Inl show ?thesis by (simp add: KP_init_def)
  next
    case (Inr lts)
    with a check_batch_shapes_cases [of "zip (butlast lts) (tl lts)"] show ?thesis
      by (auto simp: KP_init_def)
  qed
qed

lemma KP_init_mismatch:
  assumes "Operator a \<in> set args" and "Operator b \<in> set args"
    and "batch_shape a \<noteq> batch_shape b"
  shows "KP_init args = Inl RuntimeError"
proof (cases "lazify_all args")
  case (Inl e)
  then have "e = TypeError" using lazify_all_cases [of args] by auto
  with Inl show ?thesis by (simp add: KP_init_def)
next
  case (Inr lts)
  then have args: "args = map Operator lts" by (rule lazify_all_Inr)
  with assms(1,2) have ab: "a \<in> set lts" "b \<in> set lts" by auto
  have "check_batch_shapes (zip (butlast lts) (tl lts)) \<noteq> Inr ()"
  proof
    assume "check_batch_shapes (zip (butlast lts) (tl lts)) = Inr ()"
    then have "\<forall>(u, v) \<in> set (zip (butlast lts) (tl lts)). batch_shape u = batch_shape v"
      by (simp add: check_batch_shapes_ok)
    then have "batch_shape a = batch_shape b" using ab by (rule adjacent_equal_all_equal)
    with assms(3) show False by simp
  qed
  then have "check_batch_shapes (zip (butlast lts) (tl lts)) = Inl RuntimeError"
    using check_batch_shapes_cases [of "zip (butlast lts) (tl lts)"] by simp
  with Inr show ?thesis by (simp add: KP_init_def)
qed

text \<open>
  C8. A composite whose factors do not all have the same batch shape cannot be
  constructed: as soon as two of the factors disagree, the constructor of either class
  raises \<open>RuntimeError\<close>. The constructor of the triangular class raises
  \<open>RuntimeError\<close> as soon as one argument is not a triangular operator. In both cases
  the result is the error, and no composite is returned.
\<close>

theorem construction_validation:
  "(Operator a \<in> set args \<and> Operator b \<in> set args \<and> batch_shape a \<noteq> batch_shape b
      \<longrightarrow> new_KP args = Inl RuntimeError \<and> new_KPT args upper = Inl RuntimeError)
   \<and> (x \<in> set args \<and> \<not> isinstance_triangular x \<longrightarrow> new_KPT args upper = Inl RuntimeError)"
proof (intro conjI impI)
  assume h: "Operator a \<in> set args \<and> Operator b \<in> set args \<and> batch_shape a \<noteq> batch_shape b"
  then have e: "KP_init args = Inl RuntimeError" by (auto intro: KP_init_mismatch)
  show "new_KP args = Inl RuntimeError" using e by (simp add: new_KP_def)
  show "new_KPT args upper = Inl RuntimeError" using e by (simp add: new_KPT_def)
next
  assume "x \<in> set args \<and> \<not> isinstance_triangular x"
  then have "\<not> list_all isinstance_triangular args" by (auto simp: list_all_iff)
  then show "new_KPT args upper = Inl RuntimeError" by (simp add: new_KPT_def)
qed

theorem construction_validation_witness:
  "new_KP [Operator \<lparr>triangular = True, batch_shape = [2], nrows = 1, ncols = 1, entries = [1, 2 :: int]\<rparr>,
           Operator \<lparr>triangular = True, batch_shape = [3], nrows = 1, ncols = 1, entries = [1, 2, 3]\<rparr>]
     = Inl RuntimeError
   \<and> new_KPT [Operator \<lparr>triangular = True, batch_shape = [2], nrows = 1, ncols = 1, entries = [1, 2 :: int]\<rparr>,
           Operator \<lparr>triangular = True, batch_shape = [3], nrows = 1, ncols = 1, entries = [1, 2, 3]\<rparr>] True
     = Inl RuntimeError
   \<and> new_KPT [Operator \<lparr>triangular = False, batch_shape = [], nrows = 1, ncols = 1, entries = [1 :: int]\<rparr>] False
     = Inl RuntimeError"
  using construction_validation
    [where a = "\<lparr>triangular = True, batch_shape = [2], nrows = 1, ncols = 1, entries = [1, 2 :: int]\<rparr>"
       and b = "\<lparr>triangular = True, batch_shape = [3], nrows = 1, ncols = 1, entries = [1, 2, 3]\<rparr>"
       and args = "[Operator \<lparr>triangular = True, batch_shape = [2], nrows = 1, ncols = 1, entries = [1, 2 :: int]\<rparr>,
           Operator \<lparr>triangular = True, batch_shape = [3], nrows = 1, ncols = 1, entries = [1, 2, 3]\<rparr>]"
       and upper = True]
    construction_validation
    [where x = "Operator \<lparr>triangular = False, batch_shape = [], nrows = 1, ncols = 1, entries = [1 :: int]\<rparr>"
       and args = "[Operator \<lparr>triangular = False, batch_shape = [], nrows = 1, ncols = 1, entries = [1 :: int]\<rparr>]"
       and upper = False]
  by simp

text \<open>
  C9. The constructor accepts an empty list of factors: no argument is converted and no
  pair of batch shapes is compared. On the composite so built, \<open>_size\<close> raises
  \<open>IndexError\<close> when it reads \<open>lazy_tensors[0]\<close>; the same holds for the triangular
  class.
\<close>

theorem empty_factor_list:
  "new_KP ([] :: 'a arg list) = Inr (KP [])
   \<and> size_kp (KP ([] :: 'a lazy_tensor list)) = Inl IndexError
   \<and> new_KPT ([] :: 'a arg list) upper = Inr (KPT [] upper)
   \<and> size_kp (KPT ([] :: 'a lazy_tensor list) upper) = Inl IndexError"
  by (simp add: new_KP_def new_KPT_def KP_init_def size_kp_def)

section \<open>Index gathering: the mixed-radix decoding\<close>

lemma fmod1_nonneg: "0 \<le> x \<Longrightarrow> fmod1 x d = x mod int d"
  by (simp add: fmod1_def)


lemma length_kron_blk: "length (kron_blk r1 c1 A r2 c2 B) = (r1 * r2) * (c1 * c2)"
  by (simp add: kron_blk_def)

lemma length_kron_list: "length (kron_list fs) = rows_of fs * cols_of fs"
  by (induction fs rule: kron_list.induct) (simp_all add: length_kron_blk)

lemma flat_index_less: "(i::nat) < R \<Longrightarrow> j < C \<Longrightarrow> i * C + j < R * C"
proof -
  assume a: "i < R" "j < C"
  then have "i * C + j < i * C + C" by simp
  also have "\<dots> = (Suc i) * C" by simp
  also have "\<dots> \<le> R * C" using a(1) by (intro mult_le_mono1) simp
  finally show ?thesis .
qed

lemma flat_div: "(j::nat) < n \<Longrightarrow> (i * n + j) div n = i"
  by (cases "n = 0") simp_all

lemma flat_mod: "(j::nat) < n \<Longrightarrow> (i * n + j) mod n = j"
  by (cases "n = 0") simp_all

lemma prod_list_pos: "\<forall>x \<in> set xs. 0 < f x \<Longrightarrow> 0 < prod_list (map f xs :: nat list)"
  by (induction xs) simp_all

lemma prod_list_pos_elem:
  "0 < prod_list (map f xs :: nat list) \<Longrightarrow> x \<in> set xs \<Longrightarrow> 0 < f x"
  by (induction xs) auto

lemma nth_kron_blk:
  assumes "i < r1 * r2" and "j < c1 * c2"
  shows "kron_blk r1 c1 A r2 c2 B ! (i * (c1 * c2) + j)
         = A ! ((i div r2) * c1 + j div c2) * B ! ((i mod r2) * c2 + j mod c2)"
proof -
  have "i * (c1 * c2) + j < (r1 * r2) * (c1 * c2)" using assms by (rule flat_index_less)
  then show ?thesis using assms(2)
    by (simp add: kron_blk_def flat_div [OF assms(2)] flat_mod [OF assms(2)])
qed

lemma mod_mult_div: "(i::nat) mod (r * R) div R = (i div R) mod r"
proof (cases "R = 0")
  case True
  then show ?thesis by simp
next
  case False
  have "i mod (R * r) = R * (i div R mod r) + i mod R" by (rule mod_mult2_eq)
  then have "i mod (R * r) div R = (R * (i div R mod r) + i mod R) div R" by simp
  also have "\<dots> = i div R mod r" using False by simp
  finally show ?thesis by (simp add: mult.commute)
qed

lemma mod_mult_mod: "(i::nat) mod (r * R) mod R = i mod R"
  by (simp add: mod_mod_cancel)

lemma decode_product_kron_list:
  assumes "\<forall>f \<in> set fs. 0 < fst f \<and> 0 < fst (snd f)"
  shows "decode_product fs (rows_of fs) (cols_of fs) i j
         = kron_list fs ! ((i mod rows_of fs) * cols_of fs + j mod cols_of fs)"
  using assms
proof (induction fs)
  case Nil
  show ?case by simp
next
  case (Cons f fs)
  obtain r c A where f: "f = (r, c, A)" by (cases f) auto
  have pos: "0 < r" "0 < c" using Cons.prems f by auto
  have Rpos: "0 < rows_of fs" "0 < cols_of fs" using Cons.prems by (simp_all add: prod_list_pos)
  have i: "i mod (r * rows_of fs) < r * rows_of fs" using pos Rpos by simp
  have j: "j mod (c * cols_of fs) < c * cols_of fs" using pos Rpos by simp
  have IH: "decode_product fs (rows_of fs) (cols_of fs) i j
         = kron_list fs ! ((i mod rows_of fs) * cols_of fs + j mod cols_of fs)"
    using Cons.prems by (intro Cons.IH) simp
  have d: "r * rows_of fs div r = rows_of fs" "c * cols_of fs div c = cols_of fs"
    using pos by simp_all
  show ?case
    by (simp add: f nth_kron_blk [OF i j] IH mod_mult_div mod_mult_mod d del: mod_mult_self1_is_0)
qed


lemma prod_reduce_eq: "prod_reduce xs = prod_list xs"
proof -
  have "foldl (*) a xs = a * prod_list xs" for a :: nat
    by (induction xs arbitrary: a) (simp_all add: mult.assoc)
  then show ?thesis by (simp add: prod_reduce_def)
qed

lemma length_concat_map_const:
  "\<forall>b<B. length (f b) = sz \<Longrightarrow> length (concat (map f [0..<B])) = B * sz"
  by (induction B) simp_all

lemma block_concat_map:
  assumes "\<forall>b<B. length (f b) = sz" and "b < B"
  shows "block sz (concat (map f [0..<B])) b = f b"
  using assms
proof (induction B)
  case 0
  then show ?case by simp
next
  case (Suc B)
  have len: "length (concat (map f [0..<B])) = B * sz"
    using Suc.prems(1) by (intro length_concat_map_const) simp
  show ?case
  proof (cases "b < B")
    case True
    then have "Suc b \<le> B" by simp
    then have "Suc b * sz \<le> B * sz" by (rule mult_le_mono1)
    then have le: "b * sz + sz \<le> B * sz" by simp
    have "block sz (concat (map f [0..<B])) b = f b"
      using Suc.prems(1) True by (intro Suc.IH) simp_all
    then show ?thesis using le by (simp add: block_def len)
  next
    case False
    then have "b = B" using Suc.prems(2) by simp
    then show ?thesis using Suc.prems(1) by (simp add: block_def len)
  qed
qed

lemma ravel_bound:
  "ravel ns js acc = Inr b \<Longrightarrow> acc * prod_list ns \<le> b \<and> b < Suc acc * prod_list ns"
proof (induction ns js acc rule: ravel.induct)
  case (2 n ns i js acc)
  from "2.prems" obtain j where j: "norm_index n i = Inr j" and r: "ravel ns js (acc * n + j) = Inr b"
    by (auto split: sum.splits)
  have jn: "j < n" using j by (auto simp: norm_index_def split: if_splits)
  from "2.IH" [OF j r] have b: "(acc * n + j) * prod_list ns \<le> b"
    "b < Suc (acc * n + j) * prod_list ns" by simp_all
  have "acc * n * prod_list ns \<le> (acc * n + j) * prod_list ns" by (intro mult_le_mono1) simp
  from this b(1) have lo: "acc * n * prod_list ns \<le> b" by (rule le_trans)
  have "Suc (acc * n + j) \<le> Suc acc * n" using jn by simp
  then have "Suc (acc * n + j) * prod_list ns \<le> (Suc acc * n) * prod_list ns"
    by (rule mult_le_mono1)
  with b(2) have hi: "b < (Suc acc * n) * prod_list ns" by (rule less_le_trans)
  have "acc * prod_list (n # ns) = acc * n * prod_list ns"
    "Suc acc * prod_list (n # ns) = (Suc acc * n) * prod_list ns"
    by (simp_all only: prod_list.Cons mult.assoc)
  with lo hi show ?case by simp
qed simp_all

lemma lt_get_indices_eq:
  assumes "length rs = length cs" and "\<forall>b \<in> set bss. length b = length rs"
    and "\<forall>p<length rs. lt_get_index lt (rs ! p) (cs ! p) (map (\<lambda>b. b ! p) bss) = Inr (f p)"
  shows "lt_get_indices lt rs cs bss = Inr (map f [0..<length rs])"
  using assms
proof (induction rs cs arbitrary: bss f rule: list_induct2)
  case Nil
  show ?case by simp
next
  case (Cons r rs c cs)
  have ne: "\<not> list_ex (\<lambda>bs. bs = []) bss" using Cons.prems(1) by (auto simp: list_ex_iff)
  have "hd b = b ! 0" if "b \<in> set bss" for b
  proof -
    from that Cons.prems(1) have "length b = Suc (length rs)" by simp
    then have "b \<noteq> []" by auto
    then show ?thesis by (rule hd_conv_nth)
  qed
  then have hd: "map hd bss = map (\<lambda>b. b ! 0) bss" by simp
  have first: "lt_get_index lt r c (map hd bss) = Inr (f 0)"
    using Cons.prems(2) [rule_format, of 0] by (simp add: hd)
  have tl: "map (\<lambda>b. b ! p) (map tl bss) = map (\<lambda>b. b ! Suc p) bss" if "p < length rs" for p
    using Cons.prems(1) that by (auto simp: nth_tl)
  have rest: "lt_get_indices lt rs cs (map tl bss) = Inr (map (\<lambda>p. f (Suc p)) [0..<length rs])"
  proof (rule Cons.IH)
    show "\<forall>b \<in> set (map tl bss). length b = length rs" using Cons.prems(1) by auto
    show "\<forall>p<length rs. lt_get_index lt (rs ! p) (cs ! p) (map (\<lambda>b. b ! p) (map tl bss))
            = Inr (f (Suc p))"
    proof (intro allI impI)
      fix p assume p: "p < length rs"
      then have "Suc p < length (r # rs)" by simp
      with Cons.prems(2)
      have "lt_get_index lt ((r # rs) ! Suc p) ((c # cs) ! Suc p) (map (\<lambda>b. b ! Suc p) bss)
              = Inr (f (Suc p))" by blast
      then show "lt_get_index lt (rs ! p) (cs ! p) (map (\<lambda>b. b ! p) (map tl bss))
              = Inr (f (Suc p))" by (simp only: tl [OF p] nth_Cons_Suc)
    qed
  qed
  have "map f [0..<Suc (length rs)] = f 0 # map (\<lambda>p. f (Suc p)) [0..<length rs]"
    by (simp add: map_upt_Suc del: upt_Suc)
  then show ?case using ne first rest by simp
qed

lemma map2_upt:
  "length ys = n \<Longrightarrow> map2 f (map g [0..<n]) ys = map (\<lambda>p. f (g p) (ys ! p)) [0..<n]"
  by (rule nth_equalityI) simp_all

lemma nat_local_index:
  assumes "0 \<le> i" and "0 < r"
  shows "nat (fmod1 (i div int R) r) = (nat i div R) mod r"
proof -
  have "0 \<le> i div int R" using assms(1) by (simp add: div_int_pos_iff)
  then have "fmod1 (i div int R) r = (i div int R) mod int r" by (rule fmod1_nonneg)
  moreover have "i = int (nat i)" using assms(1) by simp
  ultimately have "fmod1 (i div int R) r = int ((nat i div R) mod r)"
    by (metis zdiv_int zmod_int)
  then show ?thesis by simp
qed

lemma norm_index_local:
  assumes "0 \<le> i" and "0 < r"
  shows "norm_index r (fmod1 (i div int R) r) = Inr ((nat i div R) mod r)"
proof -
  have "0 \<le> i div int R" using assms(1) by (simp add: div_int_pos_iff)
  then have e: "fmod1 (i div int R) r = (i div int R) mod int r" by (rule fmod1_nonneg)
  have "0 \<le> fmod1 (i div int R) r" "fmod1 (i div int R) r < int r"
    using assms(2) by (simp_all add: e)
  then show ?thesis using nat_local_index [OF assms] by (simp add: norm_index_def)
qed


lemma lt_get_index_local:
  assumes "0 \<le> i" and "0 \<le> j" and "0 < nrows lt" and "0 < ncols lt"
    and "ravel (batch_shape lt) bs 0 = Inr b"
  shows "lt_get_index lt (fmod1 (i div int R) (nrows lt)) (fmod1 (j div int C) (ncols lt)) bs
         = Inr (block (nrows lt * ncols lt) (entries lt) b
                  ! (((nat i div R) mod nrows lt) * ncols lt + (nat j div C) mod ncols lt))"
  using assms by (simp add: lt_get_index_def norm_index_local)

lemma rows_of_factor_blocks: "prod_list (map fst (factor_blocks lts b)) = prod_list (map nrows lts)"
  by (simp add: factor_blocks_def comp_def)

lemma cols_of_factor_blocks:
  "prod_list (map (\<lambda>f. fst (snd f)) (factor_blocks lts b)) = prod_list (map ncols lts)"
  by (simp add: factor_blocks_def comp_def)

lemma get_indices_loop_eq:
  assumes "\<forall>lt \<in> set lts. 0 < nrows lt \<and> 0 < ncols lt \<and> batch_shape lt = bs"
    and "length rows = n" and "length cols = n" and "\<forall>b \<in> set bss. length b = n"
    and "\<forall>p<n. 0 \<le> rows ! p \<and> 0 \<le> cols ! p"
    and "\<forall>p<n. ravel bs (map (\<lambda>b. b ! p) bss) 0 = Inr (\<beta> p)"
    and "case res of None \<Rightarrow> lts \<noteq> [] | Some r0 \<Rightarrow> length r0 = n"
  shows "get_indices_loop lts (prod_list (map nrows lts)) (prod_list (map ncols lts)) rows cols bss res
         = Inr (Some (map (\<lambda>p. decode_product (factor_blocks lts (\<beta> p))
                                   (prod_list (map nrows lts)) (prod_list (map ncols lts))
                                   (nat (rows ! p)) (nat (cols ! p))
                                 * (case res of None \<Rightarrow> 1 | Some r0 \<Rightarrow> r0 ! p)) [0..<n]))"
  using assms(1,7)
proof (induction lts arbitrary: res)
  case Nil
  then obtain r0 where r0: "res = Some r0" "length r0 = n" by (cases res) auto
  have "map (\<lambda>p. r0 ! p) [0..<n] = r0" using r0(2) map_nth [of r0] by simp
  then show ?case using r0 by (simp add: factor_blocks_def)
next
  case (Cons lt lts)
  let ?r = "nrows lt" and ?c = "ncols lt"
  let ?R = "prod_list (map nrows lts)" and ?C = "prod_list (map ncols lts)"
  have pos: "0 < ?r" "0 < ?c" and bs: "batch_shape lt = bs" using Cons.prems(1) by simp_all
  have Rpos: "0 < ?R" "0 < ?C" using Cons.prems(1) by (simp_all add: prod_list_pos)
  have d: "?r * ?R div ?r = ?R" "?c * ?C div ?c = ?C" using pos by simp_all
  define sub where "sub p = block (?r * ?c) (entries lt) (\<beta> p)
      ! (((nat (rows ! p) div ?R) mod ?r) * ?c + (nat (cols ! p) div ?C) mod ?c)" for p
  define acc where "acc p = (case res of None \<Rightarrow> 1 | Some r0 \<Rightarrow> r0 ! p)" for p
  have g: "lt_get_indices lt (map (\<lambda>x. fmod1 (x div int ?R) ?r) rows)
             (map (\<lambda>x. fmod1 (x div int ?C) ?c) cols) bss = Inr (map sub [0..<n])"
  proof -
    have "lt_get_indices lt (map (\<lambda>x. fmod1 (x div int ?R) ?r) rows)
             (map (\<lambda>x. fmod1 (x div int ?C) ?c) cols) bss
          = Inr (map sub [0..<length (map (\<lambda>x. fmod1 (x div int ?R) ?r) rows)])"
    proof (rule lt_get_indices_eq)
      show "length (map (\<lambda>x. fmod1 (x div int ?R) ?r) rows)
            = length (map (\<lambda>x. fmod1 (x div int ?C) ?c) cols)" using assms(2,3) by simp
      show "\<forall>b \<in> set bss. length b = length (map (\<lambda>x. fmod1 (x div int ?R) ?r) rows)"
        using assms(2,4) by simp
      show "\<forall>p<length (map (\<lambda>x. fmod1 (x div int ?R) ?r) rows).
              lt_get_index lt (map (\<lambda>x. fmod1 (x div int ?R) ?r) rows ! p)
                (map (\<lambda>x. fmod1 (x div int ?C) ?c) cols ! p) (map (\<lambda>b. b ! p) bss) = Inr (sub p)"
      proof (intro allI impI)
        fix p assume "p < length (map (\<lambda>x. fmod1 (x div int ?R) ?r) rows)"
        then have p: "p < n" using assms(2) by simp
        have "lt_get_index lt (fmod1 (rows ! p div int ?R) ?r) (fmod1 (cols ! p div int ?C) ?c)
                (map (\<lambda>b. b ! p) bss) = Inr (sub p)"
          unfolding sub_def using assms(5,6) p pos bs by (intro lt_get_index_local) simp_all
        then show "lt_get_index lt (map (\<lambda>x. fmod1 (x div int ?R) ?r) rows ! p)
                (map (\<lambda>x. fmod1 (x div int ?C) ?c) cols ! p) (map (\<lambda>b. b ! p) bss) = Inr (sub p)"
          using p assms(2,3) by simp
      qed
    qed
    then show ?thesis using assms(2) by simp
  qed
  define res' where "res' = (case res of None \<Rightarrow> Some (map sub [0..<n])
                              | Some r0 \<Rightarrow> Some (map2 (*) (map sub [0..<n]) r0))"
  have res': "res' = Some (map (\<lambda>p. sub p * acc p) [0..<n])"
  proof (cases res)
    case None
    then show ?thesis by (simp add: res'_def acc_def)
  next
    case (Some r0)
    then have "length r0 = n" using Cons.prems(2) by simp
    then show ?thesis using Some by (simp add: res'_def acc_def map2_upt)
  qed
  have "get_indices_loop lts ?R ?C rows cols bss res'
        = Inr (Some (map (\<lambda>p. decode_product (factor_blocks lts (\<beta> p)) ?R ?C
                                   (nat (rows ! p)) (nat (cols ! p))
                                 * (case res' of None \<Rightarrow> 1 | Some r0 \<Rightarrow> r0 ! p)) [0..<n]))"
    using Cons.prems(1) by (intro Cons.IH) (simp_all add: res')
  also have "map (\<lambda>p. decode_product (factor_blocks lts (\<beta> p)) ?R ?C
                                   (nat (rows ! p)) (nat (cols ! p))
                                 * (case res' of None \<Rightarrow> 1 | Some r0 \<Rightarrow> r0 ! p)) [0..<n]
      = map (\<lambda>p. decode_product (factor_blocks (lt # lts) (\<beta> p)) (?r * ?R) (?c * ?C)
                                   (nat (rows ! p)) (nat (cols ! p)) * acc p) [0..<n]"
    by (rule map_cong) (simp_all add: res' factor_blocks_def d sub_def mult_ac)
  finally have IH: "get_indices_loop lts ?R ?C rows cols bss res'
        = Inr (Some (map (\<lambda>p. decode_product (factor_blocks (lt # lts) (\<beta> p)) (?r * ?R) (?c * ?C)
                                   (nat (rows ! p)) (nat (cols ! p)) * acc p) [0..<n]))" .
  have nz: "?R \<noteq> 0" "?C \<noteq> 0" "?r \<noteq> 0" "?c \<noteq> 0" using pos Rpos by simp_all
  show ?case
    using IH nz
    by (simp add: Let_def d floordiv_def fmod_def comp_def g res'_def acc_def)
qed

lemma shape_neg_append2:
  "shape_neg (bs @ [a, b]) 1 = Inr b" "shape_neg (bs @ [a, b]) (Suc 0) = Inr b"
  "shape_neg (bs @ [a, b]) 2 = Inr a"
  by (simp_all add: shape_neg_def nth_append)

lemma get_indices_loop_local_indices:
  assumes "0 < nrows lt" and "0 < ncols lt"
    and "row_factor div nrows lt \<noteq> 0" and "col_factor div ncols lt \<noteq> 0"
  shows "get_indices_loop (lt # lts) row_factor col_factor rows cols bss res
         = (case lt_get_indices lt
                   (map (\<lambda>i. hd (local_indices (map nrows (lt # lts)) row_factor i)) rows)
                   (map (\<lambda>j. hd (local_indices (map ncols (lt # lts)) col_factor j)) cols) bss of
              Inl e \<Rightarrow> Inl e
            | Inr sub_res \<Rightarrow>
                get_indices_loop lts (row_factor div nrows lt) (col_factor div ncols lt) rows cols bss
                  (case res of None \<Rightarrow> Some sub_res
                   | Some res0 \<Rightarrow> Some (map2 (*) sub_res res0)))"
  using assms by (simp add: Let_def floordiv_def fmod_def comp_def)

text \<open>
  C2. For index tensors whose entries are valid flat indices into the (non-empty)
  virtual dense matrix, \<open>_get_indices\<close> returns, at every position \<open>p\<close>, the product
  over the factors of the factor's entry at the decoded digits of \<open>row_index[p]\<close> and
  \<open>col_index[p]\<close>, and that product is the entry of the dense Kronecker product at
  \<open>(row_index[p], col_index[p])\<close> in the batch element addressed by the batch indices.
  The index tensors are vectors of any length \<open>n\<close>.
\<close>

theorem get_indices_dense_kron:
  assumes "lts \<noteq> []" and "\<forall>lt \<in> set lts. batch_shape lt = batch_shape (hd lts)"
    and "length row_index = n" and "length col_index = n"
    and "\<forall>b \<in> set batch_indices. length b = n"
    and "\<forall>p<n. 0 \<le> row_index ! p \<and> row_index ! p < int (prod_list (map nrows lts))
              \<and> 0 \<le> col_index ! p \<and> col_index ! p < int (prod_list (map ncols lts))"
    and "\<forall>p<n. ravel (batch_shape (hd lts)) (map (\<lambda>b. b ! p) batch_indices) 0 = Inr (\<beta> p)"
    and "0 < prod_list (map nrows lts)" and "0 < prod_list (map ncols lts)"
    and "lazy_tensors k = lts"
  shows "get_indices k row_index col_index batch_indices
         = Inr (Some (map (\<lambda>p. decode_product (factor_blocks lts (\<beta> p))
                                   (prod_list (map nrows lts)) (prod_list (map ncols lts))
                                   (nat (row_index ! p)) (nat (col_index ! p))) [0..<n]))
     \<and> (\<forall>p<n. decode_product (factor_blocks lts (\<beta> p))
                   (prod_list (map nrows lts)) (prod_list (map ncols lts))
                   (nat (row_index ! p)) (nat (col_index ! p))
                = block (prod_list (map nrows lts) * prod_list (map ncols lts))
                    (entries (dense_kron lts)) (\<beta> p)
                  ! (nat (row_index ! p) * prod_list (map ncols lts) + nat (col_index ! p)))"
proof
  let ?R = "prod_list (map nrows lts)" and ?C = "prod_list (map ncols lts)"
  have pos: "\<forall>lt \<in> set lts. 0 < nrows lt \<and> 0 < ncols lt"
    using assms(8,9) prod_list_pos_elem [of nrows lts] prod_list_pos_elem [of ncols lts] by blast
  obtain lt0 lts0 where l: "lts = lt0 # lts0" using assms(1) by (cases lts) auto
  have sz: "size_kp k = Inr (batch_shape (hd lts) @ [?R, ?C])"
    by (simp add: size_kp_def assms(10) l prod_reduce_eq)
  have "get_indices_loop lts ?R ?C row_index col_index batch_indices None
        = Inr (Some (map (\<lambda>p. decode_product (factor_blocks lts (\<beta> p)) ?R ?C
                                   (nat (row_index ! p)) (nat (col_index ! p))
                                 * (case None of None \<Rightarrow> 1 | Some r0 \<Rightarrow> r0 ! p)) [0..<n]))"
  proof (rule get_indices_loop_eq [where bs = "batch_shape (hd lts)"])
    show "\<forall>lt \<in> set lts. 0 < nrows lt \<and> 0 < ncols lt \<and> batch_shape lt = batch_shape (hd lts)"
      using pos assms(2) by blast
    show "\<forall>p<n. 0 \<le> row_index ! p \<and> 0 \<le> col_index ! p" using assms(6) by blast
    show "case None of None \<Rightarrow> lts \<noteq> [] | Some r0 \<Rightarrow> length r0 = n" using assms(1) by simp
  qed (rule assms)+
  then show "get_indices k row_index col_index batch_indices
         = Inr (Some (map (\<lambda>p. decode_product (factor_blocks lts (\<beta> p)) ?R ?C
                                   (nat (row_index ! p)) (nat (col_index ! p))) [0..<n]))"
    by (simp add: get_indices_def sz shape_neg_append2 assms(10))
  show "\<forall>p<n. decode_product (factor_blocks lts (\<beta> p)) ?R ?C
                   (nat (row_index ! p)) (nat (col_index ! p))
                = block (?R * ?C) (entries (dense_kron lts)) (\<beta> p)
                  ! (nat (row_index ! p) * ?C + nat (col_index ! p))"
  proof (intro allI impI)
    fix p assume p: "p < n"
    let ?fs = "factor_blocks lts (\<beta> p)"
    have b: "\<beta> p < prod_list (batch_shape (hd lts))"
    proof -
      have "ravel (batch_shape (hd lts)) (map (\<lambda>b. b ! p) batch_indices) 0 = Inr (\<beta> p)"
        using assms(7) p by blast
      then have "\<beta> p < Suc 0 * prod_list (batch_shape (hd lts))" using ravel_bound by blast
      then show ?thesis by simp
    qed
    have blk: "block (?R * ?C) (entries (dense_kron lts)) (\<beta> p) = kron_list ?fs"
    proof -
      have "block (?R * ?C) (concat (map (\<lambda>b. kron_list (factor_blocks lts b))
               [0..<prod_list (batch_shape (hd lts))])) (\<beta> p) = kron_list (factor_blocks lts (\<beta> p))"
      proof (rule block_concat_map)
        show "\<forall>b<prod_list (batch_shape (hd lts)). length (kron_list (factor_blocks lts b)) = ?R * ?C"
          by (simp add: length_kron_list rows_of_factor_blocks cols_of_factor_blocks)
      qed (rule b)
      then show ?thesis by (simp add: dense_kron_def)
    qed
    have fpos: "\<forall>f \<in> set ?fs. 0 < fst f \<and> 0 < fst (snd f)"
      using pos by (auto simp: factor_blocks_def)
    have i: "nat (row_index ! p) < ?R" and j: "nat (col_index ! p) < ?C"
      using assms(6) p by auto
    have "decode_product ?fs (rows_of ?fs) (cols_of ?fs) (nat (row_index ! p)) (nat (col_index ! p))
          = kron_list ?fs ! ((nat (row_index ! p) mod rows_of ?fs) * cols_of ?fs
                             + nat (col_index ! p) mod cols_of ?fs)"
      using fpos by (rule decode_product_kron_list)
    then show "decode_product ?fs ?R ?C (nat (row_index ! p)) (nat (col_index ! p))
                = block (?R * ?C) (entries (dense_kron lts)) (\<beta> p)
                  ! (nat (row_index ! p) * ?C + nat (col_index ! p))"
      using i j by (simp add: blk rows_of_factor_blocks cols_of_factor_blocks)
  qed
qed

theorem get_indices_dense_kron_witness:
  "get_indices (KP [ex_P, ex_Q]) [0, 1, 1] [0, 1, 0] [[0, 1, 1]] = Inr (Some [5, 32, 24])"
proof -
  have h1: "[ex_P, ex_Q] \<noteq> []" by simp
  have h2: "\<forall>lt \<in> set [ex_P, ex_Q]. batch_shape lt = batch_shape (hd [ex_P, ex_Q])"
    by (simp add: ex_P_def ex_Q_def)
  have h3: "length [0, 1, 1 :: int] = 3" and h4: "length [0, 1, 0 :: int] = 3"
    and h5: "\<forall>b \<in> set [[0, 1, 1 :: int]]. length b = 3" by simp_all
  have h6: "\<forall>p<3. 0 \<le> [0, 1, 1 :: int] ! p \<and> [0, 1, 1 :: int] ! p < int (prod_list (map nrows [ex_P, ex_Q]))
              \<and> 0 \<le> [0, 1, 0 :: int] ! p \<and> [0, 1, 0 :: int] ! p < int (prod_list (map ncols [ex_P, ex_Q]))"
    by (simp add: ex_P_def ex_Q_def less_Suc_eq numeral_3_eq_3)
  have h7: "\<forall>p<3. ravel (batch_shape (hd [ex_P, ex_Q])) (map (\<lambda>b. b ! p) [[0, 1, 1]]) 0
              = Inr (if p = 0 then 0 else 1)"
    by (simp add: ex_P_def ex_Q_def less_Suc_eq numeral_3_eq_3 norm_index_def)
  have h8: "0 < prod_list (map nrows [ex_P, ex_Q])" and h9: "0 < prod_list (map ncols [ex_P, ex_Q])"
    by (simp_all add: ex_P_def ex_Q_def)
  have h10: "lazy_tensors (KP [ex_P, ex_Q]) = [ex_P, ex_Q]" by simp
  have dp: "map (\<lambda>p. decode_product (factor_blocks [ex_P, ex_Q] (if p = 0 then 0 else 1))
              (prod_list (map nrows [ex_P, ex_Q])) (prod_list (map ncols [ex_P, ex_Q]))
              (nat ([0, 1, 1] ! p)) (nat ([0, 1, 0] ! p))) [0..<3] = [5, 32, 24]"
    by code_simp
  from get_indices_dense_kron [OF h1 h2 h3 h4 h5 h6 h7 h8 h9 h10]
  have "get_indices (KP [ex_P, ex_Q]) [0, 1, 1] [0, 1, 0] [[0, 1, 1]]
        = Inr (Some (map (\<lambda>p. decode_product (factor_blocks [ex_P, ex_Q] (if p = 0 then 0 else 1))
              (prod_list (map nrows [ex_P, ex_Q])) (prod_list (map ncols [ex_P, ex_Q]))
              (nat ([0, 1, 1] ! p)) (nat ([0, 1, 0] ! p))) [0..<3]))"
    by (rule conjunct1)
  then show ?thesis by (simp only: dp)
qed



section \<open>The sweep computes the product with the dense Kronecker product\<close>

lemma sum_list_upt: "sum_list (map f [0..<n]) = (\<Sum>a<n. f a)"
  by (simp add: interv_sum_list_conv_sum_set_nat lessThan_atLeast0)

lemma nth_mm:
  assumes "i < r" and "t < n"
  shows "mm r c n A B ! (i * n + t) = (\<Sum>a<c. A ! (i * c + a) * B ! (a * n + t))"
proof -
  have "i * n + t < r * n" using assms by (rule flat_index_less)
  then show ?thesis using assms
    by (simp add: mm_def sum_list_upt flat_div [OF assms(2)] flat_mod [OF assms(2)] del: upt_Suc)
qed

lemma length_mm: "length (mm r c n A B) = r * n"
  by (simp add: mm_def)

lemma length_tr3: "length (tr3 p q n X) = q * p * n"
  by (simp add: tr3_def)

lemma nth_tr3:
  assumes "j < q" and "i < p" and "l < n"
  shows "tr3 p q n X ! ((j * p + i) * n + l) = X ! ((i * q + j) * n + l)"
proof -
  have "j * p + i < q * p" using assms(1,2) by (rule flat_index_less)
  then have "(j * p + i) * n + l < q * p * n" using assms(3) by (rule flat_index_less)
  then show ?thesis using assms
    by (simp add: tr3_def flat_div [OF assms(3)] flat_mod [OF assms(3)]
        flat_div [OF assms(2)] flat_mod [OF assms(2)] del: upt_Suc)
qed

lemma sum_flat_index:
  "(\<Sum>J<c * C. g J) = (\<Sum>a<c. \<Sum>J'<C. g (a * C + J'))" for g :: "nat \<Rightarrow> 'a::comm_monoid_add"
proof -
  have "(\<Sum>a<c. sum g {a * C..<a * C + C}) = sum g {..<c * C}" by (rule sum.nat_group)
  moreover have "sum g {a * C..<a * C + C} = (\<Sum>J'<C. g (a * C + J'))" for a
    using sum.shift_bounds_nat_ivl [of g 0 "a * C" C]
    by (simp add: lessThan_atLeast0 add.commute)
  ultimately show ?thesis by simp
qed

lemma length_sweep:
  "length X = cols_of fs * P * m \<Longrightarrow> length (sweep fs P m X) = P * rows_of fs * m"
proof (induction fs arbitrary: P X)
  case Nil
  then show ?case by simp
next
  case (Cons f fs)
  obtain r c A where f: "f = (r, c, A)" by (cases f) auto
  have "length (sweep fs (P * r) m (tr3 r (cols_of fs * P) m (mm r c (cols_of fs * P * m) A X)))
        = P * r * rows_of fs * m"
    by (rule Cons.IH) (simp add: length_tr3 mult_ac)
  then show ?case by (simp add: f mult_ac)
qed

lemma nth_sweep:
  assumes "I < rows_of fs" and "p < P" and "l < m"
  shows "sweep fs P m X ! ((p * rows_of fs + I) * m + l)
         = (\<Sum>J<cols_of fs. kron_list fs ! (I * cols_of fs + J) * X ! ((J * P + p) * m + l))"
  using assms
proof (induction fs arbitrary: P p I X)
  case Nil
  then show ?case by simp
next
  case (Cons f fs)
  obtain r c A where f: "f = (r, c, A)" by (cases f) auto
  let ?R = "rows_of fs" and ?C = "cols_of fs"
  let ?N = "?C * P * m"
  let ?M = "mm r c ?N A X"
  let ?Y = "tr3 r (?C * P) m ?M"
  have I: "I < r * ?R" using Cons.prems(1) by (simp add: f)
  then have Rpos: "0 < ?R" and rpos: "0 < r" by (auto intro: Nat.gr0I)
  define i where "i = I div ?R"
  define I' where "I' = I mod ?R"
  have i: "i < r" using I Rpos by (simp add: i_def less_mult_imp_div_less mult.commute)
  have I': "I' < ?R" using Rpos by (simp add: I'_def)
  have Ieq: "I = i * ?R + I'" by (simp add: i_def I'_def)
  have p': "p * r + i < P * r" using Cons.prems(2) i by (rule flat_index_less)
  have idx: "(p * (r * ?R) + I) = (p * r + i) * ?R + I'" by (simp add: Ieq algebra_simps)
  have "sweep (f # fs) P m X ! ((p * rows_of (f # fs) + I) * m + l)
        = sweep fs (P * r) m ?Y ! (((p * r + i) * ?R + I') * m + l)"
    by (simp add: f idx)
  also have "\<dots> = (\<Sum>J'<?C. kron_list fs ! (I' * ?C + J') * ?Y ! ((J' * (P * r) + (p * r + i)) * m + l))"
    using I' p' Cons.prems(3) by (rule Cons.IH)
  also have "\<dots> = (\<Sum>J'<?C. kron_list fs ! (I' * ?C + J')
                      * (\<Sum>a<c. A ! (i * c + a) * X ! (((a * ?C + J') * P + p) * m + l)))"
  proof (rule sum.cong)
    fix J' assume "J' \<in> {..<?C}"
    then have J': "J' < ?C" by simp
    have jp: "J' * P + p < ?C * P" using J' Cons.prems(2) by (rule flat_index_less)
    have t: "(J' * P + p) * m + l < ?N" using jp Cons.prems(3) by (rule flat_index_less)
    have "?Y ! ((J' * (P * r) + (p * r + i)) * m + l) = ?Y ! (((J' * P + p) * r + i) * m + l)"
      by (simp add: algebra_simps)
    also have "\<dots> = ?M ! ((i * (?C * P) + (J' * P + p)) * m + l)"
      using jp i Cons.prems(3) by (rule nth_tr3)
    also have "\<dots> = ?M ! (i * ?N + ((J' * P + p) * m + l))" by (simp add: algebra_simps)
    also have "\<dots> = (\<Sum>a<c. A ! (i * c + a) * X ! (a * ?N + ((J' * P + p) * m + l)))"
      using i t by (rule nth_mm)
    also have "\<dots> = (\<Sum>a<c. A ! (i * c + a) * X ! (((a * ?C + J') * P + p) * m + l))"
      by (simp add: algebra_simps)
    finally show "kron_list fs ! (I' * ?C + J') * ?Y ! ((J' * (P * r) + (p * r + i)) * m + l)
       = kron_list fs ! (I' * ?C + J') * (\<Sum>a<c. A ! (i * c + a) * X ! (((a * ?C + J') * P + p) * m + l))"
      by simp
  qed simp
  also have "\<dots> = (\<Sum>a<c. \<Sum>J'<?C. A ! (i * c + a) * kron_list fs ! (I' * ?C + J')
                        * X ! (((a * ?C + J') * P + p) * m + l))"
    by (subst sum.swap) (simp add: sum_distrib_left mult_ac)
  also have "\<dots> = (\<Sum>a<c. \<Sum>J'<?C. kron_list (f # fs) ! (I * (c * ?C) + (a * ?C + J'))
                        * X ! (((a * ?C + J') * P + p) * m + l))"
  proof (intro sum.cong refl)
    fix a J' assume "a \<in> {..<c}" "J' \<in> {..<?C}"
    then have a: "a < c" and J': "J' < ?C" by simp_all
    have J: "a * ?C + J' < c * ?C" using a J' by (rule flat_index_less)
    have "kron_list (f # fs) ! (I * (c * ?C) + (a * ?C + J'))
          = A ! (i * c + a) * kron_list fs ! (I' * ?C + J')"
      using nth_kron_blk [OF I J, of A "kron_list fs"] J'
      by (simp add: f i_def I'_def flat_div [OF J'] flat_mod [OF J'])
    then show "A ! (i * c + a) * kron_list fs ! (I' * ?C + J') * X ! (((a * ?C + J') * P + p) * m + l)
       = kron_list (f # fs) ! (I * (c * ?C) + (a * ?C + J')) * X ! (((a * ?C + J') * P + p) * m + l)"
      by simp
  qed
  also have "\<dots> = (\<Sum>J<c * ?C. kron_list (f # fs) ! (I * (c * ?C) + J) * X ! ((J * P + p) * m + l))"
    by (rule sum_flat_index [symmetric])
  finally show ?case by (simp add: f)
qed

lemma sweep_eq_mm:
  assumes "length X = cols_of fs * m"
  shows "sweep fs 1 m X = mm (rows_of fs) (cols_of fs) m (kron_list fs) X"
proof (rule nth_equalityI)
  show "length (sweep fs 1 m X) = length (mm (rows_of fs) (cols_of fs) m (kron_list fs) X)"
    using assms by (simp add: length_sweep length_mm)
next
  fix k assume "k < length (sweep fs 1 m X)"
  then have k: "k < rows_of fs * m" using assms by (simp add: length_sweep)
  then have mpos: "0 < m" by (auto intro: Nat.gr0I)
  define I where "I = k div m"
  define l where "l = k mod m"
  have I: "I < rows_of fs" using k mpos by (simp add: I_def less_mult_imp_div_less)
  have l: "l < m" using mpos by (simp add: l_def)
  have keq: "k = I * m + l" by (simp add: I_def l_def)
  have "sweep fs 1 m X ! ((0 * rows_of fs + I) * m + l)
         = (\<Sum>J<cols_of fs. kron_list fs ! (I * cols_of fs + J) * X ! ((J * 1 + 0) * m + l))"
    using I _ l by (rule nth_sweep) simp
  then show "sweep fs 1 m X ! k = mm (rows_of fs) (cols_of fs) m (kron_list fs) X ! k"
    by (simp add: keq nth_mm [OF I l])
qed

section \<open>Matrix multiplication with the composite\<close>

lemma take_append2: "take (length (bs @ [a, b]) - 2) (bs @ [a, b]) = bs"
  by simp

lemma nth_append2:
  "(bs @ [a, b]) ! (length (bs @ [a, b]) - 2) = a"
  "(bs @ [a, b]) ! (length (bs @ [a, b]) - 1) = b"
  by (simp_all add: nth_append)

lemma take_append3: "take (length (bs @ [a, b, c]) - 3) (bs @ [a, b, c]) = bs"
  by simp

lemma nth_append3:
  "(bs @ [a, b, c]) ! (length (bs @ [a, b, c]) - 3) = a"
  "(bs @ [a, b, c]) ! (length (bs @ [a, b, c]) - 2) = b"
  "(bs @ [a, b, c]) ! (length (bs @ [a, b, c]) - 1) = c"
  by (simp_all add: nth_append)

lemma infer_size_infer:
  assumes "0 < prod_list pre * prod_list post"
    and "numel = prod_list pre * q * prod_list post"
  shows "infer_size (map int pre @ [- 1] @ map int post) numel = Inr (pre @ [q] @ post)"
proof -
  let ?dims = "map int pre @ [- 1] @ map int post"
  have f1: "filter (\<lambda>d. d = - 1) (map int xs) = []" for xs by (induction xs) simp_all
  have f2: "filter (\<lambda>d. d \<noteq> - 1) (map int xs) = map int xs" for xs by (induction xs) simp_all
  have f3: "\<not> list_ex (\<lambda>d. d < - 1) (map int xs)" for xs by (induction xs) simp_all
  have a: "\<not> list_ex (\<lambda>d. d < - 1) ?dims" using f3 by (simp add: list_ex_append)
  have b: "length (filter (\<lambda>d. d = - 1) ?dims) = 1" by (simp add: f1)
  have c: "prod_list (map nat (filter (\<lambda>d. d \<noteq> - 1) ?dims)) = prod_list pre * prod_list post"
    by (simp add: f2 comp_def)
  have d: "list_ex (\<lambda>d. d = - 1) ?dims" by (simp add: list_ex_append)
  have e: "numel mod (prod_list pre * prod_list post) = 0"
    by (simp add: assms(2) mult_ac)
  have g: "numel div (prod_list pre * prod_list post) = q"
  proof -
    have "numel = q * (prod_list pre * prod_list post)" by (simp add: assms(2) mult_ac)
    then show ?thesis using assms(1) by simp
  qed
  have h: "map (\<lambda>d. if d = - 1 then q else nat d) ?dims = pre @ [q] @ post"
    by (simp add: comp_def)
  show ?thesis
    unfolding infer_size_def Let_def using a b assms(1) e
    by (simp only: c d g h) simp
qed

lemma view_infer:
  assumes "0 < prod_list pre * prod_list post"
    and "prod_list sh = prod_list pre * q * prod_list post"
  shows "view \<lparr>shape = sh, data = d\<rparr> (map int pre @ [- 1] @ map int post)
         = Inr \<lparr>shape = pre @ [q] @ post, data = d\<rparr>"
  using infer_size_infer [OF assms(1), of "prod_list sh" q] assms(2) by (simp add: view_def)

lemma mul_broadcast_rev_self: "mul_broadcast_rev xs xs = Inr xs"
  by (induction xs) simp_all

lemma mul_broadcast_rev_idem:
  "mul_broadcast_rev xs ys = Inr zs \<Longrightarrow> mul_broadcast_rev xs zs = Inr zs"
proof (induction xs ys arbitrary: zs rule: mul_broadcast_rev.induct)
  case (1 ys)
  then show ?case by simp
next
  case (2 x xs)
  then show ?case by (auto simp: mul_broadcast_rev_self)
next
  case (3 x xs y ys)
  then show ?case by (auto split: if_splits sum.splits)
qed

lemma mul_broadcast_shape_idem:
  assumes "mul_broadcast_shape a b = Inr c"
  shows "mul_broadcast_shape a c = Inr c"
proof -
  from assms obtain zs where z: "mul_broadcast_rev (rev a) (rev b) = Inr zs" and c: "c = rev zs"
    by (auto simp: mul_broadcast_shape_def split: sum.splits)
  from z have "mul_broadcast_rev (rev a) zs = Inr zs" by (rule mul_broadcast_rev_idem)
  then show ?thesis by (simp add: mul_broadcast_shape_def c)
qed

lemma expandable_rev_self: "expandable_rev xs xs"
  by (induction xs) simp_all

lemma expandable_rev_Nil: "expandable_rev [] xs"
  by (cases xs) simp_all

lemma mul_broadcast_rev_expandable:
  "mul_broadcast_rev xs ys = Inr zs \<Longrightarrow> expandable_rev xs zs \<and> expandable_rev ys zs"
proof (induction xs ys arbitrary: zs rule: mul_broadcast_rev.induct)
  case (1 ys)
  then show ?case by (auto simp: expandable_rev_self expandable_rev_Nil)
next
  case (2 x xs)
  then show ?case by (auto simp: expandable_rev_self expandable_rev_Nil)
next
  case (3 x xs y ys)
  then show ?case by (auto split: if_splits sum.splits)
qed

lemma mul_broadcast_shape_expandable:
  assumes "mul_broadcast_shape a b = Inr c"
  shows "expandable_rev (rev a) (rev c)" and "expandable_rev (rev b) (rev c)"
proof -
  from assms obtain zs where z: "mul_broadcast_rev (rev a) (rev b) = Inr zs" and c: "c = rev zs"
    by (auto simp: mul_broadcast_shape_def split: sum.splits)
  from mul_broadcast_rev_expandable [OF z]
  show "expandable_rev (rev a) (rev c)" and "expandable_rev (rev b) (rev c)" by (simp_all add: c)
qed

lemma bidx_rev_self: "k < prod_list ns \<Longrightarrow> bidx_rev ns ns k = k"
proof (induction ns arbitrary: k)
  case Nil
  then show ?case by simp
next
  case (Cons n ns)
  have npos: "0 < n" using Cons.prems by (auto intro: Nat.gr0I)
  have "k div n < prod_list ns" using Cons.prems npos by (simp add: less_mult_imp_div_less mult.commute)
  then have "bidx_rev ns ns (k div n) = k div n" by (rule Cons.IH)
  then show ?case by simp
qed

lemma bidx_self: "k < prod_list ns \<Longrightarrow> bidx ns ns k = k"
  by (simp add: bidx_def bidx_rev_self)

lemma bidx_rev_less:
  "expandable_rev ds ns \<Longrightarrow> \<forall>n \<in> set ns. 0 < n \<Longrightarrow> bidx_rev ns ds k < prod_list ds"
proof (induction ds ns arbitrary: k rule: expandable_rev.induct)
  case (4 d ds n ns)
  have r: "bidx_rev ns ds (k div n) < prod_list ds" using 4 by simp
  show ?case
  proof (cases "d = 1")
    case True
    then show ?thesis using r by simp
  next
    case False
    then have dn: "d = n" and npos: "0 < n" using 4 by auto
    have "k mod n + n * bidx_rev ns ds (k div n) < n + n * bidx_rev ns ds (k div n)"
      using npos by simp
    also have "\<dots> = n * Suc (bidx_rev ns ds (k div n))" by simp
    also have "\<dots> \<le> n * prod_list ds" using r by (intro mult_le_mono2) simp
    finally show ?thesis using False dn by simp
  qed
qed simp_all

lemma bidx_less:
  "expandable_rev (rev inp) (rev out) \<Longrightarrow> \<forall>n \<in> set out. 0 < n \<Longrightarrow> bidx out inp k < prod_list inp"
  using bidx_rev_less [of "rev inp" "rev out" k] by (simp add: bidx_def)

lemma concat_map_upt_cong:
  "(\<And>b. b < B \<Longrightarrow> f b = g b) \<Longrightarrow> concat (map f [0..<B]) = concat (map g [0..<B])"
  by (rule arg_cong [where f = concat]) simp

lemma matmul_blocks:
  assumes "mul_broadcast_shape kb ob = Inr ob"
    and "\<forall>b<prod_list ob. length (X b) = c * n"
  shows "matmul \<lparr>shape = kb @ [r, c], data = F\<rparr>
           \<lparr>shape = ob @ [c, n], data = concat (map X [0..<prod_list ob])\<rparr>
         = Inr \<lparr>shape = ob @ [r, n],
                data = concat (map (\<lambda>b. mm r c n (block (r * c) F (bidx ob kb b)) (X b))
                                 [0..<prod_list ob])\<rparr>"
proof -
  have "concat (map (\<lambda>b. mm r c n (block (r * c) F (bidx ob kb b))
             (block (c * n) (concat (map X [0..<prod_list ob])) (bidx ob ob b))) [0..<prod_list ob])
        = concat (map (\<lambda>b. mm r c n (block (r * c) F (bidx ob kb b)) (X b)) [0..<prod_list ob])"
  proof (rule concat_map_upt_cong)
    fix b assume b: "b < prod_list ob"
    have "block (c * n) (concat (map X [0..<prod_list ob])) b = X b"
      using assms(2) b by (rule block_concat_map)
    then show "mm r c n (block (r * c) F (bidx ob kb b))
                 (block (c * n) (concat (map X [0..<prod_list ob])) (bidx ob ob b))
               = mm r c n (block (r * c) F (bidx ob kb b)) (X b)"
      by (simp add: bidx_self [OF b])
  qed
  then show ?thesis
    by (simp add: matmul_def Let_def assms(1) nth_append)
qed

lemma transpose32_blocks:
  assumes "\<forall>b<prod_list ob. length (X b) = p * q * n"
  shows "transpose32 \<lparr>shape = ob @ [p, q, n], data = concat (map X [0..<prod_list ob])\<rparr>
         = Inr \<lparr>shape = ob @ [q, p, n],
                data = concat (map (\<lambda>b. tr3 p q n (X b)) [0..<prod_list ob])\<rparr>"
proof -
  have "concat (map (\<lambda>b. tr3 p q n (block (p * q * n) (concat (map X [0..<prod_list ob])) b))
                  [0..<prod_list ob])
        = concat (map (\<lambda>b. tr3 p q n (X b)) [0..<prod_list ob])"
  proof (rule concat_map_upt_cong)
    fix b assume b: "b < prod_list ob"
    have "block (p * q * n) (concat (map X [0..<prod_list ob])) b = X b"
      using assms b by (rule block_concat_map)
    then show "tr3 p q n (block (p * q * n) (concat (map X [0..<prod_list ob])) b) = tr3 p q n (X b)"
      by simp
  qed
  then show ?thesis
    by (simp add: transpose32_def Let_def nth_append)
qed

lemma view_2:
  assumes "0 < prod_list ob * c" and "prod_list sh = prod_list ob * c * N"
  shows "view \<lparr>shape = sh, data = d\<rparr> (map int ob @ [int c, - 1]) = Inr \<lparr>shape = ob @ [c, N], data = d\<rparr>"
  using view_infer [of "ob @ [c]" "[]" sh N d] assms by simp

lemma view_3:
  assumes "0 < prod_list ob * r * m" and "prod_list sh = prod_list ob * r * Q * m"
  shows "view \<lparr>shape = sh, data = d\<rparr> (map int ob @ [int r, - 1, int m])
         = Inr \<lparr>shape = ob @ [r, Q, m], data = d\<rparr>"
  using view_infer [of "ob @ [r]" "[m]" sh Q d] assms by simp

lemma view_1:
  assumes "0 < prod_list ob * m" and "prod_list sh = prod_list ob * Q * m"
  shows "view \<lparr>shape = sh, data = d\<rparr> (map int ob @ [- 1, int m]) = Inr \<lparr>shape = ob @ [Q, m], data = d\<rparr>"
  using view_infer [of ob "[m]" sh Q d] assms by simp

lemma view_4:
  assumes "0 < prod_list ob * n * Q" and "prod_list sh = prod_list ob * n * Q * m"
  shows "view \<lparr>shape = sh, data = d\<rparr> (map int ob @ [int n, int Q, - 1])
         = Inr \<lparr>shape = ob @ [n, Q, m], data = d\<rparr>"
  using view_infer [of "ob @ [n, Q]" "[]" sh m d] assms by simp

lemma matmul_loop_blocks:
  assumes "\<forall>lt \<in> set lts. 0 < nrows lt \<and> 0 < ncols lt \<and> batch_shape lt = kb"
    and "mul_broadcast_shape kb ob = Inr ob"
    and "0 < prod_list ob" and "0 < m" and "0 < P"
    and "\<forall>b<prod_list ob. length (X b) = prod_list (map ncols lts) * P * m"
  shows "matmul_loop lts ob m
           \<lparr>shape = ob @ [prod_list (map ncols lts) * P, m],
            data = concat (map X [0..<prod_list ob])\<rparr>
         = Inr \<lparr>shape = ob @ [P * prod_list (map nrows lts), m],
                data = concat (map (\<lambda>b. sweep (factor_blocks lts (bidx ob kb b)) P m (X b))
                                 [0..<prod_list ob])\<rparr>"
  using assms(1,5,6)
proof (induction lts arbitrary: P X)
  case Nil
  then show ?case by (simp add: factor_blocks_def)
next
  case (Cons lt lts)
  let ?B = "prod_list ob"
  let ?r = "nrows lt" and ?c = "ncols lt"
  let ?C = "prod_list (map ncols lts)" and ?R = "prod_list (map nrows lts)"
  let ?Q = "?C * P"
  let ?D = "concat (map X [0..<?B])"
  let ?F = "\<lambda>b. block (?r * ?c) (entries lt) (bidx ob kb b)"
  let ?M = "\<lambda>b. mm ?r ?c (?Q * m) (?F b) (X b)"
  let ?Y = "\<lambda>b. tr3 ?r ?Q m (?M b)"
  have pos: "0 < ?r" "0 < ?c" and kb: "batch_shape lt = kb" using Cons.prems(1) by simp_all
  have Cpos: "0 < ?C" using Cons.prems(1) by (simp add: prod_list_pos)
  have lenX: "\<forall>b<?B. length (X b) = ?c * (?Q * m)" using Cons.prems(3) by (simp add: mult_ac)
  have v1: "view \<lparr>shape = ob @ [prod_list (map ncols (lt # lts)) * P, m], data = ?D\<rparr>
              (map int ob @ [int (ncols lt), - 1])
            = Inr \<lparr>shape = ob @ [?c, ?Q * m], data = ?D\<rparr>"
    using assms(3) pos by (intro view_2) (simp_all add: mult_ac)
  have ev: "evaluate lt = \<lparr>shape = kb @ [?r, ?c], data = entries lt\<rparr>"
    by (simp add: evaluate_def kb)
  have m1: "lt_matmul lt \<lparr>shape = ob @ [?c, ?Q * m], data = ?D\<rparr>
            = Inr \<lparr>shape = ob @ [?r, ?Q * m], data = concat (map ?M [0..<?B])\<rparr>"
    unfolding lt_matmul_def ev using assms(2) lenX by (rule matmul_blocks)
  have v3: "view \<lparr>shape = ob @ [?r, ?Q * m], data = concat (map ?M [0..<?B])\<rparr>
              (map int ob @ [int (nrows lt), - 1, int m])
            = Inr \<lparr>shape = ob @ [?r, ?Q, m], data = concat (map ?M [0..<?B])\<rparr>"
    using assms(3,4) pos by (intro view_3) (simp_all add: mult_ac)
  have t4: "transpose32 \<lparr>shape = ob @ [?r, ?Q, m], data = concat (map ?M [0..<?B])\<rparr>
            = Inr \<lparr>shape = ob @ [?Q, ?r, m], data = concat (map ?Y [0..<?B])\<rparr>"
    by (rule transpose32_blocks) (simp add: length_mm mult_ac)
  have v5: "reshape \<lparr>shape = ob @ [?Q, ?r, m], data = concat (map ?Y [0..<?B])\<rparr>
              (map int ob @ [- 1, int m])
            = Inr \<lparr>shape = ob @ [?C * (P * ?r), m], data = concat (map ?Y [0..<?B])\<rparr>"
    unfolding reshape_def using assms(3,4) by (intro view_1) (simp_all add: mult_ac)
  have IH: "matmul_loop lts ob m
              \<lparr>shape = ob @ [?C * (P * ?r), m], data = concat (map ?Y [0..<?B])\<rparr>
            = Inr \<lparr>shape = ob @ [P * ?r * ?R, m],
                   data = concat (map (\<lambda>b. sweep (factor_blocks lts (bidx ob kb b)) (P * ?r) m (?Y b))
                                    [0..<?B])\<rparr>"
    using Cons.prems(1,2) pos by (intro Cons.IH) (simp_all add: length_tr3 mult_ac)
  have sw: "sweep (factor_blocks (lt # lts) (bidx ob kb b)) P m (X b)
            = sweep (factor_blocks lts (bidx ob kb b)) (P * ?r) m (?Y b)" for b
    by (simp add: factor_blocks_def comp_def)
  have sh: "P * prod_list (map nrows (lt # lts)) = P * ?r * ?R" by (simp add: mult_ac)
  show ?case
    unfolding matmul_loop.simps v1 sum.case m1 v3 t4 v5 IH sw sh ..
qed

lemma length_block: "Suc b * sz \<le> length xs \<Longrightarrow> length (block sz xs b) = sz"
  by (simp add: block_def)

lemma length_block_wf:
  assumes "length xs = B * sz" and "b < B"
  shows "length (block sz xs b) = sz"
proof -
  have "Suc b * sz \<le> B * sz" using assms(2) by (intro mult_le_mono1) simp
  then show ?thesis using assms(1) by (simp add: length_block)
qed

lemma mul_broadcast_rev_set:
  "mul_broadcast_rev xs ys = Inr zs \<Longrightarrow> set zs \<subseteq> set xs \<union> set ys"
proof (induction xs ys arbitrary: zs rule: mul_broadcast_rev.induct)
  case (3 x xs y ys)
  then show ?case by (fastforce split: if_splits sum.splits)
qed auto

lemma mul_broadcast_shape_pos:
  assumes "mul_broadcast_shape a b = Inr c" and "\<forall>n \<in> set a. 0 < n" and "\<forall>n \<in> set b. 0 < n"
  shows "\<forall>n \<in> set c. 0 < n"
proof -
  from assms(1) obtain zs where z: "mul_broadcast_rev (rev a) (rev b) = Inr zs" and c: "c = rev zs"
    by (auto simp: mul_broadcast_shape_def split: sum.splits)
  from mul_broadcast_rev_set [OF z] have "set c \<subseteq> set a \<union> set b" by (simp add: c)
  then show ?thesis using assms(2,3) by blast
qed

lemma prod_list_pos_all: "\<forall>n \<in> set ns. 0 < n \<Longrightarrow> 0 < prod_list (ns :: nat list)"
  by (induction ns) simp_all

lemma matmul_broadcast_shape_append:
  assumes "mul_broadcast_shape kb rb = Inr ob"
  shows "matmul_broadcast_shape (kb @ [R, C]) (rb @ [C, m]) = Inr (ob @ [R, m])"
  using assms by (simp add: matmul_broadcast_shape_def Let_def nth_append)

lemma expand_batch_blocks:
  assumes "shape rhs = rb @ [C, m]" and "expandable_rev (rev rb) (rev ob)"
  shows "expand_batch rhs ob
         = Inr \<lparr>shape = ob @ [C, m],
                data = concat (map (\<lambda>b. block (C * m) (data rhs) (bidx ob rb b)) [0..<prod_list ob])\<rparr>"
  using assms by (simp add: expand_batch_def Let_def nth_append)

lemma matmul_fn_blocks:
  assumes "\<forall>lt \<in> set lts. 0 < nrows lt \<and> 0 < ncols lt \<and> batch_shape lt = kb"
    and "shape rhs = rb @ [prod_list (map ncols lts), m]" and "wf_tensor rhs"
    and "mul_broadcast_shape kb rb = Inr ob" and "\<forall>n \<in> set ob. 0 < n" and "0 < m"
  shows "matmul_fn lts (kb @ [prod_list (map nrows lts), prod_list (map ncols lts)]) rhs
         = Inr \<lparr>shape = ob @ [prod_list (map nrows lts), m],
                data = concat (map (\<lambda>b. mm (prod_list (map nrows lts)) (prod_list (map ncols lts)) m
                                          (kron_list (factor_blocks lts (bidx ob kb b)))
                                          (block (prod_list (map ncols lts) * m) (data rhs) (bidx ob rb b)))
                                 [0..<prod_list ob])\<rparr>"
proof -
  let ?R = "prod_list (map nrows lts)" and ?C = "prod_list (map ncols lts)"
  let ?B = "prod_list ob"
  let ?X = "\<lambda>b. block (?C * m) (data rhs) (bidx ob rb b)"
  have Bpos: "0 < ?B" using assms(5) by (rule prod_list_pos_all)
  have ex: "expandable_rev (rev kb) (rev ob)" "expandable_rev (rev rb) (rev ob)"
    using mul_broadcast_shape_expandable [OF assms(4)] by simp_all
  have idem: "mul_broadcast_shape kb ob = Inr ob" using assms(4) by (rule mul_broadcast_shape_idem)
  have len: "length (data rhs) = prod_list rb * (?C * m)"
    using assms(2,3) by (simp add: wf_tensor_def)
  have lenX: "\<forall>b<?B. length (?X b) = ?C * 1 * m"
  proof (intro allI impI)
    fix b
    have "bidx ob rb b < prod_list rb" using ex(2) assms(5) by (rule bidx_less)
    with len have "length (?X b) = ?C * m" by (rule length_block_wf)
    then show "length (?X b) = ?C * 1 * m" by simp
  qed
  have mbs: "matmul_broadcast_shape (kb @ [?R, ?C]) (shape rhs) = Inr (ob @ [?R, m])"
    unfolding assms(2) using assms(4) by (rule matmul_broadcast_shape_append)
  have eb: "expand_batch rhs ob = Inr \<lparr>shape = ob @ [?C, m], data = concat (map ?X [0..<?B])\<rparr>"
    using assms(2) ex(2) by (rule expand_batch_blocks)
  have sn: "shape_neg (shape rhs) 1 = Inr m" by (simp add: assms(2) shape_neg_append2)
  have "matmul_loop lts ob m \<lparr>shape = ob @ [?C * 1, m], data = concat (map ?X [0..<?B])\<rparr>
        = Inr \<lparr>shape = ob @ [1 * ?R, m],
               data = concat (map (\<lambda>b. sweep (factor_blocks lts (bidx ob kb b)) 1 m (?X b)) [0..<?B])\<rparr>"
    using assms(1) idem Bpos assms(6) _ lenX by (rule matmul_loop_blocks) simp
  moreover have "concat (map (\<lambda>b. sweep (factor_blocks lts (bidx ob kb b)) 1 m (?X b)) [0..<?B])
        = concat (map (\<lambda>b. mm ?R ?C m (kron_list (factor_blocks lts (bidx ob kb b))) (?X b)) [0..<?B])"
  proof (rule concat_map_upt_cong)
    fix b assume "b < ?B"
    then have "length (?X b) = cols_of (factor_blocks lts (bidx ob kb b)) * m"
      using lenX by (simp add: cols_of_factor_blocks)
    then have "sweep (factor_blocks lts (bidx ob kb b)) 1 m (?X b)
          = mm (rows_of (factor_blocks lts (bidx ob kb b))) (cols_of (factor_blocks lts (bidx ob kb b))) m
               (kron_list (factor_blocks lts (bidx ob kb b))) (?X b)"
      by (rule sweep_eq_mm)
    then show "sweep (factor_blocks lts (bidx ob kb b)) 1 m (?X b)
          = mm ?R ?C m (kron_list (factor_blocks lts (bidx ob kb b))) (?X b)"
      by (simp add: rows_of_factor_blocks cols_of_factor_blocks)
  qed
  ultimately have loop: "matmul_loop lts ob m \<lparr>shape = ob @ [?C, m], data = concat (map ?X [0..<?B])\<rparr>
        = Inr \<lparr>shape = ob @ [?R, m],
               data = concat (map (\<lambda>b. mm ?R ?C m (kron_list (factor_blocks lts (bidx ob kb b))) (?X b))
                                [0..<?B])\<rparr>"
    by simp
  show ?thesis
    unfolding matmul_fn_def mbs sum.case Let_def take_append2 eb sn loop ..
qed

lemma block_dense_kron:
  assumes "b < prod_list (batch_shape (hd lts))"
  shows "block (prod_list (map nrows lts) * prod_list (map ncols lts)) (entries (dense_kron lts)) b
         = kron_list (factor_blocks lts b)"
proof -
  have "block (prod_list (map nrows lts) * prod_list (map ncols lts))
          (concat (map (\<lambda>b. kron_list (factor_blocks lts b)) [0..<prod_list (batch_shape (hd lts))])) b
        = kron_list (factor_blocks lts b)"
  proof (rule block_concat_map)
    show "\<forall>b<prod_list (batch_shape (hd lts)). length (kron_list (factor_blocks lts b))
            = prod_list (map nrows lts) * prod_list (map ncols lts)"
      by (simp add: length_kron_list rows_of_factor_blocks cols_of_factor_blocks)
  qed (rule assms)
  then show ?thesis by (simp add: dense_kron_def)
qed

lemma matmul_dense_kron_blocks:
  assumes "lts \<noteq> []" and "batch_shape (hd lts) = kb"
    and "shape rhs = rb @ [prod_list (map ncols lts), m]"
    and "mul_broadcast_shape kb rb = Inr ob" and "\<forall>n \<in> set ob. 0 < n"
  shows "matmul (evaluate (dense_kron lts)) rhs
         = Inr \<lparr>shape = ob @ [prod_list (map nrows lts), m],
                data = concat (map (\<lambda>b. mm (prod_list (map nrows lts)) (prod_list (map ncols lts)) m
                                          (kron_list (factor_blocks lts (bidx ob kb b)))
                                          (block (prod_list (map ncols lts) * m) (data rhs) (bidx ob rb b)))
                                 [0..<prod_list ob])\<rparr>"
proof -
  let ?R = "prod_list (map nrows lts)" and ?C = "prod_list (map ncols lts)"
  have ex: "expandable_rev (rev kb) (rev ob)"
    using mul_broadcast_shape_expandable [OF assms(4)] by simp
  have ev: "evaluate (dense_kron lts) = \<lparr>shape = kb @ [?R, ?C], data = entries (dense_kron lts)\<rparr>"
    by (simp add: evaluate_def dense_kron_def assms(2))
  have "concat (map (\<lambda>b. mm ?R ?C m (block (?R * ?C) (entries (dense_kron lts)) (bidx ob kb b))
                           (block (?C * m) (data rhs) (bidx ob rb b))) [0..<prod_list ob])
        = concat (map (\<lambda>b. mm ?R ?C m (kron_list (factor_blocks lts (bidx ob kb b)))
                           (block (?C * m) (data rhs) (bidx ob rb b))) [0..<prod_list ob])"
  proof (rule concat_map_upt_cong)
    fix b
    have "bidx ob kb b < prod_list kb" using ex assms(5) by (rule bidx_less)
    then have "block (?R * ?C) (entries (dense_kron lts)) (bidx ob kb b)
               = kron_list (factor_blocks lts (bidx ob kb b))"
      by (intro block_dense_kron) (simp add: assms(2))
    then show "mm ?R ?C m (block (?R * ?C) (entries (dense_kron lts)) (bidx ob kb b))
                           (block (?C * m) (data rhs) (bidx ob rb b))
        = mm ?R ?C m (kron_list (factor_blocks lts (bidx ob kb b)))
                           (block (?C * m) (data rhs) (bidx ob rb b))" by simp
  qed
  then show ?thesis
    by (simp add: matmul_def ev assms(3,4) Let_def nth_append)
qed

lemma size_kp_eq:
  assumes "lazy_tensors k = lts" and "lts \<noteq> []" and "batch_shape (hd lts) = kb"
  shows "size_kp k = Inr (kb @ [prod_list (map nrows lts), prod_list (map ncols lts)])"
proof -
  obtain lt0 lts0 where "lts = lt0 # lts0" using assms(2) by (cases lts) auto
  then show ?thesis using assms(1,3) by (simp add: size_kp_def prod_reduce_eq)
qed

lemma mul_broadcast_shape_Nil: "mul_broadcast_shape kb [] = Inr kb"
proof -
  have "mul_broadcast_rev xs [] = Inr xs" for xs :: "nat list" by (cases xs) simp_all
  then show ?thesis by (simp add: mul_broadcast_shape_def)
qed

lemma bidx_Nil: "bidx ob [] b = 0"
  by (simp add: bidx_def)

lemma mm_one_column:
  "mm r c 1 A v = map (\<lambda>i. sum_list (map (\<lambda>a. A ! (i * c + a) * v ! a) [0..<c])) [0..<r]"
  by (simp add: mm_def)

lemma KP_matmul_matrix:
  assumes "lazy_tensors k = lts" and "lts \<noteq> []"
    and "\<forall>lt \<in> set lts. 0 < nrows lt \<and> 0 < ncols lt \<and> batch_shape lt = kb"
    and "shape rhs = rb @ [prod_list (map ncols lts), m]" and "wf_tensor rhs"
    and "mul_broadcast_shape kb rb = Inr ob" and "\<forall>n \<in> set ob. 0 < n" and "0 < m"
  shows "KP_matmul k rhs
         = Inr \<lparr>shape = ob @ [prod_list (map nrows lts), m],
                data = concat (map (\<lambda>b. mm (prod_list (map nrows lts)) (prod_list (map ncols lts)) m
                                          (kron_list (factor_blocks lts (bidx ob kb b)))
                                          (block (prod_list (map ncols lts) * m) (data rhs) (bidx ob rb b)))
                                 [0..<prod_list ob])\<rparr>"
proof -
  have hd: "batch_shape (hd lts) = kb" using assms(2,3) by (cases lts) auto
  have sz: "size_kp k = Inr (kb @ [prod_list (map nrows lts), prod_list (map ncols lts)])"
    using assms(1,2) hd by (rule size_kp_eq)
  have nv: "length (shape rhs) \<noteq> Suc 0" by (simp add: assms(4))
  have fn: "matmul_fn (lazy_tensors k) (kb @ [prod_list (map nrows lts), prod_list (map ncols lts)]) rhs
         = Inr \<lparr>shape = ob @ [prod_list (map nrows lts), m],
                data = concat (map (\<lambda>b. mm (prod_list (map nrows lts)) (prod_list (map ncols lts)) m
                                          (kron_list (factor_blocks lts (bidx ob kb b)))
                                          (block (prod_list (map ncols lts) * m) (data rhs) (bidx ob rb b)))
                                 [0..<prod_list ob])\<rparr>"
    unfolding assms(1) using assms(3-8) by (rule matmul_fn_blocks)
  show ?thesis by (simp add: KP_matmul_def Let_def nv sz fn)
qed

lemma KP_matmul_vector:
  assumes "lazy_tensors k = lts" and "lts \<noteq> []"
    and "\<forall>lt \<in> set lts. 0 < nrows lt \<and> 0 < ncols lt \<and> batch_shape lt = kb"
    and "shape rhs = [prod_list (map ncols lts)]" and "wf_tensor rhs"
    and "\<forall>n \<in> set kb. 0 < n"
  shows "KP_matmul k rhs = matvec (evaluate (dense_kron lts)) rhs"
    and "KP_matmul k rhs
         = Inr \<lparr>shape = kb @ [prod_list (map nrows lts)],
                data = concat (map (\<lambda>b. mm (prod_list (map nrows lts)) (prod_list (map ncols lts)) 1
                                          (kron_list (factor_blocks lts b)) (data rhs))
                                 [0..<prod_list kb])\<rparr>"
proof -
  let ?R = "prod_list (map nrows lts)" and ?C = "prod_list (map ncols lts)"
  have hd: "batch_shape (hd lts) = kb" using assms(2,3) by (cases lts) auto
  have sz: "size_kp k = Inr (kb @ [?R, ?C])" using assms(1,2) hd by (rule size_kp_eq)
  have len: "length (data rhs) = ?C" using assms(4,5) by (simp add: wf_tensor_def)
  have u: "shape (unsqueeze_last rhs) = [] @ [?C, 1]" "wf_tensor (unsqueeze_last rhs)"
    "data (unsqueeze_last rhs) = data rhs"
    using assms(4,5) by (simp_all add: unsqueeze_last_def wf_tensor_def)
  have fn: "matmul_fn lts (kb @ [?R, ?C]) (unsqueeze_last rhs)
         = Inr \<lparr>shape = kb @ [?R, 1],
                data = concat (map (\<lambda>b. mm ?R ?C 1 (kron_list (factor_blocks lts (bidx kb kb b)))
                                          (block (?C * 1) (data (unsqueeze_last rhs)) (bidx kb [] b)))
                                 [0..<prod_list kb])\<rparr>"
    using assms(3) u(1,2) mul_broadcast_shape_Nil assms(6) by (rule matmul_fn_blocks) simp
  have blk: "block (?C * 1) (data (unsqueeze_last rhs)) (bidx kb [] b) = data rhs" for b
    by (simp add: u(3) bidx_Nil block_def len)
  have d: "concat (map (\<lambda>b. mm ?R ?C 1 (kron_list (factor_blocks lts (bidx kb kb b)))
                              (block (?C * 1) (data (unsqueeze_last rhs)) (bidx kb [] b))) [0..<prod_list kb])
           = concat (map (\<lambda>b. mm ?R ?C 1 (kron_list (factor_blocks lts b)) (data rhs)) [0..<prod_list kb])"
    by (rule concat_map_upt_cong) (simp add: bidx_self u(3) bidx_Nil block_def len)
  show r: "KP_matmul k rhs
         = Inr \<lparr>shape = kb @ [?R], data = concat (map (\<lambda>b. mm ?R ?C 1
                       (kron_list (factor_blocks lts b)) (data rhs)) [0..<prod_list kb])\<rparr>"
  proof -
    note fn' = fn [unfolded d]
    have sq: "squeeze_last \<lparr>shape = kb @ [?R, 1], data = D\<rparr> = \<lparr>shape = kb @ [?R], data = D\<rparr>"
      for D :: "'a list"
      by (simp add: squeeze_last_def butlast_append)
    have "KP_matmul k rhs = Inr (squeeze_last \<lparr>shape = kb @ [?R, 1],
             data = concat (map (\<lambda>b. mm ?R ?C 1 (kron_list (factor_blocks lts b)) (data rhs))
                              [0..<prod_list kb])\<rparr>)"
      by (simp add: KP_matmul_def Let_def assms(1,4) sz fn')
    then show ?thesis by (simp only: sq)
  qed
  have ev: "evaluate (dense_kron lts) = \<lparr>shape = kb @ [?R, ?C], data = entries (dense_kron lts)\<rparr>"
    by (simp add: evaluate_def dense_kron_def hd)
  have d2: "concat (map (\<lambda>b. map (\<lambda>i. sum_list (map (\<lambda>a. block (?R * ?C) (entries (dense_kron lts)) b
                 ! (i * ?C + a) * data rhs ! a) [0..<?C])) [0..<?R]) [0..<prod_list kb])
        = concat (map (\<lambda>b. mm ?R ?C 1 (kron_list (factor_blocks lts b)) (data rhs)) [0..<prod_list kb])"
  proof (rule concat_map_upt_cong)
    fix b assume "b < prod_list kb"
    then have e: "block (?R * ?C) (entries (dense_kron lts)) b = kron_list (factor_blocks lts b)"
      by (intro block_dense_kron) (simp add: hd)
    show "map (\<lambda>i. sum_list (map (\<lambda>a. block (?R * ?C) (entries (dense_kron lts)) b
                 ! (i * ?C + a) * data rhs ! a) [0..<?C])) [0..<?R]
         = mm ?R ?C 1 (kron_list (factor_blocks lts b)) (data rhs)"
      unfolding e mm_one_column ..
  qed
  have "matvec (evaluate (dense_kron lts)) rhs
        = Inr \<lparr>shape = kb @ [?R], data = concat (map (\<lambda>b. mm ?R ?C 1
                       (kron_list (factor_blocks lts b)) (data rhs)) [0..<prod_list kb])\<rparr>"
    by (simp add: matvec_def ev assms(4) Let_def nth_append d2)
  with r show "KP_matmul k rhs = matvec (evaluate (dense_kron lts)) rhs" by simp
qed

text \<open>
  C1. Take a composite with at least one factor, all factors with the same batch shape,
  and let every extent (of the factors, of the batch shapes and of the right-hand side) be
  positive. For a right-hand side of shape \<open>(..., cols, m)\<close> whose batch shape broadcasts
  with that of the composite, \<open>_matmul\<close> returns the tensor of shape \<open>(..., rows, m)\<close>
  that the dense Kronecker product of the factors gives with \<open>@\<close>. For a 1-D vector of
  length \<open>cols\<close> it returns the matrix-vector product with the dense Kronecker product,
  of shape \<open>(..., rows)\<close>. The method never builds the dense product: it only applies
  the factors, one after the other.
\<close>

theorem KP_matmul_dense_kron:
  assumes "lazy_tensors k = lts" and "lts \<noteq> []"
    and "\<forall>lt \<in> set lts. 0 < nrows lt \<and> 0 < ncols lt \<and> batch_shape lt = kb"
    and "\<forall>n \<in> set kb. 0 < n" and "wf_tensor rhs"
  shows "(shape rhs = rb @ [prod_list (map ncols lts), m] \<and> 0 < m \<and> (\<forall>n \<in> set rb. 0 < n)
            \<and> mul_broadcast_shape kb rb = Inr ob
          \<longrightarrow> KP_matmul k rhs = matmul (evaluate (dense_kron lts)) rhs
              \<and> map_sum id shape (KP_matmul k rhs) = Inr (ob @ [prod_list (map nrows lts), m]))
       \<and> (shape rhs = [prod_list (map ncols lts)]
          \<longrightarrow> KP_matmul k rhs = matvec (evaluate (dense_kron lts)) rhs
              \<and> map_sum id shape (KP_matmul k rhs) = Inr (kb @ [prod_list (map nrows lts)]))"
proof (intro conjI impI)
  assume h: "shape rhs = rb @ [prod_list (map ncols lts), m] \<and> 0 < m \<and> (\<forall>n \<in> set rb. 0 < n)
            \<and> mul_broadcast_shape kb rb = Inr ob"
  then have ob: "\<forall>n \<in> set ob. 0 < n" using assms(4) mul_broadcast_shape_pos by blast
  have hd: "batch_shape (hd lts) = kb" using assms(2,3) by (cases lts) auto
  have a: "KP_matmul k rhs
         = Inr \<lparr>shape = ob @ [prod_list (map nrows lts), m],
                data = concat (map (\<lambda>b. mm (prod_list (map nrows lts)) (prod_list (map ncols lts)) m
                                          (kron_list (factor_blocks lts (bidx ob kb b)))
                                          (block (prod_list (map ncols lts) * m) (data rhs) (bidx ob rb b)))
                                 [0..<prod_list ob])\<rparr>"
    using assms(1,2,3) h assms(5) ob by (intro KP_matmul_matrix) simp_all
  have b: "matmul (evaluate (dense_kron lts)) rhs
         = Inr \<lparr>shape = ob @ [prod_list (map nrows lts), m],
                data = concat (map (\<lambda>b. mm (prod_list (map nrows lts)) (prod_list (map ncols lts)) m
                                          (kron_list (factor_blocks lts (bidx ob kb b)))
                                          (block (prod_list (map ncols lts) * m) (data rhs) (bidx ob rb b)))
                                 [0..<prod_list ob])\<rparr>"
    using assms(2) hd h ob by (intro matmul_dense_kron_blocks) simp_all
  show "KP_matmul k rhs = matmul (evaluate (dense_kron lts)) rhs" by (simp only: a b)
  show "map_sum id shape (KP_matmul k rhs) = Inr (ob @ [prod_list (map nrows lts), m])"
    by (simp add: a)
next
  assume h: "shape rhs = [prod_list (map ncols lts)]"
  show "KP_matmul k rhs = matvec (evaluate (dense_kron lts)) rhs"
    using assms(1,2,3) h assms(5,4) by (rule KP_matmul_vector(1))
  show "map_sum id shape (KP_matmul k rhs) = Inr (kb @ [prod_list (map nrows lts)])"
    using KP_matmul_vector(2) [OF assms(1,2,3) h assms(5,4)] by simp
qed

theorem KP_matmul_dense_kron_witness:
  "KP_matmul (KP [ex_A, ex_B]) \<lparr>shape = [6], data = [1, 2, 3, 4, 5, 6]\<rparr>
     = Inr \<lparr>shape = [6], data = [39, 27, 60, 85, 59, 128]\<rparr>
   \<and> KP_matmul (KP [ex_P, ex_Q]) \<lparr>shape = [3, 1, 2, 2], data = [1, 2, 3, 4, 5, 6, 7, 8, 9, 10, 11, 12]\<rparr>
     = Inr \<lparr>shape = [3, 2, 2, 2],
            data = [35, 50, 42, 60, 105, 154, 120, 176, 95, 110, 114, 132, 301, 350,
                    344, 400, 155, 170, 186, 204, 497, 546, 568, 624]\<rparr>"
proof -
  have a1: "lazy_tensors (KP [ex_A, ex_B]) = [ex_A, ex_B]" and a2: "[ex_A, ex_B] \<noteq> []" by simp_all
  have a3: "\<forall>lt \<in> set [ex_A, ex_B]. 0 < nrows lt \<and> 0 < ncols lt \<and> batch_shape lt = []"
    by (simp add: ex_A_def ex_B_def)
  have a4: "\<forall>n \<in> set ([] :: nat list). 0 < n" by simp
  have a5: "wf_tensor \<lparr>shape = [6], data = [1, 2, 3, 4, 5, 6 :: int]\<rparr>" by (simp add: wf_tensor_def)
  have a6: "shape \<lparr>shape = [6], data = [1, 2, 3, 4, 5, 6 :: int]\<rparr> = [prod_list (map ncols [ex_A, ex_B])]"
    by (simp add: ex_A_def ex_B_def)
  have v: "matvec (evaluate (dense_kron [ex_A, ex_B])) \<lparr>shape = [6], data = [1, 2, 3, 4, 5, 6]\<rparr>
           = Inr \<lparr>shape = [6], data = [39, 27, 60, 85, 59, 128]\<rparr>"
    by code_simp
  have b1: "lazy_tensors (KP [ex_P, ex_Q]) = [ex_P, ex_Q]" and b2: "[ex_P, ex_Q] \<noteq> []" by simp_all
  have b3: "\<forall>lt \<in> set [ex_P, ex_Q]. 0 < nrows lt \<and> 0 < ncols lt \<and> batch_shape lt = [2]"
    by (simp add: ex_P_def ex_Q_def)
  have b4: "\<forall>n \<in> set [2 :: nat]. 0 < n" by simp
  have b5: "wf_tensor \<lparr>shape = [3, 1, 2, 2], data = [1, 2, 3, 4, 5, 6, 7, 8, 9, 10, 11, 12 :: int]\<rparr>"
    by (simp add: wf_tensor_def)
  have b6: "shape \<lparr>shape = [3, 1, 2, 2], data = [1, 2, 3, 4, 5, 6, 7, 8, 9, 10, 11, 12 :: int]\<rparr>
              = [3, 1] @ [prod_list (map ncols [ex_P, ex_Q]), 2]
            \<and> 0 < (2 :: nat) \<and> (\<forall>n \<in> set [3, 1 :: nat]. 0 < n)
            \<and> mul_broadcast_shape [2] [3, 1] = Inr [3, 2]"
    by (simp add: ex_P_def ex_Q_def mul_broadcast_shape_def)
  have w: "matmul (evaluate (dense_kron [ex_P, ex_Q]))
             \<lparr>shape = [3, 1, 2, 2], data = [1, 2, 3, 4, 5, 6, 7, 8, 9, 10, 11, 12]\<rparr>
           = Inr \<lparr>shape = [3, 2, 2, 2],
            data = [35, 50, 42, 60, 105, 154, 120, 176, 95, 110, 114, 132, 301, 350,
                    344, 400, 155, 170, 186, 204, 497, 546, 568, 624]\<rparr>"
    by code_simp
  from KP_matmul_dense_kron [OF a1 a2 a3 a4 a5] a6
  have "KP_matmul (KP [ex_A, ex_B]) \<lparr>shape = [6], data = [1, 2, 3, 4, 5, 6]\<rparr>
        = matvec (evaluate (dense_kron [ex_A, ex_B])) \<lparr>shape = [6], data = [1, 2, 3, 4, 5, 6]\<rparr>"
    by blast
  moreover from KP_matmul_dense_kron [OF b1 b2 b3 b4 b5] b6
  have "KP_matmul (KP [ex_P, ex_Q]) \<lparr>shape = [3, 1, 2, 2], data = [1, 2, 3, 4, 5, 6, 7, 8, 9, 10, 11, 12]\<rparr>
        = matmul (evaluate (dense_kron [ex_P, ex_Q]))
            \<lparr>shape = [3, 1, 2, 2], data = [1, 2, 3, 4, 5, 6, 7, 8, 9, 10, 11, 12]\<rparr>"
    by blast
  ultimately show ?thesis by (simp only: v w)
qed

section \<open>Algebra of the Kronecker product\<close>

lemma split_index:
  assumes "k < r * (n::nat)"
  shows "k div n < r" and "k mod n < n" and "k = (k div n) * n + k mod n"
proof -
  have npos: "0 < n" using assms by (auto intro: Nat.gr0I)
  show "k div n < r" using assms npos by (simp add: less_mult_imp_div_less)
  show "k mod n < n" using npos by simp
  show "k = (k div n) * n + k mod n" by simp
qed

lemma list_eq_flat:
  assumes "length xs = r * n" and "length ys = r * n"
    and "\<And>i l. i < r \<Longrightarrow> l < n \<Longrightarrow> xs ! (i * n + l) = ys ! (i * n + l)"
  shows "xs = ys"
proof (rule nth_equalityI)
  show "length xs = length ys" using assms(1,2) by simp
next
  fix k assume "k < length xs"
  then have k: "k < r * n" using assms(1) by simp
  from split_index [OF k] assms(3) [of "k div n" "k mod n"]
  show "xs ! k = ys ! k" by simp
qed

lemma mm_assoc:
  "mm r c n A (mm c d n B X) = mm r d n (mm r c d A B) X"
proof (rule list_eq_flat [where r = r and n = n])
  show "length (mm r c n A (mm c d n B X)) = r * n" by (simp add: length_mm)
  show "length (mm r d n (mm r c d A B) X) = r * n" by (simp add: length_mm)
next
  fix i l assume i: "i < r" and l: "l < n"
  have "mm r c n A (mm c d n B X) ! (i * n + l)
        = (\<Sum>a<c. A ! (i * c + a) * mm c d n B X ! (a * n + l))"
    using i l by (rule nth_mm)
  also have "\<dots> = (\<Sum>a<c. A ! (i * c + a) * (\<Sum>b<d. B ! (a * d + b) * X ! (b * n + l)))"
    by (intro sum.cong refl) (simp add: nth_mm l)
  also have "\<dots> = (\<Sum>a<c. \<Sum>b<d. A ! (i * c + a) * B ! (a * d + b) * X ! (b * n + l))"
    by (simp add: sum_distrib_left mult.assoc)
  also have "\<dots> = (\<Sum>b<d. \<Sum>a<c. A ! (i * c + a) * B ! (a * d + b) * X ! (b * n + l))"
    by (rule sum.swap)
  also have "\<dots> = (\<Sum>b<d. (\<Sum>a<c. A ! (i * c + a) * B ! (a * d + b)) * X ! (b * n + l))"
    by (simp add: sum_distrib_right)
  also have "\<dots> = (\<Sum>b<d. mm r c d A B ! (i * d + b) * X ! (b * n + l))"
    by (intro sum.cong refl) (simp add: nth_mm i)
  also have "\<dots> = mm r d n (mm r c d A B) X ! (i * n + l)"
    using i l by (rule nth_mm [symmetric])
  finally show "mm r c n A (mm c d n B X) ! (i * n + l) = mm r d n (mm r c d A B) X ! (i * n + l)" .
qed

lemma length_identity: "length (identity n) = n * n"
  by (simp add: identity_def)

lemma nth_identity:
  assumes "i < n" and "j < n"
  shows "identity n ! (i * n + j) = (if i = j then 1 else 0)"
proof -
  have "i * n + j < n * n" using assms by (rule flat_index_less)
  then show ?thesis using assms by (simp add: identity_def flat_div flat_mod)
qed

lemma mm_identity:
  assumes "length X = n * m"
  shows "mm n n m (identity n) X = X"
proof (rule list_eq_flat [where r = n and n = m])
  show "length (mm n n m (identity n) X) = n * m" by (simp add: length_mm)
  show "length X = n * m" by (rule assms)
next
  fix i l assume i: "i < n" and l: "l < m"
  have "mm n n m (identity n) X ! (i * m + l)
        = (\<Sum>a<n. identity n ! (i * n + a) * X ! (a * m + l))"
    using i l by (rule nth_mm)
  also have "\<dots> = (\<Sum>a<n. if i = a then X ! (a * m + l) else 0)"
    by (intro sum.cong refl) (simp add: nth_identity i)
  also have "\<dots> = X ! (i * m + l)" using i by simp
  finally show "mm n n m (identity n) X ! (i * m + l) = X ! (i * m + l)" .
qed

lemma kron_blk_identity:
  "kron_blk n n (identity n) N N (identity N) = (identity (n * N) :: 'a::comm_semiring_1 list)"
proof (rule list_eq_flat [where r = "n * N" and n = "n * N"])
  show "length (kron_blk n n (identity n) N N (identity N) :: 'a list) = n * N * (n * N)"
    by (simp add: length_kron_blk)
  show "length (identity (n * N) :: 'a list) = n * N * (n * N)" by (simp add: length_identity)
next
  fix I J assume I: "I < n * N" and J: "J < n * N"
  then have Npos: "0 < N" by (auto intro: Nat.gr0I)
  have Id: "I div N < n" "I mod N < N" and Jd: "J div N < n" "J mod N < N"
    using split_index [OF I] split_index [OF J] by simp_all
  have eq: "I = J \<longleftrightarrow> I div N = J div N \<and> I mod N = J mod N"
    by (metis div_mult_mod_eq)
  have "(kron_blk n n (identity n) N N (identity N) :: 'a list) ! (I * (n * N) + J)
        = identity n ! ((I div N) * n + J div N) * identity N ! ((I mod N) * N + J mod N)"
    using I J by (rule nth_kron_blk)
  also have "\<dots> = (if I = J then 1 else 0)"
    by (simp add: nth_identity Id Jd eq)
  also have "\<dots> = identity (n * N) ! (I * (n * N) + J)"
    using I J by (rule nth_identity [symmetric])
  finally show "(kron_blk n n (identity n) N N (identity N) :: 'a list) ! (I * (n * N) + J)
        = identity (n * N) ! (I * (n * N) + J)" .
qed

lemma kron_blk_mixed_product:
  "mm (r1 * r2) (c1 * c2) (n1 * n2) (kron_blk r1 c1 A r2 c2 B) (kron_blk c1 n1 A' c2 n2 B')
   = kron_blk r1 n1 (mm r1 c1 n1 A A') r2 n2 (mm r2 c2 n2 B B')"
proof (rule list_eq_flat [where r = "r1 * r2" and n = "n1 * n2"])
  show "length (mm (r1 * r2) (c1 * c2) (n1 * n2) (kron_blk r1 c1 A r2 c2 B)
          (kron_blk c1 n1 A' c2 n2 B')) = r1 * r2 * (n1 * n2)" by (simp add: length_mm)
  show "length (kron_blk r1 n1 (mm r1 c1 n1 A A') r2 n2 (mm r2 c2 n2 B B')) = r1 * r2 * (n1 * n2)"
    by (simp add: length_kron_blk)
next
  fix I L assume I: "I < r1 * r2" and L: "L < n1 * n2"
  have Id: "I div r2 < r1" "I mod r2 < r2" using split_index [OF I] by simp_all
  have Ld: "L div n2 < n1" "L mod n2 < n2" using split_index [OF L] by simp_all
  have "mm (r1 * r2) (c1 * c2) (n1 * n2) (kron_blk r1 c1 A r2 c2 B) (kron_blk c1 n1 A' c2 n2 B')
          ! (I * (n1 * n2) + L)
        = (\<Sum>J<c1 * c2. kron_blk r1 c1 A r2 c2 B ! (I * (c1 * c2) + J)
                          * kron_blk c1 n1 A' c2 n2 B' ! (J * (n1 * n2) + L))"
    using I L by (rule nth_mm)
  also have "\<dots> = (\<Sum>a<c1. \<Sum>b<c2. kron_blk r1 c1 A r2 c2 B ! (I * (c1 * c2) + (a * c2 + b))
                          * kron_blk c1 n1 A' c2 n2 B' ! ((a * c2 + b) * (n1 * n2) + L))"
    by (rule sum_flat_index)
  also have "\<dots> = (\<Sum>a<c1. \<Sum>b<c2. (A ! ((I div r2) * c1 + a) * B ! ((I mod r2) * c2 + b))
                          * (A' ! (a * n1 + L div n2) * B' ! (b * n2 + L mod n2)))"
  proof (intro sum.cong refl)
    fix a b assume "a \<in> {..<c1}" "b \<in> {..<c2}"
    then have a: "a < c1" and b: "b < c2" by simp_all
    have J: "a * c2 + b < c1 * c2" using a b by (rule flat_index_less)
    have "kron_blk r1 c1 A r2 c2 B ! (I * (c1 * c2) + (a * c2 + b))
          = A ! ((I div r2) * c1 + a) * B ! ((I mod r2) * c2 + b)"
      using nth_kron_blk [OF I J, of A B] b by (simp add: flat_div flat_mod)
    moreover have "kron_blk c1 n1 A' c2 n2 B' ! ((a * c2 + b) * (n1 * n2) + L)
          = A' ! (a * n1 + L div n2) * B' ! (b * n2 + L mod n2)"
      using nth_kron_blk [OF J L, of A' B'] b by (simp add: flat_div flat_mod)
    ultimately show "kron_blk r1 c1 A r2 c2 B ! (I * (c1 * c2) + (a * c2 + b))
                          * kron_blk c1 n1 A' c2 n2 B' ! ((a * c2 + b) * (n1 * n2) + L)
        = (A ! ((I div r2) * c1 + a) * B ! ((I mod r2) * c2 + b))
                          * (A' ! (a * n1 + L div n2) * B' ! (b * n2 + L mod n2))"
      by simp
  qed
  also have "\<dots> = (\<Sum>a<c1. \<Sum>b<c2. (A ! ((I div r2) * c1 + a) * A' ! (a * n1 + L div n2))
                          * (B ! ((I mod r2) * c2 + b) * B' ! (b * n2 + L mod n2)))"
    by (simp add: mult_ac)
  also have "\<dots> = (\<Sum>a<c1. A ! ((I div r2) * c1 + a) * A' ! (a * n1 + L div n2))
                  * (\<Sum>b<c2. B ! ((I mod r2) * c2 + b) * B' ! (b * n2 + L mod n2))"
    by (simp add: sum_product)
  also have "\<dots> = mm r1 c1 n1 A A' ! ((I div r2) * n1 + L div n2)
                  * mm r2 c2 n2 B B' ! ((I mod r2) * n2 + L mod n2)"
    by (simp add: nth_mm Id Ld)
  also have "\<dots> = kron_blk r1 n1 (mm r1 c1 n1 A A') r2 n2 (mm r2 c2 n2 B B') ! (I * (n1 * n2) + L)"
    using I L by (rule nth_kron_blk [symmetric])
  finally show "mm (r1 * r2) (c1 * c2) (n1 * n2) (kron_blk r1 c1 A r2 c2 B)
          (kron_blk c1 n1 A' c2 n2 B') ! (I * (n1 * n2) + L)
        = kron_blk r1 n1 (mm r1 c1 n1 A A') r2 n2 (mm r2 c2 n2 B B') ! (I * (n1 * n2) + L)" .
qed

lemma length_tr2: "length (tr2 r c A) = c * r"
  by (simp add: tr2_def)

lemma nth_tr2:
  assumes "j < c" and "i < r"
  shows "tr2 r c A ! (j * r + i) = A ! (i * c + j)"
proof -
  have "j * r + i < c * r" using assms by (rule flat_index_less)
  then show ?thesis using assms by (simp add: tr2_def flat_div flat_mod)
qed

lemma kron_blk_tr2:
  "kron_blk c r (tr2 r c A) C R (tr2 R C K) = tr2 (r * R) (c * C) (kron_blk r c A R C K)"
proof (rule list_eq_flat [where r = "c * C" and n = "r * R"])
  show "length (kron_blk c r (tr2 r c A) C R (tr2 R C K)) = c * C * (r * R)"
    by (simp add: length_kron_blk)
  show "length (tr2 (r * R) (c * C) (kron_blk r c A R C K)) = c * C * (r * R)"
    by (simp add: length_tr2)
next
  fix J I assume J: "J < c * C" and I: "I < r * R"
  have Jd: "J div C < c" "J mod C < C" using split_index [OF J] by simp_all
  have Id: "I div R < r" "I mod R < R" using split_index [OF I] by simp_all
  have "kron_blk c r (tr2 r c A) C R (tr2 R C K) ! (J * (r * R) + I)
        = tr2 r c A ! ((J div C) * r + I div R) * tr2 R C K ! ((J mod C) * R + I mod R)"
    using J I by (rule nth_kron_blk)
  also have "\<dots> = A ! ((I div R) * c + J div C) * K ! ((I mod R) * C + J mod C)"
    by (simp add: nth_tr2 Jd Id)
  also have "\<dots> = kron_blk r c A R C K ! (I * (c * C) + J)"
    using I J by (rule nth_kron_blk [symmetric])
  also have "\<dots> = tr2 (r * R) (c * C) (kron_blk r c A R C K) ! (J * (r * R) + I)"
    using J I by (rule nth_tr2 [symmetric])
  finally show "kron_blk c r (tr2 r c A) C R (tr2 R C K) ! (J * (r * R) + I)
        = tr2 (r * R) (c * C) (kron_blk r c A R C K) ! (J * (r * R) + I)" .
qed

lemma rows_of_tr_blocks: "rows_of (tr_blocks fs) = cols_of fs"
  by (induction fs rule: tr_blocks.induct) simp_all

lemma cols_of_tr_blocks: "cols_of (tr_blocks fs) = rows_of fs"
  by (induction fs rule: tr_blocks.induct) simp_all

lemma kron_list_tr_blocks:
  "kron_list (tr_blocks fs) = tr2 (rows_of fs) (cols_of fs) (kron_list fs)"
proof (induction fs rule: tr_blocks.induct)
  case 1
  show ?case by (simp add: tr2_def)
next
  case (2 r c A fs)
  then show ?case
    by (simp add: rows_of_tr_blocks cols_of_tr_blocks kron_blk_tr2)
qed

lemma rows_of_mm_blocks:
  "length gs = length fs \<Longrightarrow> rows_of (mm_blocks gs fs) = rows_of gs"
  by (induction gs fs rule: mm_blocks.induct) simp_all

lemma cols_of_mm_blocks:
  "length gs = length fs \<Longrightarrow> cols_of (mm_blocks gs fs) = cols_of fs"
  by (induction gs fs rule: mm_blocks.induct) simp_all

lemma kron_list_mm_blocks:
  assumes "list_all2 (\<lambda>g f. fst (snd g) = fst f) gs fs"
  shows "kron_list (mm_blocks gs fs)
         = mm (rows_of gs) (cols_of gs) (cols_of fs) (kron_list gs) (kron_list fs)"
  using assms
proof (induction gs fs rule: list_all2_induct)
  case Nil
  show ?case by (simp add: mm_def)
next
  case (Cons g gs f fs)
  obtain r c A where g: "g = (r, c, A)" by (cases g) auto
  obtain c' n B where f: "f = (c', n, B)" by (cases f) auto
  have c: "c' = c" using Cons.hyps(1) by (simp add: g f)
  have len: "length gs = length fs" using Cons.hyps(2) by (rule list_all2_lengthD)
  have inner: "cols_of gs = rows_of fs" using Cons.hyps(2)
    by (induction gs fs rule: list_all2_induct) simp_all
  show ?case
    using Cons.IH
    by (simp add: g f c rows_of_mm_blocks [OF len] cols_of_mm_blocks [OF len] inner
        kron_blk_mixed_product)
qed

lemma kron_list_identity:
  "kron_list (map (\<lambda>n. (n, n, identity n)) ns) = (identity (prod_list ns) :: 'a::comm_semiring_1 list)"
proof (induction ns)
  case Nil
  show ?case by (simp add: identity_def)
next
  case (Cons n ns)
  have "prod_list (map fst (map (\<lambda>n. (n, n, identity n :: 'a list)) ns)) = prod_list ns"
    "prod_list (map (\<lambda>f. fst (snd f)) (map (\<lambda>n. (n, n, identity n :: 'a list)) ns)) = prod_list ns"
    by (simp_all add: comp_def)
  then show ?case using Cons.IH by (simp add: kron_blk_identity)
qed

section \<open>Transposition\<close>

lemma nrows_lt_transpose_nonbatch [simp]: "nrows (lt_transpose_nonbatch lt) = ncols lt"
  and ncols_lt_transpose_nonbatch [simp]: "ncols (lt_transpose_nonbatch lt) = nrows lt"
  and batch_shape_lt_transpose_nonbatch [simp]:
    "batch_shape (lt_transpose_nonbatch lt) = batch_shape lt"
  and triangular_lt_transpose_nonbatch [simp]:
    "triangular (lt_transpose_nonbatch lt) = triangular lt"
  by (simp_all add: lt_transpose_nonbatch_def)

lemma t_matmul_loop_eq:
  "t_matmul_loop lts ob m res = matmul_loop (map lt_transpose_nonbatch lts) ob m res"
proof (induction lts arbitrary: res)
  case Nil
  show ?case by simp
next
  case (Cons lt lts)
  show ?case
    by (simp add: lt_t_matmul_def lt_matmul_def Cons.IH split: sum.splits)
qed

lemma t_matmul_fn_eq:
  "t_matmul_fn lts (kb @ [R, C]) rhs = matmul_fn (map lt_transpose_nonbatch lts) (kb @ [C, R]) rhs"
  by (simp add: t_matmul_fn_def matmul_fn_def Let_def nth_append t_matmul_loop_eq split: sum.splits)

lemma KP_init_ok:
  assumes "\<forall>lt \<in> set lts. batch_shape lt = kb"
  shows "KP_init (map Operator lts) = Inr lts"
proof -
  have "\<forall>(a, b) \<in> set (zip (butlast lts) (tl lts)). batch_shape a = batch_shape b"
  proof (clarify)
    fix a b assume "(a, b) \<in> set (zip (butlast lts) (tl lts))"
    then have "a \<in> set (butlast lts)" and "b \<in> set (tl lts)"
      by (auto dest: set_zip_leftD set_zip_rightD)
    then have "a \<in> set lts" and "b \<in> set lts"
      by (auto dest: in_set_butlastD) (cases lts; simp)
    with assms show "batch_shape a = batch_shape b" by simp
  qed
  then have "check_batch_shapes (zip (butlast lts) (tl lts)) = Inr ()"
    by (simp add: check_batch_shapes_ok)
  then show ?thesis by (simp add: KP_init_def lazify_all_Operator)
qed

lemma new_KP_ok: "\<forall>lt \<in> set lts. batch_shape lt = kb \<Longrightarrow> new_KP (map Operator lts) = Inr (KP lts)"
  by (simp add: new_KP_def KP_init_ok [where kb = kb])

lemma new_KPT_ok:
  assumes "\<forall>lt \<in> set lts. batch_shape lt = kb" and "list_all triangular lts"
  shows "new_KPT (map Operator lts) u = Inr (KPT lts u)"
proof -
  have "list_all isinstance_triangular (map Operator lts)"
    using assms(2) by (simp add: list_all_iff)
  then show ?thesis using assms(1) by (simp add: new_KPT_def KP_init_ok [where kb = kb])
qed

lemma KP_transpose_nonbatch_ok:
  assumes "\<forall>lt \<in> set (lazy_tensors k). batch_shape lt = kb"
    and "case k of KP lts \<Rightarrow> True | KPT lts u \<Rightarrow> list_all triangular lts"
  shows "KP_transpose_nonbatch k = Inr (transposed k)"
proof (cases k)
  case (KP lts)
  have "new_KP (map Operator (map lt_transpose_nonbatch lts)) = Inr (KP (map lt_transpose_nonbatch lts))"
    using assms(1) KP by (intro new_KP_ok [where kb = kb]) simp
  then show ?thesis by (simp add: KP KP_transpose_nonbatch_def comp_def)
next
  case (KPT lts u)
  have "new_KPT (map Operator (map lt_transpose_nonbatch lts)) False
        = Inr (KPT (map lt_transpose_nonbatch lts) False)"
    using assms KPT by (intro new_KPT_ok [where kb = kb]) (simp_all add: list_all_iff)
  then show ?thesis by (simp add: KPT KP_transpose_nonbatch_def comp_def)
qed

lemma lazy_tensors_transposed: "lazy_tensors (transposed k) = map lt_transpose_nonbatch (lazy_tensors k)"
  by (cases k) simp_all

lemma KP_t_matmul_eq:
  assumes "\<forall>lt \<in> set (lazy_tensors k). batch_shape lt = kb"
  shows "KP_t_matmul k v = KP_matmul (transposed k) v"
proof (cases "lazy_tensors k")
  case Nil
  then show ?thesis
    by (simp add: KP_t_matmul_def KP_matmul_def size_kp_def lazy_tensors_transposed Let_def)
next
  case (Cons lt lts)
  have s1: "size_kp k = Inr (batch_shape lt @ [prod_list (map nrows (lazy_tensors k)),
                                                prod_list (map ncols (lazy_tensors k))])"
    by (simp add: size_kp_def Cons prod_reduce_eq)
  have s2: "size_kp (transposed k) = Inr (batch_shape lt @ [prod_list (map ncols (lazy_tensors k)),
                                                prod_list (map nrows (lazy_tensors k))])"
    by (simp add: size_kp_def Cons prod_reduce_eq lazy_tensors_transposed comp_def)
  show ?thesis
    by (simp add: KP_t_matmul_def KP_matmul_def s1 s2 t_matmul_fn_eq lazy_tensors_transposed)
qed

lemma block_lt_transpose_nonbatch:
  assumes "b < prod_list (batch_shape lt)"
  shows "block (ncols lt * nrows lt) (entries (lt_transpose_nonbatch lt)) b
         = tr2 (nrows lt) (ncols lt) (block (nrows lt * ncols lt) (entries lt) b)"
proof -
  have "block (ncols lt * nrows lt)
          (concat (map (\<lambda>b. tr2 (nrows lt) (ncols lt) (block (nrows lt * ncols lt) (entries lt) b))
                     [0..<prod_list (batch_shape lt)])) b
        = tr2 (nrows lt) (ncols lt) (block (nrows lt * ncols lt) (entries lt) b)"
    by (rule block_concat_map) (simp_all add: length_tr2 assms)
  then show ?thesis by (simp add: lt_transpose_nonbatch_def)
qed

lemma factor_blocks_transpose:
  assumes "\<forall>lt \<in> set lts. b < prod_list (batch_shape lt)"
  shows "factor_blocks (map lt_transpose_nonbatch lts) b = tr_blocks (factor_blocks lts b)"
  using assms
proof (induction lts)
  case Nil
  show ?case by (simp add: factor_blocks_def)
next
  case (Cons lt lts)
  have "factor_blocks (map lt_transpose_nonbatch lts) b = tr_blocks (factor_blocks lts b)"
    using Cons.prems by (intro Cons.IH) simp
  moreover have "block (ncols lt * nrows lt) (entries (lt_transpose_nonbatch lt)) b
         = tr2 (nrows lt) (ncols lt) (block (nrows lt * ncols lt) (entries lt) b)"
    using Cons.prems by (intro block_lt_transpose_nonbatch) simp
  ultimately show ?case by (simp add: factor_blocks_def)
qed

lemma dense_kron_transpose:
  assumes "lts \<noteq> []" and "\<forall>lt \<in> set lts. batch_shape lt = kb"
  shows "dense_kron (map lt_transpose_nonbatch lts) = lt_transpose_nonbatch (dense_kron lts)"
proof -
  let ?R = "prod_list (map nrows lts)" and ?C = "prod_list (map ncols lts)"
  have hd: "batch_shape (hd lts) = kb" "batch_shape (hd (map lt_transpose_nonbatch lts)) = kb"
    using assms by (cases lts; simp)+
  have "concat (map (\<lambda>b. kron_list (factor_blocks (map lt_transpose_nonbatch lts) b)) [0..<prod_list kb])
        = concat (map (\<lambda>b. tr2 ?R ?C (block (?R * ?C) (entries (dense_kron lts)) b)) [0..<prod_list kb])"
  proof (rule concat_map_upt_cong)
    fix b assume b: "b < prod_list kb"
    have "factor_blocks (map lt_transpose_nonbatch lts) b = tr_blocks (factor_blocks lts b)"
      using assms(2) b by (intro factor_blocks_transpose) simp
    moreover have "block (?R * ?C) (entries (dense_kron lts)) b = kron_list (factor_blocks lts b)"
      using b by (intro block_dense_kron) (simp add: hd)
    ultimately show "kron_list (factor_blocks (map lt_transpose_nonbatch lts) b)
        = tr2 ?R ?C (block (?R * ?C) (entries (dense_kron lts)) b)"
      by (simp add: kron_list_tr_blocks rows_of_factor_blocks cols_of_factor_blocks)
  qed
  then show ?thesis
    by (simp add: dense_kron_def lt_transpose_nonbatch_def hd comp_def)
qed

lemma KP_matmul_matrix_dense:
  assumes "lazy_tensors k = lts" and "lts \<noteq> []"
    and "\<forall>lt \<in> set lts. 0 < nrows lt \<and> 0 < ncols lt \<and> batch_shape lt = kb"
    and "shape rhs = rb @ [prod_list (map ncols lts), m]" and "wf_tensor rhs"
    and "mul_broadcast_shape kb rb = Inr ob" and "\<forall>n \<in> set ob. 0 < n" and "0 < m"
  shows "KP_matmul k rhs = matmul (evaluate (dense_kron lts)) rhs"
proof -
  have hd: "batch_shape (hd lts) = kb" using assms(2,3) by (cases lts) auto
  show ?thesis
    by (simp only: KP_matmul_matrix [OF assms]
        matmul_dense_kron_blocks [OF assms(2) hd assms(4) assms(6) assms(7)])
qed

text \<open>
  C6. Take a composite whose factors share one batch shape (and are triangular when the
  composite is of the triangular class), with at least one factor and positive extents.
  \<open>_transpose_nonbatch\<close> returns a composite of the same class whose factors are
  the transposed factors in the same order. For every \<open>v\<close>, \<open>_t_matmul(v)\<close> is
  \<open>_matmul(v)\<close> of that composite, and for a vector of length \<open>rows\<close>, as for a
  right-hand side of shape \<open>(..., rows, m)\<close>, it is the product of the transpose of the
  dense Kronecker product with \<open>v\<close>.
\<close>

theorem transpose_consistency:
  assumes "lazy_tensors k = lts" and "lts \<noteq> []"
    and "\<forall>lt \<in> set lts. 0 < nrows lt \<and> 0 < ncols lt \<and> batch_shape lt = kb"
    and "\<forall>n \<in> set kb. 0 < n" and "wf_tensor v"
    and "case k of KP fs \<Rightarrow> True | KPT fs u \<Rightarrow> list_all triangular fs"
  shows "KP_transpose_nonbatch k = Inr (transposed k)
       \<and> lazy_tensors (transposed k) = map lt_transpose_nonbatch lts
       \<and> KP_t_matmul k v = KP_matmul (transposed k) v
       \<and> (shape v = [prod_list (map nrows lts)]
          \<longrightarrow> KP_t_matmul k v = matvec (evaluate (lt_transpose_nonbatch (dense_kron lts))) v)
       \<and> (shape v = rb @ [prod_list (map nrows lts), m] \<and> 0 < m \<and> (\<forall>n \<in> set rb. 0 < n)
            \<and> mul_broadcast_shape kb rb = Inr ob
          \<longrightarrow> KP_t_matmul k v = matmul (evaluate (lt_transpose_nonbatch (dense_kron lts))) v)"
proof (intro conjI impI)
  let ?ts = "map lt_transpose_nonbatch lts"
  have same: "\<forall>lt \<in> set (lazy_tensors k). batch_shape lt = kb" using assms(1,3) by simp
  show "KP_transpose_nonbatch k = Inr (transposed k)"
    using same assms(6) by (rule KP_transpose_nonbatch_ok)
  show lt: "lazy_tensors (transposed k) = ?ts" by (simp add: lazy_tensors_transposed assms(1))
  show eq: "KP_t_matmul k v = KP_matmul (transposed k) v" using same by (rule KP_t_matmul_eq)
  have ne: "?ts \<noteq> []" using assms(2) by simp
  have pos: "\<forall>lt \<in> set ?ts. 0 < nrows lt \<and> 0 < ncols lt \<and> batch_shape lt = kb"
    using assms(3) by simp
  have dk: "dense_kron ?ts = lt_transpose_nonbatch (dense_kron lts)"
    using assms(2,3) by (intro dense_kron_transpose [where kb = kb]) simp_all
  have cols: "prod_list (map ncols ?ts) = prod_list (map nrows lts)" by (simp add: comp_def)
  {
    assume h: "shape v = [prod_list (map nrows lts)]"
    have "KP_matmul (transposed k) v = matvec (evaluate (dense_kron ?ts)) v"
      using lt ne pos _ assms(5,4) by (rule KP_matmul_vector(1)) (simp add: h comp_def)
    then show "KP_t_matmul k v = matvec (evaluate (lt_transpose_nonbatch (dense_kron lts))) v"
      by (simp add: eq dk)
  }
  {
    assume h: "shape v = rb @ [prod_list (map nrows lts), m] \<and> 0 < m \<and> (\<forall>n \<in> set rb. 0 < n)
            \<and> mul_broadcast_shape kb rb = Inr ob"
    then have ob: "\<forall>n \<in> set ob. 0 < n" using assms(4) mul_broadcast_shape_pos by blast
    have sh: "shape v = rb @ [prod_list (map ncols ?ts), m]" using h by (simp add: comp_def)
    have "KP_matmul (transposed k) v = matmul (evaluate (dense_kron ?ts)) v"
      using lt ne pos sh assms(5) _ ob by (rule KP_matmul_matrix_dense) (simp_all add: h)
    then show "KP_t_matmul k v = matmul (evaluate (lt_transpose_nonbatch (dense_kron lts))) v"
      by (simp add: eq dk)
  }
qed

theorem transpose_consistency_witness:
  "KP_transpose_nonbatch (KP [ex_A, ex_B])
     = Inr (KP [lt_transpose_nonbatch ex_A, lt_transpose_nonbatch ex_B])
   \<and> KP_t_matmul (KP [ex_A, ex_B]) \<lparr>shape = [6], data = [1, 2, 3, 4, 5, 6]\<rparr>
     = Inr \<lparr>shape = [6], data = [118, 17, 64, 168, 24, 90]\<rparr>
   \<and> KP_t_matmul (KP [ex_P, ex_Q]) \<lparr>shape = [3, 1, 2, 2], data = [1, 2, 3, 4, 5, 6, 7, 8, 9, 10, 11, 12]\<rparr>
     = Inr \<lparr>shape = [3, 2, 2, 2],
            data = [23, 34, 46, 68, 93, 138, 124, 184, 67, 78, 134, 156, 273, 318,
                    364, 424, 111, 122, 222, 244, 453, 498, 604, 664]\<rparr>"
proof -
  have a1: "lazy_tensors (KP [ex_A, ex_B]) = [ex_A, ex_B]" and a2: "[ex_A, ex_B] \<noteq> []" by simp_all
  have a3: "\<forall>lt \<in> set [ex_A, ex_B]. 0 < nrows lt \<and> 0 < ncols lt \<and> batch_shape lt = []"
    by (simp add: ex_A_def ex_B_def)
  have a4: "\<forall>n \<in> set ([] :: nat list). 0 < n" by simp
  have a5: "wf_tensor \<lparr>shape = [6], data = [1, 2, 3, 4, 5, 6 :: int]\<rparr>" by (simp add: wf_tensor_def)
  have a6: "case KP [ex_A, ex_B] of KP fs \<Rightarrow> True | KPT fs u \<Rightarrow> list_all triangular fs" by simp
  have a7: "shape \<lparr>shape = [6], data = [1, 2, 3, 4, 5, 6 :: int]\<rparr> = [prod_list (map nrows [ex_A, ex_B])]"
    by (simp add: ex_A_def ex_B_def)
  have v: "matvec (evaluate (lt_transpose_nonbatch (dense_kron [ex_A, ex_B])))
             \<lparr>shape = [6], data = [1, 2, 3, 4, 5, 6]\<rparr>
           = Inr \<lparr>shape = [6], data = [118, 17, 64, 168, 24, 90]\<rparr>"
    by code_simp
  have b1: "lazy_tensors (KP [ex_P, ex_Q]) = [ex_P, ex_Q]" and b2: "[ex_P, ex_Q] \<noteq> []" by simp_all
  have b3: "\<forall>lt \<in> set [ex_P, ex_Q]. 0 < nrows lt \<and> 0 < ncols lt \<and> batch_shape lt = [2]"
    by (simp add: ex_P_def ex_Q_def)
  have b4: "\<forall>n \<in> set [2 :: nat]. 0 < n" by simp
  have b5: "wf_tensor \<lparr>shape = [3, 1, 2, 2], data = [1, 2, 3, 4, 5, 6, 7, 8, 9, 10, 11, 12 :: int]\<rparr>"
    by (simp add: wf_tensor_def)
  have b6: "case KP [ex_P, ex_Q] of KP fs \<Rightarrow> True | KPT fs u \<Rightarrow> list_all triangular fs" by simp
  have b7: "shape \<lparr>shape = [3, 1, 2, 2], data = [1, 2, 3, 4, 5, 6, 7, 8, 9, 10, 11, 12 :: int]\<rparr>
              = [3, 1] @ [prod_list (map nrows [ex_P, ex_Q]), 2]
            \<and> 0 < (2 :: nat) \<and> (\<forall>n \<in> set [3, 1 :: nat]. 0 < n)
            \<and> mul_broadcast_shape [2] [3, 1] = Inr [3, 2]"
    by (simp add: ex_P_def ex_Q_def mul_broadcast_shape_def)
  have w: "matmul (evaluate (lt_transpose_nonbatch (dense_kron [ex_P, ex_Q])))
             \<lparr>shape = [3, 1, 2, 2], data = [1, 2, 3, 4, 5, 6, 7, 8, 9, 10, 11, 12]\<rparr>
           = Inr \<lparr>shape = [3, 2, 2, 2],
            data = [23, 34, 46, 68, 93, 138, 124, 184, 67, 78, 134, 156, 273, 318,
                    364, 424, 111, 122, 222, 244, 453, 498, 604, 664]\<rparr>"
    by code_simp
  note A = transpose_consistency [OF a1 a2 a3 a4 a5 a6]
  note B = transpose_consistency [OF b1 b2 b3 b4 b5 b6]
  from A have "KP_transpose_nonbatch (KP [ex_A, ex_B]) = Inr (transposed (KP [ex_A, ex_B]))"
    by blast
  moreover from A a7
  have "KP_t_matmul (KP [ex_A, ex_B]) \<lparr>shape = [6], data = [1, 2, 3, 4, 5, 6]\<rparr>
        = matvec (evaluate (lt_transpose_nonbatch (dense_kron [ex_A, ex_B])))
            \<lparr>shape = [6], data = [1, 2, 3, 4, 5, 6]\<rparr>"
    by blast
  moreover from B b7
  have "KP_t_matmul (KP [ex_P, ex_Q]) \<lparr>shape = [3, 1, 2, 2], data = [1, 2, 3, 4, 5, 6, 7, 8, 9, 10, 11, 12]\<rparr>
        = matmul (evaluate (lt_transpose_nonbatch (dense_kron [ex_P, ex_Q])))
            \<lparr>shape = [3, 1, 2, 2], data = [1, 2, 3, 4, 5, 6, 7, 8, 9, 10, 11, 12]\<rparr>"
    by blast
  moreover have "transposed (KP [ex_A, ex_B]) = KP [lt_transpose_nonbatch ex_A, lt_transpose_nonbatch ex_B]"
    by simp
  ultimately show ?thesis by (simp only: v w)
qed

section \<open>Products of composites and the inverse\<close>

lemma concat_blocks:
  "length xs = B * sz \<Longrightarrow> concat (map (block sz xs) [0..<B]) = xs"
proof (induction B arbitrary: xs rule: nat.induct)
  case zero
  then show ?case by simp
next
  case (Suc B)
  have "concat (map (block sz (take (B * sz) xs)) [0..<B]) = take (B * sz) xs"
    using Suc.prems by (intro Suc.IH) simp
  moreover have "block sz (take (B * sz) xs) b = block sz xs b" if "b < B" for b
  proof -
    have "Suc b * sz \<le> B * sz" using that by (intro mult_le_mono1) simp
    then have "b * sz + sz \<le> B * sz" by simp
    then show ?thesis by (simp add: block_def drop_take min_def)
  qed
  ultimately have "concat (map (block sz xs) [0..<B]) = take (B * sz) xs"
    using concat_map_upt_cong [of B "block sz (take (B * sz) xs)" "block sz xs"] by simp
  moreover have "block sz xs B = drop (B * sz) xs" using Suc.prems by (simp add: block_def)
  ultimately show ?case by simp
qed

lemma wf_blocks:
  "\<forall>b<prod_list ob. length (X b) = r * m
   \<Longrightarrow> wf_tensor \<lparr>shape = ob @ [r, m], data = concat (map X [0..<prod_list ob])\<rparr>"
  by (simp add: wf_tensor_def length_concat_map_const)

lemma list_all2_factor_blocks:
  "list_all2 (\<lambda>g f. ncols g = nrows f) gs fs
   \<Longrightarrow> list_all2 (\<lambda>g f. fst (snd g) = fst f) (factor_blocks gs b) (factor_blocks fs b)"
  by (simp add: factor_blocks_def list_all2_map1 list_all2_map2)

lemma KP_matmul_compose:
  assumes "lazy_tensors k1 = gs" and "lazy_tensors k2 = fs" and "fs \<noteq> []"
    and "\<forall>lt \<in> set gs. 0 < nrows lt \<and> 0 < ncols lt \<and> batch_shape lt = kb"
    and "\<forall>lt \<in> set fs. 0 < nrows lt \<and> 0 < ncols lt \<and> batch_shape lt = kb"
    and "list_all2 (\<lambda>g f. ncols g = nrows f) gs fs"
    and "shape rhs = rb @ [prod_list (map ncols fs), m]" and "wf_tensor rhs"
    and "mul_broadcast_shape kb rb = Inr ob" and "\<forall>n \<in> set ob. 0 < n" and "0 < m"
  shows "(case KP_matmul k2 rhs of Inl e \<Rightarrow> Inl e | Inr w \<Rightarrow> KP_matmul k1 w)
         = Inr \<lparr>shape = ob @ [prod_list (map nrows gs), m],
                data = concat (map (\<lambda>b. mm (prod_list (map nrows gs)) (prod_list (map ncols fs)) m
                                          (kron_list (mm_blocks (factor_blocks gs (bidx ob kb b))
                                                                (factor_blocks fs (bidx ob kb b))))
                                          (block (prod_list (map ncols fs) * m) (data rhs) (bidx ob rb b)))
                                 [0..<prod_list ob])\<rparr>"
proof -
  let ?R1 = "prod_list (map nrows gs)" and ?C1 = "prod_list (map ncols gs)"
  let ?R2 = "prod_list (map nrows fs)" and ?C2 = "prod_list (map ncols fs)"
  let ?B = "prod_list ob"
  let ?X = "\<lambda>b. block (?C2 * m) (data rhs) (bidx ob rb b)"
  let ?W = "\<lambda>b. mm ?R2 ?C2 m (kron_list (factor_blocks fs (bidx ob kb b))) (?X b)"
  have len: "length gs = length fs" using assms(6) by (rule list_all2_lengthD)
  then have gne: "gs \<noteq> []" using assms(3) by auto
  have inner: "?C1 = ?R2" using assms(6) by (induction gs fs rule: list_all2_induct) simp_all
  have idem: "mul_broadcast_shape kb ob = Inr ob" using assms(9) by (rule mul_broadcast_shape_idem)
  have first: "KP_matmul k2 rhs = Inr \<lparr>shape = ob @ [?R2, m], data = concat (map ?W [0..<?B])\<rparr>"
    using assms(2,3,5,7,8,9,10,11) by (rule KP_matmul_matrix)
  have lenW: "\<forall>b<?B. length (?W b) = ?R2 * m" by (simp add: length_mm)
  have wfW: "wf_tensor \<lparr>shape = ob @ [?R2, m], data = concat (map ?W [0..<?B])\<rparr>"
    using lenW by (rule wf_blocks)
  have shW: "shape \<lparr>shape = ob @ [?R2, m], data = concat (map ?W [0..<?B])\<rparr> = ob @ [?C1, m]"
    by (simp add: inner)
  have second: "KP_matmul k1 \<lparr>shape = ob @ [?R2, m], data = concat (map ?W [0..<?B])\<rparr>
        = Inr \<lparr>shape = ob @ [?R1, m],
               data = concat (map (\<lambda>b. mm ?R1 ?C1 m (kron_list (factor_blocks gs (bidx ob kb b)))
                         (block (?C1 * m) (data \<lparr>shape = ob @ [?R2, m], data = concat (map ?W [0..<?B])\<rparr>)
                            (bidx ob ob b))) [0..<?B])\<rparr>"
    using assms(1) gne assms(4) shW wfW idem assms(10,11) by (rule KP_matmul_matrix)
  have "concat (map (\<lambda>b. mm ?R1 ?C1 m (kron_list (factor_blocks gs (bidx ob kb b)))
                         (block (?C1 * m) (data \<lparr>shape = ob @ [?R2, m], data = concat (map ?W [0..<?B])\<rparr>)
                            (bidx ob ob b))) [0..<?B])
        = concat (map (\<lambda>b. mm ?R1 ?C2 m (kron_list (mm_blocks (factor_blocks gs (bidx ob kb b))
                                                                (factor_blocks fs (bidx ob kb b))))
                                          (?X b)) [0..<?B])"
  proof (rule concat_map_upt_cong)
    fix b assume b: "b < ?B"
    let ?g = "factor_blocks gs (bidx ob kb b)" and ?f = "factor_blocks fs (bidx ob kb b)"
    have blk: "block (?C1 * m) (concat (map ?W [0..<?B])) b = ?W b"
      using lenW b unfolding inner by (rule block_concat_map)
    have "kron_list (mm_blocks ?g ?f) = mm (rows_of ?g) (cols_of ?g) (cols_of ?f) (kron_list ?g) (kron_list ?f)"
      using assms(6) by (intro kron_list_mm_blocks list_all2_factor_blocks)
    then have kr: "kron_list (mm_blocks ?g ?f) = mm ?R1 ?C1 ?C2 (kron_list ?g) (kron_list ?f)"
      by (simp add: rows_of_factor_blocks cols_of_factor_blocks)
    have "mm ?R1 ?C1 m (kron_list ?g) (?W b) = mm ?R1 ?C2 m (mm ?R1 ?C1 ?C2 (kron_list ?g) (kron_list ?f)) (?X b)"
      unfolding inner [symmetric] by (rule mm_assoc)
    then show "mm ?R1 ?C1 m (kron_list ?g)
                 (block (?C1 * m) (data \<lparr>shape = ob @ [?R2, m], data = concat (map ?W [0..<?B])\<rparr>)
                            (bidx ob ob b))
               = mm ?R1 ?C2 m (kron_list (mm_blocks ?g ?f)) (?X b)"
      by (simp add: bidx_self [OF b] blk kr)
  qed
  then show ?thesis by (simp only: first second sum.case)
qed

lemma lazy_tensors_with_factors [simp]: "lazy_tensors (with_factors k gs) = gs"
  by (cases k) simp_all

lemma inverse_of_sizes:
  assumes "list_all2 inverse_of gs lts"
  shows "map nrows gs = map nrows lts" and "map ncols gs = map nrows lts"
    and "map ncols lts = map nrows lts" and "map batch_shape gs = map batch_shape lts"
    and "map triangular gs = map triangular lts"
  using assms by (induction gs lts rule: list_all2_induct) (simp_all add: inverse_of_def)

lemma inverse_of_block:
  assumes "inverse_of g f" and "b < prod_list (batch_shape f)"
  shows "mm (nrows g) (ncols g) (ncols f) (block (nrows g * ncols g) (entries g) b)
           (block (nrows f * ncols f) (entries f) b) = identity (nrows f)"
    and "mm (nrows f) (ncols f) (ncols g) (block (nrows f * ncols f) (entries f) b)
           (block (nrows g * ncols g) (entries g) b) = identity (nrows f)"
  using assms by (auto simp: inverse_of_def list_all_iff)

lemma inverse_of_sym: "inverse_of g f \<Longrightarrow> inverse_of f g"
  by (auto simp: inverse_of_def list_all_iff)

lemma list_all2_inverse_of_sym: "list_all2 inverse_of gs fs \<Longrightarrow> list_all2 inverse_of fs gs"
  by (induction gs fs rule: list_all2_induct) (simp_all add: inverse_of_sym)

lemma mm_blocks_inverse:
  assumes "list_all2 inverse_of gs lts" and "\<forall>lt \<in> set lts. b < prod_list (batch_shape lt)"
  shows "mm_blocks (factor_blocks gs b) (factor_blocks lts b)
         = map (\<lambda>n. (n, n, identity n)) (map nrows lts)"
  using assms
proof (induction gs lts rule: list_all2_induct)
  case Nil
  show ?case by (simp add: factor_blocks_def)
next
  case (Cons g gs f lts)
  have b: "b < prod_list (batch_shape f)" and rest: "\<forall>lt \<in> set lts. b < prod_list (batch_shape lt)"
    using Cons.prems by simp_all
  have sz: "nrows g = nrows f" "ncols g = nrows f" "ncols f = nrows f"
    using Cons.hyps(1) by (simp_all add: inverse_of_def)
  have "mm_blocks (factor_blocks gs b) (factor_blocks lts b)
        = map (\<lambda>n. (n, n, identity n)) (map nrows lts)" using rest by (rule Cons.IH)
  then show ?case
    using inverse_of_block(1) [OF Cons.hyps(1) b] by (simp add: factor_blocks_def sz)
qed

lemma KP_inverse_ok:
  assumes "lazy_tensors k = lts" and "\<forall>lt \<in> set lts. batch_shape lt = kb"
    and "case k of KP fs \<Rightarrow> True | KPT fs u \<Rightarrow> list_all triangular fs"
    and "map_err inv_f lts = Inr gs" and "list_all2 inverse_of gs lts"
  shows "KP_inverse inv_f k = Inr (with_factors k gs)"
proof -
  have bs: "\<forall>g \<in> set gs. batch_shape g = kb"
  proof
    fix g assume "g \<in> set gs"
    then have "batch_shape g \<in> set (map batch_shape lts)"
      using inverse_of_sizes(4) [OF assms(5)] by (metis image_eqI set_map)
    then show "batch_shape g = kb" using assms(2) by auto
  qed
  show ?thesis
  proof (cases k)
    case (KP fs)
    then show ?thesis using assms(1,4) bs by (simp add: new_KP_ok [where kb = kb])
  next
    case (KPT fs u)
    then have "list_all triangular lts" using assms(1,3) by simp
    then have "\<forall>t \<in> set (map triangular lts). t" by (simp add: list_all_iff)
    then have "\<forall>t \<in> set (map triangular gs). t" by (simp only: inverse_of_sizes(5) [OF assms(5)])
    then have "list_all triangular gs" by (simp add: list_all_iff)
    then show ?thesis using KPT assms(1,4) bs by (simp add: new_KPT_ok [where kb = kb])
  qed
qed

lemma tensor_eq: "shape v = s \<Longrightarrow> \<lparr>shape = s, data = data v\<rparr> = v"
  by (cases v) simp

lemma KP_matmul_inverse_matrix:
  assumes "lazy_tensors k1 = gs" and "lazy_tensors k2 = fs" and "fs \<noteq> []"
    and "\<forall>lt \<in> set fs. 0 < nrows lt \<and> batch_shape lt = kb"
    and "list_all2 inverse_of gs fs"
    and "shape v = rb @ [prod_list (map ncols fs), m]" and "wf_tensor v"
    and "mul_broadcast_shape kb rb = Inr rb" and "\<forall>n \<in> set rb. 0 < n" and "0 < m"
  shows "(case KP_matmul k2 v of Inl e \<Rightarrow> Inl e | Inr w \<Rightarrow> KP_matmul k1 w) = Inr v"
proof -
  let ?N = "prod_list (map nrows fs)"
  have sizes: "map nrows gs = map nrows fs" "map ncols gs = map nrows fs" "map ncols fs = map nrows fs"
    "map batch_shape gs = map batch_shape fs"
    using inverse_of_sizes [OF assms(5)] by simp_all
  have len: "length gs = length fs" using sizes(1) by (metis length_map)
  have fpos: "\<forall>lt \<in> set fs. 0 < nrows lt \<and> 0 < ncols lt \<and> batch_shape lt = kb"
  proof
    fix lt assume lt: "lt \<in> set fs"
    then obtain i where i: "i < length fs" "fs ! i = lt" by (auto simp: in_set_conv_nth)
    then have "ncols lt = nrows lt" using sizes(3) by (metis nth_map)
    then show "0 < nrows lt \<and> 0 < ncols lt \<and> batch_shape lt = kb" using assms(4) lt by simp
  qed
  have gpos: "\<forall>lt \<in> set gs. 0 < nrows lt \<and> 0 < ncols lt \<and> batch_shape lt = kb"
  proof
    fix lt assume "lt \<in> set gs"
    then obtain i where i: "i < length gs" "gs ! i = lt" by (auto simp: in_set_conv_nth)
    then have "nrows lt = nrows (fs ! i)" "ncols lt = nrows (fs ! i)" "batch_shape lt = batch_shape (fs ! i)"
      using sizes len by (metis nth_map)+
    moreover have "fs ! i \<in> set fs" using i(1) len by simp
    ultimately show "0 < nrows lt \<and> 0 < ncols lt \<and> batch_shape lt = kb" using assms(4) by simp
  qed
  have chain: "list_all2 (\<lambda>g f. ncols g = nrows f) gs fs"
    using sizes(2) len by (simp add: list_all2_conv_all_nth) (metis nth_map)
  have sh: "shape v = rb @ [?N, m]" using assms(6) by (simp add: sizes(3))
  have lenv: "length (data v) = prod_list rb * (?N * m)" using sh assms(7) by (simp add: wf_tensor_def)
  have ex: "expandable_rev (rev kb) (rev rb)"
    using mul_broadcast_shape_expandable(1) [OF assms(8)] .
  have "(case KP_matmul k2 v of Inl e \<Rightarrow> Inl e | Inr w \<Rightarrow> KP_matmul k1 w)
        = Inr \<lparr>shape = rb @ [prod_list (map nrows gs), m],
                data = concat (map (\<lambda>b. mm (prod_list (map nrows gs)) (prod_list (map ncols fs)) m
                                          (kron_list (mm_blocks (factor_blocks gs (bidx rb kb b))
                                                                (factor_blocks fs (bidx rb kb b))))
                                          (block (prod_list (map ncols fs) * m) (data v) (bidx rb rb b)))
                                 [0..<prod_list rb])\<rparr>"
    using assms(1,2,3) gpos fpos chain assms(6,7,8,9,10) by (rule KP_matmul_compose)
  moreover have "concat (map (\<lambda>b. mm (prod_list (map nrows gs)) (prod_list (map ncols fs)) m
                                          (kron_list (mm_blocks (factor_blocks gs (bidx rb kb b))
                                                                (factor_blocks fs (bidx rb kb b))))
                                          (block (prod_list (map ncols fs) * m) (data v) (bidx rb rb b)))
                                 [0..<prod_list rb])
        = concat (map (block (?N * m) (data v)) [0..<prod_list rb])"
  proof (rule concat_map_upt_cong)
    fix b assume b: "b < prod_list rb"
    have g: "bidx rb kb b < prod_list kb" using ex assms(9) by (rule bidx_less)
    have gb: "\<forall>lt \<in> set fs. bidx rb kb b < prod_list (batch_shape lt)" using g fpos by simp
    have "mm_blocks (factor_blocks gs (bidx rb kb b)) (factor_blocks fs (bidx rb kb b))
          = map (\<lambda>n. (n, n, identity n)) (map nrows fs)"
      using assms(5) gb by (rule mm_blocks_inverse)
    then have kr: "kron_list (mm_blocks (factor_blocks gs (bidx rb kb b)) (factor_blocks fs (bidx rb kb b)))
          = identity ?N" by (simp only: kron_list_identity)
    have "length (block (?N * m) (data v) b) = ?N * m" using lenv b by (rule length_block_wf)
    then have "mm ?N ?N m (identity ?N) (block (?N * m) (data v) b) = block (?N * m) (data v) b"
      by (rule mm_identity)
    then show "mm (prod_list (map nrows gs)) (prod_list (map ncols fs)) m
                 (kron_list (mm_blocks (factor_blocks gs (bidx rb kb b)) (factor_blocks fs (bidx rb kb b))))
                 (block (prod_list (map ncols fs) * m) (data v) (bidx rb rb b))
               = block (?N * m) (data v) b"
      by (simp add: kr sizes bidx_self [OF b])
  qed
  moreover have "concat (map (block (?N * m) (data v)) [0..<prod_list rb]) = data v"
    using lenv by (rule concat_blocks)
  ultimately show ?thesis using sh by (simp add: sizes tensor_eq)
qed

lemma KP_matmul_inverse_vector:
  assumes "lazy_tensors k1 = gs" and "lazy_tensors k2 = fs" and "fs \<noteq> []"
    and "\<forall>lt \<in> set fs. 0 < nrows lt \<and> batch_shape lt = []"
    and "list_all2 inverse_of gs fs"
    and "shape v = [prod_list (map ncols fs)]" and "wf_tensor v"
  shows "(case KP_matmul k2 v of Inl e \<Rightarrow> Inl e | Inr w \<Rightarrow> KP_matmul k1 w) = Inr v"
proof -
  let ?N = "prod_list (map nrows fs)"
  have sizes: "map nrows gs = map nrows fs" "map ncols gs = map nrows fs" "map ncols fs = map nrows fs"
    "map batch_shape gs = map batch_shape fs"
    using inverse_of_sizes [OF assms(5)] by simp_all
  have len: "length gs = length fs" using sizes(1) by (metis length_map)
  then have gne: "gs \<noteq> []" using assms(3) by auto
  have fpos: "\<forall>lt \<in> set fs. 0 < nrows lt \<and> 0 < ncols lt \<and> batch_shape lt = []"
  proof
    fix lt assume lt: "lt \<in> set fs"
    then obtain i where i: "i < length fs" "fs ! i = lt" by (auto simp: in_set_conv_nth)
    then have "ncols lt = nrows lt" using sizes(3) by (metis nth_map)
    then show "0 < nrows lt \<and> 0 < ncols lt \<and> batch_shape lt = []" using assms(4) lt by simp
  qed
  have gpos: "\<forall>lt \<in> set gs. 0 < nrows lt \<and> 0 < ncols lt \<and> batch_shape lt = []"
  proof
    fix lt assume "lt \<in> set gs"
    then obtain i where i: "i < length gs" "gs ! i = lt" by (auto simp: in_set_conv_nth)
    then have "nrows lt = nrows (fs ! i)" "ncols lt = nrows (fs ! i)" "batch_shape lt = batch_shape (fs ! i)"
      using sizes len by (metis nth_map)+
    moreover have "fs ! i \<in> set fs" using i(1) len by simp
    ultimately show "0 < nrows lt \<and> 0 < ncols lt \<and> batch_shape lt = []" using assms(4) by simp
  qed
  have e: "\<forall>n \<in> set ([] :: nat list). 0 < n" by simp
  let ?W = "mm ?N ?N 1 (kron_list (factor_blocks fs 0)) (data v)"
  have first: "KP_matmul k2 v = Inr \<lparr>shape = [?N], data = ?W\<rparr>"
    using KP_matmul_vector(2) [OF assms(2,3) fpos assms(6,7) e] by (simp add: sizes)
  have shW: "shape \<lparr>shape = [?N], data = ?W\<rparr> = [prod_list (map ncols gs)]" by (simp add: sizes)
  have wfW: "wf_tensor \<lparr>shape = [?N], data = ?W\<rparr>" by (simp add: wf_tensor_def length_mm)
  have second: "KP_matmul k1 \<lparr>shape = [?N], data = ?W\<rparr>
                = Inr \<lparr>shape = [?N], data = mm ?N ?N 1 (kron_list (factor_blocks gs 0)) ?W\<rparr>"
    using KP_matmul_vector(2) [OF assms(1) gne gpos shW wfW e] by (simp add: sizes)
  have chain: "list_all2 (\<lambda>g f. ncols g = nrows f) gs fs"
    using sizes(2) len by (simp add: list_all2_conv_all_nth) (metis nth_map)
  have "kron_list (mm_blocks (factor_blocks gs 0) (factor_blocks fs 0))
        = mm (rows_of (factor_blocks gs 0)) (cols_of (factor_blocks gs 0)) (cols_of (factor_blocks fs 0))
            (kron_list (factor_blocks gs 0)) (kron_list (factor_blocks fs 0))"
    using chain by (intro kron_list_mm_blocks list_all2_factor_blocks)
  moreover have "mm_blocks (factor_blocks gs 0) (factor_blocks fs 0)
          = map (\<lambda>n. (n, n, identity n)) (map nrows fs)"
    using assms(5) by (rule mm_blocks_inverse) (simp add: fpos)
  ultimately have kr: "mm ?N ?N ?N (kron_list (factor_blocks gs 0)) (kron_list (factor_blocks fs 0))
                       = identity ?N"
    by (simp add: rows_of_factor_blocks cols_of_factor_blocks sizes kron_list_identity del: map_map)
  have lenv: "length (data v) = ?N * 1" using assms(6,7) by (simp add: wf_tensor_def sizes)
  have "mm ?N ?N 1 (kron_list (factor_blocks gs 0)) ?W
        = mm ?N ?N 1 (mm ?N ?N ?N (kron_list (factor_blocks gs 0)) (kron_list (factor_blocks fs 0))) (data v)"
    by (rule mm_assoc)
  also have "\<dots> = data v" unfolding kr using lenv by (rule mm_identity)
  finally have d: "mm ?N ?N 1 (kron_list (factor_blocks gs 0)) ?W = data v" .
  have "\<lparr>shape = [?N], data = data v\<rparr> = v" using assms(6) by (intro tensor_eq) (simp add: sizes)
  then show ?thesis by (simp only: first second sum.case d)
qed

text \<open>
  C7 (as amended). Let \<open>inv_f\<close> return, for every factor, an operator that is its two-sided inverse
  (of the same batch shape and kind). Then \<open>inverse()\<close> returns a composite of the same
  class (and the same \<open>upper\<close> flag) whose factors are the inverses of the factors, in
  the same order, and multiplying by the composite and then by its inverse gives back
  \<open>v\<close>: for a right-hand side of shape \<open>(..., n, m)\<close> whose batch shape already contains
  that of the composite, and for a 1-D vector when the composite has no batch dimension.
  A 1-D vector is not recovered when the composite has batch dimensions.
\<close>

theorem inverse_identity:
  assumes "lazy_tensors k = lts" and "lts \<noteq> []"
    and "\<forall>lt \<in> set lts. 0 < nrows lt \<and> batch_shape lt = kb"
    and "case k of KP fs \<Rightarrow> True | KPT fs u \<Rightarrow> list_all triangular fs"
    and "map_err inv_f lts = Inr gs" and "list_all2 inverse_of gs lts" and "wf_tensor v"
  shows "KP_inverse inv_f k = Inr (with_factors k gs)
       \<and> (shape v = rb @ [prod_list (map ncols lts), m] \<and> 0 < m \<and> (\<forall>n \<in> set rb. 0 < n)
            \<and> mul_broadcast_shape kb rb = Inr rb
          \<longrightarrow> (case KP_matmul k v of Inl e \<Rightarrow> Inl e | Inr w \<Rightarrow> KP_matmul (with_factors k gs) w) = Inr v)
       \<and> (shape v = [prod_list (map ncols lts)] \<and> kb = []
          \<longrightarrow> (case KP_matmul k v of Inl e \<Rightarrow> Inl e | Inr w \<Rightarrow> KP_matmul (with_factors k gs) w) = Inr v)"
proof (intro conjI impI)
  show "KP_inverse inv_f k = Inr (with_factors k gs)"
  proof (rule KP_inverse_ok [where kb = kb])
    show "\<forall>lt \<in> set lts. batch_shape lt = kb" using assms(3) by simp
  qed (rule assms)+
next
  assume h: "shape v = rb @ [prod_list (map ncols lts), m] \<and> 0 < m \<and> (\<forall>n \<in> set rb. 0 < n)
            \<and> mul_broadcast_shape kb rb = Inr rb"
  show "(case KP_matmul k v of Inl e \<Rightarrow> Inl e | Inr w \<Rightarrow> KP_matmul (with_factors k gs) w) = Inr v"
  proof (rule KP_matmul_inverse_matrix [where rb = rb and m = m and kb = kb])
    show "shape v = rb @ [prod_list (map ncols lts), m]" "mul_broadcast_shape kb rb = Inr rb"
      "\<forall>n \<in> set rb. 0 < n" "0 < m" using h by simp_all
  qed (rule lazy_tensors_with_factors assms)+
next
  assume h: "shape v = [prod_list (map ncols lts)] \<and> kb = []"
  show "(case KP_matmul k v of Inl e \<Rightarrow> Inl e | Inr w \<Rightarrow> KP_matmul (with_factors k gs) w) = Inr v"
    using lazy_tensors_with_factors assms(1,2) _ assms(6) _ assms(7)
    by (rule KP_matmul_inverse_vector) (use assms(3) h in simp_all)
qed

theorem inverse_identity_witness:
  "KP_inverse ex_inv (KPT [ex_L, ex_M] False)
     = Inr (KPT [\<lparr>triangular = True, batch_shape = [], nrows = 2, ncols = 2, entries = [1, 0, - 3, 1]\<rparr>,
                 \<lparr>triangular = True, batch_shape = [], nrows = 2, ncols = 2, entries = [1, 0, 2, 1]\<rparr>]
              False)
   \<and> (case KP_matmul (KPT [ex_L, ex_M] False) \<lparr>shape = [4], data = [1, 2, 3, 4]\<rparr> of
        Inl e \<Rightarrow> Inl e
      | Inr w \<Rightarrow> KP_matmul
          (KPT [\<lparr>triangular = True, batch_shape = [], nrows = 2, ncols = 2, entries = [1, 0, - 3, 1]\<rparr>,
                \<lparr>triangular = True, batch_shape = [], nrows = 2, ncols = 2, entries = [1, 0, 2, 1]\<rparr>]
             False) w)
     = Inr \<lparr>shape = [4], data = [1, 2, 3, 4]\<rparr>
   \<and> (case KP_matmul (KPT [ex_L, ex_M] False) \<lparr>shape = [3, 4, 1], data = [1, 2, 3, 4, 5, 6, 7, 8, 9, 10, 11, 12]\<rparr> of
        Inl e \<Rightarrow> Inl e
      | Inr w \<Rightarrow> KP_matmul
          (KPT [\<lparr>triangular = True, batch_shape = [], nrows = 2, ncols = 2, entries = [1, 0, - 3, 1]\<rparr>,
                \<lparr>triangular = True, batch_shape = [], nrows = 2, ncols = 2, entries = [1, 0, 2, 1]\<rparr>]
             False) w)
     = Inr \<lparr>shape = [3, 4, 1], data = [1, 2, 3, 4, 5, 6, 7, 8, 9, 10, 11, 12]\<rparr>"
proof -
  let ?gs = "[\<lparr>triangular = True, batch_shape = [], nrows = 2, ncols = 2, entries = [1, 0, - 3, 1 :: int]\<rparr>,
              \<lparr>triangular = True, batch_shape = [], nrows = 2, ncols = 2, entries = [1, 0, 2, 1]\<rparr>]"
  have a1: "lazy_tensors (KPT [ex_L, ex_M] False) = [ex_L, ex_M]" and a2: "[ex_L, ex_M] \<noteq> []"
    by simp_all
  have a3: "\<forall>lt \<in> set [ex_L, ex_M]. 0 < nrows lt \<and> batch_shape lt = []"
    by (simp add: ex_L_def ex_M_def)
  have a4: "case KPT [ex_L, ex_M] False of KP fs \<Rightarrow> True | KPT fs u \<Rightarrow> list_all triangular fs"
    by (simp add: ex_L_def ex_M_def)
  have a5: "map_err ex_inv [ex_L, ex_M] = Inr ?gs" by (simp add: ex_inv_def ex_L_def ex_M_def)
  have a6: "list_all2 inverse_of ?gs [ex_L, ex_M]" by code_simp
  have a7: "wf_tensor \<lparr>shape = [4], data = [1, 2, 3, 4 :: int]\<rparr>" by (simp add: wf_tensor_def)
  have a8: "shape \<lparr>shape = [4], data = [1, 2, 3, 4 :: int]\<rparr> = [prod_list (map ncols [ex_L, ex_M])]
            \<and> ([] :: nat list) = []"
    by (simp add: ex_L_def ex_M_def)
  have b7: "wf_tensor \<lparr>shape = [3, 4, 1], data = [1, 2, 3, 4, 5, 6, 7, 8, 9, 10, 11, 12 :: int]\<rparr>"
    by (simp add: wf_tensor_def)
  have b8: "shape \<lparr>shape = [3, 4, 1], data = [1, 2, 3, 4, 5, 6, 7, 8, 9, 10, 11, 12 :: int]\<rparr>
              = [3] @ [prod_list (map ncols [ex_L, ex_M]), 1]
            \<and> 0 < (1 :: nat) \<and> (\<forall>n \<in> set [3 :: nat]. 0 < n) \<and> mul_broadcast_shape [] [3] = Inr [3]"
    by (simp add: ex_L_def ex_M_def mul_broadcast_shape_def)
  have w: "with_factors (KPT [ex_L, ex_M] False) ?gs = KPT ?gs False" by simp
  note A = inverse_identity [OF a1 a2 a3 a4 a5 a6 a7, unfolded w]
  note B = inverse_identity [OF a1 a2 a3 a4 a5 a6 b7, unfolded w]
  from A have "KP_inverse ex_inv (KPT [ex_L, ex_M] False) = Inr (KPT ?gs False)" by (rule conjunct1)
  moreover from A a8
  have "(case KP_matmul (KPT [ex_L, ex_M] False) \<lparr>shape = [4], data = [1, 2, 3, 4]\<rparr> of
           Inl e \<Rightarrow> Inl e | Inr w \<Rightarrow> KP_matmul (KPT ?gs False) w)
        = Inr \<lparr>shape = [4], data = [1, 2, 3, 4]\<rparr>" by blast
  moreover from B b8
  have "(case KP_matmul (KPT [ex_L, ex_M] False)
                \<lparr>shape = [3, 4, 1], data = [1, 2, 3, 4, 5, 6, 7, 8, 9, 10, 11, 12]\<rparr> of
           Inl e \<Rightarrow> Inl e | Inr w \<Rightarrow> KP_matmul (KPT ?gs False) w)
        = Inr \<lparr>shape = [3, 4, 1], data = [1, 2, 3, 4, 5, 6, 7, 8, 9, 10, 11, 12]\<rparr>" by blast
  ultimately show ?thesis by blast
qed

text \<open>
  The claim as stated fails for a 1-D vector and a composite with batch dimensions:
  \<open>_matmul\<close> returns a tensor of shape \<open>(batch, rows)\<close>, which the \<open>_matmul\<close> of the
  inverse takes for a matrix with \<open>rows\<close> columns. With the batched factor \<open>ex_R\<close>, whose
  inverse is computed exactly, the vector \<open>(1, 2)\<close> comes back as a tensor of shape
  \<open>(2, 2, 2)\<close>.
\<close>

theorem inverse_identity_counterexample:
  "KP_inverse ex_binv (KP [ex_R])
     = Inr (KP [\<lparr>triangular = False, batch_shape = [2], nrows = 2, ncols = 2,
                  entries = [1, 0, - 3, 1, 1, 0, 2, 1]\<rparr>])
   \<and> inverse_of \<lparr>triangular = False, batch_shape = [2], nrows = 2, ncols = 2,
                  entries = [1, 0, - 3, 1, 1, 0, 2, 1]\<rparr> ex_R
   \<and> KP_matmul (KP [ex_R]) \<lparr>shape = [2], data = [1, 2 :: int]\<rparr> = Inr \<lparr>shape = [2, 2], data = [1, 5, 1, 0]\<rparr>
   \<and> KP_matmul (KP [\<lparr>triangular = False, batch_shape = [2], nrows = 2, ncols = 2,
                       entries = [1, 0, - 3, 1, 1, 0, 2, 1]\<rparr>])
        \<lparr>shape = [2, 2], data = [1, 5, 1, 0 :: int]\<rparr>
     = Inr \<lparr>shape = [2, 2, 2], data = [1, 5, - 2, - 15, 1, 5, 3, 10]\<rparr>"
  by code_simp

section \<open>The separable solve\<close>

lemma map_err_Cons_Inr:
  assumes "map_err f (x # xs) = Inr ys"
  obtains y ys' where "ys = y # ys'" and "f x = Inr y" and "map_err f xs = Inr ys'"
  using assms by (auto split: sum.splits)

lemma inv_matmul_loop_blocks:
  assumes "list_all2 inverse_of gs lts" and "map_err inv_f lts = Inr gs"
    and "\<forall>lt \<in> set lts. 0 < nrows lt \<and> batch_shape lt = kb"
    and "mul_broadcast_shape kb ob = Inr ob" and "0 < prod_list ob" and "0 < m" and "0 < P"
    and "prod_list dims = prod_list (map ncols lts) * P * m"
    and "n_rows = prod_list (map ncols lts) * P"
    and "\<forall>b<prod_list ob. length (X b) = prod_list (map ncols lts) * P * m"
  shows "\<exists>dims'. inv_matmul_loop inv_f (zip (map ncols lts) lts) ob n_rows
                    \<lparr>shape = ob @ dims, data = concat (map X [0..<prod_list ob])\<rparr>
                  = Inr \<lparr>shape = ob @ dims',
                         data = concat (map (\<lambda>b. sweep (factor_blocks gs (bidx ob kb b)) P m (X b))
                                          [0..<prod_list ob])\<rparr>
                \<and> prod_list dims' = P * prod_list (map nrows gs) * m"
  using assms(1,2,3,7,8,9,10)
proof (induction gs lts arbitrary: P X dims rule: list_all2_induct)
  case Nil
  then show ?case by (simp add: factor_blocks_def)
next
  case (Cons g gs lt lts)
  let ?B = "prod_list ob"
  let ?n = "nrows lt"
  let ?C = "prod_list (map ncols lts)" and ?R = "prod_list (map nrows gs)"
  let ?Q = "?C * P"
  let ?D = "concat (map X [0..<?B])"
  let ?F = "\<lambda>b. block (?n * ?n) (entries g) (bidx ob kb b)"
  let ?M = "\<lambda>b. mm ?n ?n (?Q * m) (?F b) (X b)"
  let ?Y = "\<lambda>b. tr3 ?n ?Q m (?M b)"
  have sz: "ncols lt = ?n" "nrows g = ?n" "ncols g = ?n" "batch_shape g = batch_shape lt"
    using Cons.hyps(1) by (simp_all add: inverse_of_def)
  have npos: "0 < ?n" and kb: "batch_shape lt = kb" using Cons.prems(2) by simp_all
  have rest: "\<forall>lt \<in> set lts. 0 < nrows lt \<and> batch_shape lt = kb" using Cons.prems(2) by simp
  have cols: "map ncols lts = map nrows lts" "map nrows gs = map nrows lts" "map ncols gs = map nrows lts"
    using inverse_of_sizes [OF Cons.hyps(2)] by simp_all
  have Cpos: "0 < ?C"
    unfolding cols(1) using rest by (intro prod_list_pos) simp
  have Qpos: "0 < ?Q" using Cpos Cons.prems(3) by simp
  from Cons.prems(1) obtain inv: "inv_f lt = Inr g" and merr: "map_err inv_f lts = Inr gs"
    by (auto split: sum.splits)
  have lenX: "\<forall>b<?B. length (X b) = ?n * (?Q * m)" using Cons.prems(6) by (simp add: sz mult_ac)
  have v1: "reshape \<lparr>shape = ob @ dims, data = ?D\<rparr> (map int ob @ [int ?n, - 1])
            = Inr \<lparr>shape = ob @ [?n, ?Q * m], data = ?D\<rparr>"
    unfolding reshape_def using assms(5) npos Cons.prems(4) by (intro view_2) (simp_all add: sz mult_ac)
  have ev: "evaluate g = \<lparr>shape = kb @ [?n, ?n], data = entries g\<rparr>"
    by (simp add: evaluate_def sz kb)
  have m1: "lt_inv_matmul inv_f lt \<lparr>shape = ob @ [?n, ?Q * m], data = ?D\<rparr>
            = Inr \<lparr>shape = ob @ [?n, ?Q * m], data = concat (map ?M [0..<?B])\<rparr>"
    unfolding lt_inv_matmul_def inv sum.case lt_matmul_def ev using assms(4) lenX by (rule matmul_blocks)
  have dv: "n_rows div ?n = ?Q" using Cons.prems(5) npos by (simp add: sz mult.assoc)
  have v3: "reshape \<lparr>shape = ob @ [?n, ?Q * m], data = concat (map ?M [0..<?B])\<rparr>
              (map int ob @ [int ?n, int (n_rows div ?n), - 1])
            = Inr \<lparr>shape = ob @ [?n, ?Q, m], data = concat (map ?M [0..<?B])\<rparr>"
    unfolding reshape_def dv using assms(5) npos Qpos by (intro view_4) (simp_all add: mult_ac)
  have t4: "transpose32 \<lparr>shape = ob @ [?n, ?Q, m], data = concat (map ?M [0..<?B])\<rparr>
            = Inr \<lparr>shape = ob @ [?Q, ?n, m], data = concat (map ?Y [0..<?B])\<rparr>"
    by (rule transpose32_blocks) (simp add: length_mm mult_ac)
  have "\<exists>dims'. inv_matmul_loop inv_f (zip (map ncols lts) lts) ob n_rows
                    \<lparr>shape = ob @ [?Q, ?n, m], data = concat (map ?Y [0..<?B])\<rparr>
                  = Inr \<lparr>shape = ob @ dims',
                         data = concat (map (\<lambda>b. sweep (factor_blocks gs (bidx ob kb b)) (P * ?n) m (?Y b))
                                          [0..<?B])\<rparr>
                \<and> prod_list dims' = P * ?n * ?R * m"
    using merr rest Cons.prems(3) npos Cons.prems(5)
    by (intro Cons.IH) (simp_all add: sz length_tr3 mult_ac)
  then obtain dims' where
    IH: "inv_matmul_loop inv_f (zip (map ncols lts) lts) ob n_rows
                    \<lparr>shape = ob @ [?Q, ?n, m], data = concat (map ?Y [0..<?B])\<rparr>
                  = Inr \<lparr>shape = ob @ dims',
                         data = concat (map (\<lambda>b. sweep (factor_blocks gs (bidx ob kb b)) (P * ?n) m (?Y b))
                                          [0..<?B])\<rparr>"
    and pd: "prod_list dims' = P * ?n * ?R * m" by blast
  have sw: "sweep (factor_blocks (g # gs) (bidx ob kb b)) P m (X b)
            = sweep (factor_blocks gs (bidx ob kb b)) (P * ?n) m (?Y b)" for b
    by (simp add: factor_blocks_def comp_def sz cols)
  have nz: "?n \<noteq> 0" using npos by simp
  have "inv_matmul_loop inv_f (zip (map ncols (lt # lts)) (lt # lts)) ob n_rows
          \<lparr>shape = ob @ dims, data = ?D\<rparr>
        = Inr \<lparr>shape = ob @ dims',
               data = concat (map (\<lambda>b. sweep (factor_blocks (g # gs) (bidx ob kb b)) P m (X b))
                                [0..<?B])\<rparr>"
    unfolding sw by (simp add: sz v1 m1 nz v3 t4 IH)
  moreover have "prod_list dims' = P * prod_list (map nrows (g # gs)) * m"
    by (simp add: pd sz mult_ac)
  ultimately show ?case by blast
qed

lemma KP_inv_matmul_sep_blocks:
  assumes "lazy_tensors k = lts" and "lts \<noteq> []"
    and "\<forall>lt \<in> set lts. 0 < nrows lt \<and> batch_shape lt = kb"
    and "list_all2 inverse_of gs lts" and "map_err inv_f lts = Inr gs"
    and "shape rhs = rb @ [prod_list (map ncols lts), m]" and "wf_tensor rhs"
    and "mul_broadcast_shape kb rb = Inr ob" and "\<forall>n \<in> set ob. 0 < n" and "0 < m"
  shows "KP_inv_matmul_sep inv_f k rhs None
         = Inr \<lparr>shape = ob @ [prod_list (map ncols lts), m],
                data = concat (map (\<lambda>b. mm (prod_list (map nrows gs)) (prod_list (map ncols gs)) m
                                          (kron_list (factor_blocks gs (bidx ob kb b)))
                                          (block (prod_list (map ncols lts) * m) (data rhs) (bidx ob rb b)))
                                 [0..<prod_list ob])\<rparr>"
proof -
  let ?N = "prod_list (map ncols lts)"
  let ?B = "prod_list ob"
  let ?X = "\<lambda>b. block (?N * m) (data rhs) (bidx ob rb b)"
  have sizes: "map nrows gs = map nrows lts" "map ncols gs = map nrows lts" "map ncols lts = map nrows lts"
    using inverse_of_sizes [OF assms(4)] by simp_all
  have hd: "batch_shape (hd lts) = kb" using assms(2,3) by (cases lts) auto
  have sz: "size_kp k = Inr (kb @ [prod_list (map nrows lts), ?N])"
    using assms(1,2) hd by (rule size_kp_eq)
  have Bpos: "0 < ?B" using assms(9) by (rule prod_list_pos_all)
  have ex: "expandable_rev (rev rb) (rev ob)"
    using mul_broadcast_shape_expandable(2) [OF assms(8)] .
  have idem: "mul_broadcast_shape kb ob = Inr ob" using assms(8) by (rule mul_broadcast_shape_idem)
  have len: "length (data rhs) = prod_list rb * (?N * m)"
    using assms(6,7) by (simp add: wf_tensor_def)
  have lenX: "\<forall>b<?B. length (?X b) = ?N * 1 * m"
  proof (intro allI impI)
    fix b
    have "bidx ob rb b < prod_list rb" using ex assms(9) by (rule bidx_less)
    with len have "length (?X b) = ?N * m" by (rule length_block_wf)
    then show "length (?X b) = ?N * 1 * m" by simp
  qed
  have sn: "shape_neg (shape rhs) 2 = Inr ?N" by (simp add: assms(6) shape_neg_append2)
  have eb: "expand_batch rhs ob = Inr \<lparr>shape = ob @ [?N, m], data = concat (map ?X [0..<?B])\<rparr>"
    using assms(6) ex by (rule expand_batch_blocks)
  have "\<exists>dims'. inv_matmul_loop inv_f (zip (map ncols lts) lts) ob ?N
                    \<lparr>shape = ob @ [?N, m], data = concat (map ?X [0..<?B])\<rparr>
                  = Inr \<lparr>shape = ob @ dims',
                         data = concat (map (\<lambda>b. sweep (factor_blocks gs (bidx ob kb b)) 1 m (?X b))
                                          [0..<?B])\<rparr>
                \<and> prod_list dims' = 1 * prod_list (map nrows gs) * m"
    using assms(4,5,3) idem Bpos assms(10) _ _ _ lenX
    by (rule inv_matmul_loop_blocks) simp_all
  then obtain dims' where
    loop0: "inv_matmul_loop inv_f (zip (map ncols lts) lts) ob ?N
                    \<lparr>shape = ob @ [?N, m], data = concat (map ?X [0..<?B])\<rparr>
                  = Inr \<lparr>shape = ob @ dims',
                         data = concat (map (\<lambda>b. sweep (factor_blocks gs (bidx ob kb b)) 1 m (?X b))
                                          [0..<?B])\<rparr>"
    and pd: "prod_list dims' = ?N * m" by (auto simp: sizes)
  define S where "S = concat (map (\<lambda>b. sweep (factor_blocks gs (bidx ob kb b)) 1 m (?X b)) [0..<?B])"
  have loop: "inv_matmul_loop inv_f (zip (map ncols lts) lts) ob ?N
                    \<lparr>shape = ob @ [?N, m], data = concat (map ?X [0..<?B])\<rparr>
                  = Inr \<lparr>shape = ob @ dims', data = S\<rparr>"
    unfolding S_def by (rule loop0)
  have v: "reshape \<lparr>shape = ob @ dims', data = S\<rparr> (map int ob @ [int ?N, - 1])
           = Inr \<lparr>shape = ob @ [?N, m], data = S\<rparr>"
  proof -
    have "0 < ?N" unfolding sizes(3) using assms(3) by (intro prod_list_pos) simp
    then show ?thesis
      unfolding reshape_def using Bpos by (intro view_2) (simp_all add: pd mult_ac)
  qed
  have d: "S = concat (map (\<lambda>b. mm (prod_list (map nrows gs)) (prod_list (map ncols gs)) m
                             (kron_list (factor_blocks gs (bidx ob kb b))) (?X b)) [0..<?B])"
    unfolding S_def
  proof (rule concat_map_upt_cong)
    fix b assume "b < ?B"
    then have "length (?X b) = cols_of (factor_blocks gs (bidx ob kb b)) * m"
      using lenX by (simp add: cols_of_factor_blocks sizes)
    then have "sweep (factor_blocks gs (bidx ob kb b)) 1 m (?X b)
          = mm (rows_of (factor_blocks gs (bidx ob kb b))) (cols_of (factor_blocks gs (bidx ob kb b))) m
               (kron_list (factor_blocks gs (bidx ob kb b))) (?X b)"
      by (rule sweep_eq_mm)
    then show "sweep (factor_blocks gs (bidx ob kb b)) 1 m (?X b)
          = mm (prod_list (map nrows gs)) (prod_list (map ncols gs)) m
               (kron_list (factor_blocks gs (bidx ob kb b))) (?X b)"
      by (simp add: rows_of_factor_blocks cols_of_factor_blocks)
  qed
  have "KP_inv_matmul_sep inv_f k rhs None = Inr \<lparr>shape = ob @ [?N, m], data = S\<rparr>"
    by (simp add: KP_inv_matmul_sep_def Let_def assms(1,6,8) shape_neg_append2 sz eb [unfolded assms(6)]
        loop v)
  then show ?thesis by (simp only: d)
qed

lemma KP_inv_matmul_sep_eq_matmul:
  assumes "lazy_tensors k = lts" and "lts \<noteq> []"
    and "\<forall>lt \<in> set lts. 0 < nrows lt \<and> batch_shape lt = kb"
    and "list_all2 inverse_of gs lts" and "map_err inv_f lts = Inr gs"
    and "shape rhs = rb @ [prod_list (map ncols lts), m]" and "wf_tensor rhs"
    and "mul_broadcast_shape kb rb = Inr ob" and "\<forall>n \<in> set ob. 0 < n" and "0 < m"
  shows "KP_inv_matmul_sep inv_f k rhs None = KP_matmul (with_factors k gs) rhs"
proof -
  have sizes: "map nrows gs = map nrows lts" "map ncols gs = map nrows lts" "map ncols lts = map nrows lts"
    "map batch_shape gs = map batch_shape lts"
    using inverse_of_sizes [OF assms(4)] by simp_all
  have len: "length gs = length lts" using sizes(1) by (metis length_map)
  then have gne: "gs \<noteq> []" using assms(2) by auto
  have gpos: "\<forall>lt \<in> set gs. 0 < nrows lt \<and> 0 < ncols lt \<and> batch_shape lt = kb"
  proof
    fix lt assume "lt \<in> set gs"
    then obtain i where i: "i < length gs" "gs ! i = lt" by (auto simp: in_set_conv_nth)
    then have "nrows lt = nrows (lts ! i)" "ncols lt = nrows (lts ! i)"
      "batch_shape lt = batch_shape (lts ! i)"
      using sizes len by (metis nth_map)+
    moreover have "lts ! i \<in> set lts" using i(1) len by simp
    ultimately show "0 < nrows lt \<and> 0 < ncols lt \<and> batch_shape lt = kb" using assms(3) by simp
  qed
  have sh: "shape rhs = rb @ [prod_list (map ncols gs), m]" using assms(6) by (simp add: sizes)
  have "KP_matmul (with_factors k gs) rhs
        = Inr \<lparr>shape = ob @ [prod_list (map nrows gs), m],
               data = concat (map (\<lambda>b. mm (prod_list (map nrows gs)) (prod_list (map ncols gs)) m
                                          (kron_list (factor_blocks gs (bidx ob kb b)))
                                          (block (prod_list (map ncols gs) * m) (data rhs) (bidx ob rb b)))
                                 [0..<prod_list ob])\<rparr>"
    using lazy_tensors_with_factors gne gpos sh assms(7,8,9,10) by (rule KP_matmul_matrix)
  then show ?thesis
    by (simp add: KP_inv_matmul_sep_blocks [OF assms] sizes)
qed

lemma solve_recovers_matrix:
  assumes "lazy_tensors k = lts" and "lts \<noteq> []"
    and "\<forall>lt \<in> set lts. 0 < nrows lt \<and> batch_shape lt = kb"
    and "list_all2 inverse_of gs lts" and "map_err inv_f lts = Inr gs"
    and "shape v = rb @ [prod_list (map ncols lts), m]" and "wf_tensor v"
    and "mul_broadcast_shape kb rb = Inr rb" and "\<forall>n \<in> set rb. 0 < n" and "0 < m"
  shows "(case KP_matmul k v of Inl e \<Rightarrow> Inl e | Inr w \<Rightarrow> KP_inv_matmul_sep inv_f k w None) = Inr v"
proof -
  let ?R = "prod_list (map nrows lts)" and ?C = "prod_list (map ncols lts)"
  let ?W = "\<lambda>b. mm ?R ?C m (kron_list (factor_blocks lts (bidx rb kb b)))
                  (block (?C * m) (data v) (bidx rb rb b))"
  let ?w = "\<lparr>shape = rb @ [?R, m], data = concat (map ?W [0..<prod_list rb])\<rparr>"
  have sizes: "map ncols lts = map nrows lts" using inverse_of_sizes(3) [OF assms(4)] .
  have fpos: "\<forall>lt \<in> set lts. 0 < nrows lt \<and> 0 < ncols lt \<and> batch_shape lt = kb"
  proof
    fix lt assume lt: "lt \<in> set lts"
    then obtain i where i: "i < length lts" "lts ! i = lt" by (auto simp: in_set_conv_nth)
    then have "ncols lt = nrows lt" using sizes by (metis nth_map)
    then show "0 < nrows lt \<and> 0 < ncols lt \<and> batch_shape lt = kb" using assms(3) lt by simp
  qed
  have first: "KP_matmul k v = Inr ?w"
    using assms(1,2) fpos assms(6,7,8,9,10) by (rule KP_matmul_matrix)
  have wfw: "wf_tensor ?w" by (rule wf_blocks) (simp add: length_mm)
  have shw: "shape ?w = rb @ [?C, m]" by (simp add: sizes)
  have "KP_inv_matmul_sep inv_f k ?w None = KP_matmul (with_factors k gs) ?w"
    using assms(1,2,3,4,5) shw wfw assms(8,9,10) by (rule KP_inv_matmul_sep_eq_matmul)
  then have "(case KP_matmul k v of Inl e \<Rightarrow> Inl e | Inr w \<Rightarrow> KP_inv_matmul_sep inv_f k w None)
             = (case KP_matmul k v of Inl e \<Rightarrow> Inl e | Inr w \<Rightarrow> KP_matmul (with_factors k gs) w)"
    by (simp only: first sum.case)
  also have "\<dots> = Inr v"
    using lazy_tensors_with_factors assms(1,2,3,4,6,7,8,9,10) by (rule KP_matmul_inverse_matrix)
  finally show ?thesis .
qed

lemma KP_inv_matmul_sep_vector:
  "length (shape right_tensor) < 2 \<Longrightarrow> KP_inv_matmul_sep inv_f k right_tensor left_tensor = Inl IndexError"
  by (simp add: KP_inv_matmul_sep_def shape_neg_def)

text \<open>
  C3 (as amended). Let \<open>inv_f\<close> return the two-sided inverse of every factor. For a
  right-hand side \<open>v\<close> of at least two dimensions, of shape \<open>(..., n, m)\<close> with a batch
  shape that contains that of the composite, the separable per-factor sweep
  \<open>_inv_matmul\<close> applied to \<open>_matmul(v)\<close> returns \<open>v\<close>. \<open>inv_matmul\<close> of the triangular
  class is always this sweep, whatever the base class does; \<open>inv_matmul\<close> of the general
  class is the \<open>inv_matmul\<close> of the base class. The sweep reads \<open>size(-2)\<close> of its
  argument, so that a tensor of fewer than two dimensions, such as a 1-D vector, raises
  \<open>IndexError\<close>.
\<close>

theorem separable_solve:
  assumes "lazy_tensors k = lts" and "lts \<noteq> []"
    and "\<forall>lt \<in> set lts. 0 < nrows lt \<and> batch_shape lt = kb"
    and "list_all2 inverse_of gs lts" and "map_err inv_f lts = Inr gs" and "wf_tensor v"
  shows "KP_inv_matmul base_inv_matmul inv_f (KPT fs u) r l = KP_inv_matmul_sep inv_f (KPT fs u) r l
       \<and> KP_inv_matmul base_inv_matmul inv_f (KP fs) r l = base_inv_matmul (KP fs) r l
       \<and> (shape v = rb @ [prod_list (map ncols lts), m] \<and> 0 < m \<and> (\<forall>n \<in> set rb. 0 < n)
            \<and> mul_broadcast_shape kb rb = Inr rb
          \<longrightarrow> (case KP_matmul k v of Inl e \<Rightarrow> Inl e | Inr w \<Rightarrow> KP_inv_matmul_sep inv_f k w None) = Inr v)
       \<and> (length (shape r) < 2 \<longrightarrow> KP_inv_matmul_sep inv_f k r l = Inl IndexError)"
proof (intro conjI impI)
  assume h: "shape v = rb @ [prod_list (map ncols lts), m] \<and> 0 < m \<and> (\<forall>n \<in> set rb. 0 < n)
            \<and> mul_broadcast_shape kb rb = Inr rb"
  show "(case KP_matmul k v of Inl e \<Rightarrow> Inl e | Inr w \<Rightarrow> KP_inv_matmul_sep inv_f k w None) = Inr v"
  proof (rule solve_recovers_matrix [where rb = rb and m = m and kb = kb])
    show "shape v = rb @ [prod_list (map ncols lts), m]" "mul_broadcast_shape kb rb = Inr rb"
      "\<forall>n \<in> set rb. 0 < n" "0 < m" using h by simp_all
  qed (rule assms)+
qed (simp_all add: KP_inv_matmul_sep_vector)

theorem separable_solve_witness:
  "(case KP_matmul (KPT [ex_L, ex_M] False) \<lparr>shape = [4, 1], data = [1, 2, 3, 4]\<rparr> of
      Inl e \<Rightarrow> Inl e
    | Inr w \<Rightarrow> KP_inv_matmul (\<lambda>k r l. Inl RuntimeError) ex_inv (KPT [ex_L, ex_M] False) w None)
   = Inr \<lparr>shape = [4, 1], data = [1, 2, 3, 4]\<rparr>"
proof -
  let ?gs = "[\<lparr>triangular = True, batch_shape = [], nrows = 2, ncols = 2, entries = [1, 0, - 3, 1 :: int]\<rparr>,
              \<lparr>triangular = True, batch_shape = [], nrows = 2, ncols = 2, entries = [1, 0, 2, 1]\<rparr>]"
  have a1: "lazy_tensors (KPT [ex_L, ex_M] False) = [ex_L, ex_M]" and a2: "[ex_L, ex_M] \<noteq> []"
    by simp_all
  have a3: "\<forall>lt \<in> set [ex_L, ex_M]. 0 < nrows lt \<and> batch_shape lt = []"
    by (simp add: ex_L_def ex_M_def)
  have a4: "list_all2 inverse_of ?gs [ex_L, ex_M]" by code_simp
  have a5: "map_err ex_inv [ex_L, ex_M] = Inr ?gs" by (simp add: ex_inv_def ex_L_def ex_M_def)
  have a6: "wf_tensor \<lparr>shape = [4, 1], data = [1, 2, 3, 4 :: int]\<rparr>" by (simp add: wf_tensor_def)
  have a7: "shape \<lparr>shape = [4, 1], data = [1, 2, 3, 4 :: int]\<rparr> = [] @ [prod_list (map ncols [ex_L, ex_M]), 1]
            \<and> 0 < (1 :: nat) \<and> (\<forall>n \<in> set ([] :: nat list). 0 < n) \<and> mul_broadcast_shape [] [] = Inr []"
    by (simp add: ex_L_def ex_M_def mul_broadcast_shape_def)
  note A = separable_solve [OF a1 a2 a3 a4 a5 a6, where fs = "[ex_L, ex_M]" and u = False
      and base_inv_matmul = "\<lambda>k r l. Inl RuntimeError" and l = None]
  from A have r: "KP_inv_matmul (\<lambda>k r l. Inl RuntimeError) ex_inv (KPT [ex_L, ex_M] False) r None
        = KP_inv_matmul_sep ex_inv (KPT [ex_L, ex_M] False) r None" for r by simp
  from A a7 have "(case KP_matmul (KPT [ex_L, ex_M] False) \<lparr>shape = [4, 1], data = [1, 2, 3, 4]\<rparr> of
      Inl e \<Rightarrow> Inl e | Inr w \<Rightarrow> KP_inv_matmul_sep ex_inv (KPT [ex_L, ex_M] False) w None)
      = Inr \<lparr>shape = [4, 1], data = [1, 2, 3, 4]\<rparr>" by blast
  then show ?thesis by (simp only: r)
qed

text \<open>
  The claim as stated fails for a 1-D vector: \<open>_matmul\<close> returns a 1-D vector, on which
  the solve of the triangular class raises \<open>IndexError\<close>.
\<close>

theorem separable_solve_counterexample:
  "(case KP_matmul (KPT [ex_L, ex_M] False) \<lparr>shape = [4], data = [1, 2, 3, 4]\<rparr> of
      Inl e \<Rightarrow> Inl e
    | Inr w \<Rightarrow> KP_inv_matmul (\<lambda>k r l. Inl RuntimeError) ex_inv (KPT [ex_L, ex_M] False) w None)
   = Inl IndexError
   \<and> KP_matmul (KPT [ex_L, ex_M] False) \<lparr>shape = [4], data = [1, 2, 3, 4]\<rparr>
     = Inr \<lparr>shape = [4], data = [1, 0, 6, - 2]\<rparr>"
  by code_simp

section \<open>The Cholesky factor of the composite\<close>

lemma KP_matmul_compose_vector:
  assumes "lazy_tensors k1 = gs" and "lazy_tensors k2 = fs" and "fs \<noteq> []"
    and "\<forall>lt \<in> set gs. 0 < nrows lt \<and> 0 < ncols lt \<and> batch_shape lt = []"
    and "\<forall>lt \<in> set fs. 0 < nrows lt \<and> 0 < ncols lt \<and> batch_shape lt = []"
    and "list_all2 (\<lambda>g f. ncols g = nrows f) gs fs"
    and "shape v = [prod_list (map ncols fs)]" and "wf_tensor v"
  shows "(case KP_matmul k2 v of Inl e \<Rightarrow> Inl e | Inr w \<Rightarrow> KP_matmul k1 w)
         = Inr \<lparr>shape = [prod_list (map nrows gs)],
                data = mm (prod_list (map nrows gs)) (prod_list (map ncols fs)) 1
                         (kron_list (mm_blocks (factor_blocks gs 0) (factor_blocks fs 0))) (data v)\<rparr>"
proof -
  let ?R1 = "prod_list (map nrows gs)" and ?C1 = "prod_list (map ncols gs)"
  let ?R2 = "prod_list (map nrows fs)" and ?C2 = "prod_list (map ncols fs)"
  have len: "length gs = length fs" using assms(6) by (rule list_all2_lengthD)
  then have gne: "gs \<noteq> []" using assms(3) by auto
  have inner: "?C1 = ?R2" using assms(6) by (induction gs fs rule: list_all2_induct) simp_all
  have e: "\<forall>n \<in> set ([] :: nat list). 0 < n" by simp
  let ?W = "mm ?R2 ?C2 1 (kron_list (factor_blocks fs 0)) (data v)"
  have first: "KP_matmul k2 v = Inr \<lparr>shape = [?R2], data = ?W\<rparr>"
    using KP_matmul_vector(2) [OF assms(2,3,5,7,8) e] by simp
  have shW: "shape \<lparr>shape = [?R2], data = ?W\<rparr> = [?C1]" by (simp add: inner)
  have wfW: "wf_tensor \<lparr>shape = [?R2], data = ?W\<rparr>" by (simp add: wf_tensor_def length_mm)
  have second: "KP_matmul k1 \<lparr>shape = [?R2], data = ?W\<rparr>
                = Inr \<lparr>shape = [?R1], data = mm ?R1 ?C1 1 (kron_list (factor_blocks gs 0)) ?W\<rparr>"
    using KP_matmul_vector(2) [OF assms(1) gne assms(4) shW wfW e] by simp
  have "kron_list (mm_blocks (factor_blocks gs 0) (factor_blocks fs 0))
        = mm (rows_of (factor_blocks gs 0)) (cols_of (factor_blocks gs 0)) (cols_of (factor_blocks fs 0))
            (kron_list (factor_blocks gs 0)) (kron_list (factor_blocks fs 0))"
    using assms(6) by (intro kron_list_mm_blocks list_all2_factor_blocks)
  then have kr: "kron_list (mm_blocks (factor_blocks gs 0) (factor_blocks fs 0))
        = mm ?R1 ?C1 ?C2 (kron_list (factor_blocks gs 0)) (kron_list (factor_blocks fs 0))"
    by (simp add: rows_of_factor_blocks cols_of_factor_blocks)
  have "mm ?R1 ?C1 1 (kron_list (factor_blocks gs 0)) ?W
        = mm ?R1 ?C2 1 (mm ?R1 ?C1 ?C2 (kron_list (factor_blocks gs 0)) (kron_list (factor_blocks fs 0)))
            (data v)"
    unfolding inner [symmetric] by (rule mm_assoc)
  then have d: "mm ?R1 ?C1 1 (kron_list (factor_blocks gs 0)) ?W
        = mm ?R1 ?C2 1 (kron_list (mm_blocks (factor_blocks gs 0) (factor_blocks fs 0))) (data v)"
    by (simp only: kr)
  show ?thesis by (simp only: first second sum.case d)
qed

lemma cholesky_of_sizes:
  assumes "list_all2 (cholesky_of upper) cs lts"
  shows "map nrows cs = map nrows lts" and "map ncols cs = map nrows lts"
    and "map ncols lts = map nrows lts" and "map batch_shape cs = map batch_shape lts"
    and "list_all triangular cs"
  using assms by (induction cs lts rule: list_all2_induct) (simp_all add: cholesky_of_def)

lemma cholesky_of_block:
  assumes "cholesky_of upper c f" and "b < prod_list (batch_shape f)"
  shows "\<not> upper \<Longrightarrow> mm (nrows c) (ncols c) (nrows c) (block (nrows c * ncols c) (entries c) b)
                          (tr2 (nrows c) (ncols c) (block (nrows c * ncols c) (entries c) b))
                        = block (nrows f * ncols f) (entries f) b"
    and "upper \<Longrightarrow> mm (ncols c) (nrows c) (ncols c)
                       (tr2 (nrows c) (ncols c) (block (nrows c * ncols c) (entries c) b))
                       (block (nrows c * ncols c) (entries c) b)
                     = block (nrows f * ncols f) (entries f) b"
  using assms by (auto simp: cholesky_of_def list_all_iff)

lemma mm_blocks_cholesky:
  assumes "list_all2 (cholesky_of upper) cs lts" and "\<forall>lt \<in> set lts. b < prod_list (batch_shape lt)"
  shows "\<not> upper \<Longrightarrow> mm_blocks (factor_blocks cs b) (tr_blocks (factor_blocks cs b)) = factor_blocks lts b"
    and "upper \<Longrightarrow> mm_blocks (tr_blocks (factor_blocks cs b)) (factor_blocks cs b) = factor_blocks lts b"
proof -
  have "(\<not> upper \<longrightarrow> mm_blocks (factor_blocks cs b) (tr_blocks (factor_blocks cs b)) = factor_blocks lts b)
      \<and> (upper \<longrightarrow> mm_blocks (tr_blocks (factor_blocks cs b)) (factor_blocks cs b) = factor_blocks lts b)"
    using assms
  proof (induction cs lts rule: list_all2_induct)
    case Nil
    show ?case by (simp add: factor_blocks_def)
  next
    case (Cons c cs f lts)
    have b: "b < prod_list (batch_shape f)" and rest: "\<forall>lt \<in> set lts. b < prod_list (batch_shape lt)"
      using Cons.prems by simp_all
    have sz: "nrows c = nrows f" "ncols c = nrows f" "ncols f = nrows f"
      using Cons.hyps(1) by (simp_all add: cholesky_of_def)
    have IH: "(\<not> upper \<longrightarrow> mm_blocks (factor_blocks cs b) (tr_blocks (factor_blocks cs b)) = factor_blocks lts b)
      \<and> (upper \<longrightarrow> mm_blocks (tr_blocks (factor_blocks cs b)) (factor_blocks cs b) = factor_blocks lts b)"
      using rest by (rule Cons.IH)
    show ?case
      using IH cholesky_of_block [OF Cons.hyps(1) b]
      by (auto simp: factor_blocks_def sz)
  qed
  then show "\<not> upper \<Longrightarrow> mm_blocks (factor_blocks cs b) (tr_blocks (factor_blocks cs b)) = factor_blocks lts b"
    and "upper \<Longrightarrow> mm_blocks (tr_blocks (factor_blocks cs b)) (factor_blocks cs b) = factor_blocks lts b"
    by simp_all
qed

lemma KP_cholesky_ok:
  assumes "lazy_tensors k = lts" and "\<forall>lt \<in> set lts. batch_shape lt = kb"
    and "map_err (chol_f upper) lts = Inr cs" and "list_all2 (cholesky_of upper) cs lts"
  shows "KP_cholesky chol_f k upper = Inr (KPT cs upper)"
proof -
  have bs: "\<forall>c \<in> set cs. batch_shape c = kb"
  proof
    fix c assume "c \<in> set cs"
    then have "batch_shape c \<in> set (map batch_shape lts)"
      using cholesky_of_sizes(4) [OF assms(4)] by (metis image_eqI set_map)
    then show "batch_shape c = kb" using assms(2) by auto
  qed
  have "new_KPT (map Operator cs) upper = Inr (KPT cs upper)"
    using bs cholesky_of_sizes(5) [OF assms(4)] by (rule new_KPT_ok)
  then show ?thesis by (simp add: KP_cholesky_def assms(1,3))
qed

lemma KP_matmul_product_matrix:
  assumes "lazy_tensors k1 = gs" and "lazy_tensors k2 = fs" and "lazy_tensors k = lts" and "lts \<noteq> []"
    and "\<forall>lt \<in> set gs. 0 < nrows lt \<and> 0 < ncols lt \<and> batch_shape lt = kb"
    and "\<forall>lt \<in> set fs. 0 < nrows lt \<and> 0 < ncols lt \<and> batch_shape lt = kb"
    and "\<forall>lt \<in> set lts. 0 < nrows lt \<and> 0 < ncols lt \<and> batch_shape lt = kb"
    and "list_all2 (\<lambda>g f. ncols g = nrows f) gs fs"
    and "map nrows gs = map nrows lts" and "map ncols fs = map ncols lts"
    and "\<And>\<beta>. \<beta> < prod_list kb \<Longrightarrow>
           mm_blocks (factor_blocks gs \<beta>) (factor_blocks fs \<beta>) = factor_blocks lts \<beta>"
    and "shape v = rb @ [prod_list (map ncols lts), m]" and "wf_tensor v"
    and "mul_broadcast_shape kb rb = Inr ob" and "\<forall>n \<in> set ob. 0 < n" and "0 < m"
  shows "(case KP_matmul k2 v of Inl e \<Rightarrow> Inl e | Inr w \<Rightarrow> KP_matmul k1 w) = KP_matmul k v"
proof -
  have "length fs = length lts" using arg_cong [OF assms(10), of length] by simp
  then have fne: "fs \<noteq> []" using assms(4) by auto
  have sh: "shape v = rb @ [prod_list (map ncols fs), m]" using assms(12) by (simp only: assms(10))
  have ex: "expandable_rev (rev kb) (rev ob)"
    using mul_broadcast_shape_expandable(1) [OF assms(14)] .
  have c: "(case KP_matmul k2 v of Inl e \<Rightarrow> Inl e | Inr w \<Rightarrow> KP_matmul k1 w)
         = Inr \<lparr>shape = ob @ [prod_list (map nrows gs), m],
                data = concat (map (\<lambda>b. mm (prod_list (map nrows gs)) (prod_list (map ncols fs)) m
                                          (kron_list (mm_blocks (factor_blocks gs (bidx ob kb b))
                                                                (factor_blocks fs (bidx ob kb b))))
                                          (block (prod_list (map ncols fs) * m) (data v) (bidx ob rb b)))
                                 [0..<prod_list ob])\<rparr>"
    using assms(1,2) fne assms(5,6,8) sh assms(13,14,15,16) by (rule KP_matmul_compose)
  have d: "KP_matmul k v
         = Inr \<lparr>shape = ob @ [prod_list (map nrows lts), m],
                data = concat (map (\<lambda>b. mm (prod_list (map nrows lts)) (prod_list (map ncols lts)) m
                                          (kron_list (factor_blocks lts (bidx ob kb b)))
                                          (block (prod_list (map ncols lts) * m) (data v) (bidx ob rb b)))
                                 [0..<prod_list ob])\<rparr>"
    using assms(3,4,7,12,13,14,15,16) by (rule KP_matmul_matrix)
  have e: "concat (map (\<lambda>b. mm (prod_list (map nrows gs)) (prod_list (map ncols fs)) m
                                          (kron_list (mm_blocks (factor_blocks gs (bidx ob kb b))
                                                                (factor_blocks fs (bidx ob kb b))))
                                          (block (prod_list (map ncols fs) * m) (data v) (bidx ob rb b)))
                                 [0..<prod_list ob])
         = concat (map (\<lambda>b. mm (prod_list (map nrows lts)) (prod_list (map ncols lts)) m
                                          (kron_list (factor_blocks lts (bidx ob kb b)))
                                          (block (prod_list (map ncols lts) * m) (data v) (bidx ob rb b)))
                                 [0..<prod_list ob])"
  proof (rule concat_map_upt_cong)
    fix b assume "b < prod_list ob"
    have "bidx ob kb b < prod_list kb" using ex assms(15) by (rule bidx_less)
    then have "mm_blocks (factor_blocks gs (bidx ob kb b)) (factor_blocks fs (bidx ob kb b))
               = factor_blocks lts (bidx ob kb b)" by (rule assms(11))
    then show "mm (prod_list (map nrows gs)) (prod_list (map ncols fs)) m
                 (kron_list (mm_blocks (factor_blocks gs (bidx ob kb b)) (factor_blocks fs (bidx ob kb b))))
                 (block (prod_list (map ncols fs) * m) (data v) (bidx ob rb b))
             = mm (prod_list (map nrows lts)) (prod_list (map ncols lts)) m
                 (kron_list (factor_blocks lts (bidx ob kb b)))
                 (block (prod_list (map ncols lts) * m) (data v) (bidx ob rb b))"
      by (simp only: assms(9,10))
  qed
  show ?thesis by (simp only: c d e) (simp only: assms(9))
qed

lemma KP_matmul_product_vector:
  assumes "lazy_tensors k1 = gs" and "lazy_tensors k2 = fs" and "lazy_tensors k = lts" and "lts \<noteq> []"
    and "\<forall>lt \<in> set gs. 0 < nrows lt \<and> 0 < ncols lt \<and> batch_shape lt = []"
    and "\<forall>lt \<in> set fs. 0 < nrows lt \<and> 0 < ncols lt \<and> batch_shape lt = []"
    and "\<forall>lt \<in> set lts. 0 < nrows lt \<and> 0 < ncols lt \<and> batch_shape lt = []"
    and "list_all2 (\<lambda>g f. ncols g = nrows f) gs fs"
    and "map nrows gs = map nrows lts" and "map ncols fs = map ncols lts"
    and "mm_blocks (factor_blocks gs 0) (factor_blocks fs 0) = factor_blocks lts 0"
    and "shape v = [prod_list (map ncols lts)]" and "wf_tensor v"
  shows "(case KP_matmul k2 v of Inl e \<Rightarrow> Inl e | Inr w \<Rightarrow> KP_matmul k1 w) = KP_matmul k v"
proof -
  have "length fs = length lts" using arg_cong [OF assms(10), of length] by simp
  then have fne: "fs \<noteq> []" using assms(4) by auto
  have sh: "shape v = [prod_list (map ncols fs)]" using assms(12) by (simp only: assms(10))
  have e: "\<forall>n \<in> set ([] :: nat list). 0 < n" by simp
  have c: "(case KP_matmul k2 v of Inl e \<Rightarrow> Inl e | Inr w \<Rightarrow> KP_matmul k1 w)
         = Inr \<lparr>shape = [prod_list (map nrows gs)],
                data = mm (prod_list (map nrows gs)) (prod_list (map ncols fs)) 1
                         (kron_list (mm_blocks (factor_blocks gs 0) (factor_blocks fs 0))) (data v)\<rparr>"
    using assms(1,2) fne assms(5,6,8) sh assms(13) by (rule KP_matmul_compose_vector)
  have d: "KP_matmul k v
         = Inr \<lparr>shape = [prod_list (map nrows lts)],
                data = mm (prod_list (map nrows lts)) (prod_list (map ncols lts)) 1
                         (kron_list (factor_blocks lts 0)) (data v)\<rparr>"
    using KP_matmul_vector(2) [OF assms(3,4,7,12,13) e] by simp
  show ?thesis unfolding c d assms(9,10,11) ..
qed

lemma cholesky_of_fields:
  assumes "cholesky_of upper c f"
  shows "batch_shape c = batch_shape f" and "ncols f = nrows f" and "nrows c = nrows f"
    and "ncols c = nrows f" and "triangular c"
  using assms by (simp_all add: cholesky_of_def)

lemma cholesky_factors_pos:
  assumes "list_all2 (cholesky_of upper) cs lts"
    and "\<forall>lt \<in> set lts. 0 < nrows lt \<and> batch_shape lt = kb"
  shows "\<forall>lt \<in> set lts. 0 < nrows lt \<and> 0 < ncols lt \<and> batch_shape lt = kb"
    and "\<forall>c \<in> set cs. 0 < nrows c \<and> 0 < ncols c \<and> batch_shape c = kb"
    and "\<forall>c \<in> set (map lt_transpose_nonbatch cs). 0 < nrows c \<and> 0 < ncols c \<and> batch_shape c = kb"
proof -
  have "(\<forall>lt \<in> set lts. 0 < nrows lt \<and> 0 < ncols lt \<and> batch_shape lt = kb)
      \<and> (\<forall>c \<in> set cs. 0 < nrows c \<and> 0 < ncols c \<and> batch_shape c = kb)"
    using assms
  proof (induction cs lts rule: list_all2_induct)
    case Nil
    show ?case by simp
  next
    case (Cons c cs f lts)
    note fl = cholesky_of_fields [OF Cons.hyps(1)]
    have f: "0 < nrows f" "batch_shape f = kb" and rest: "\<forall>lt \<in> set lts. 0 < nrows lt \<and> batch_shape lt = kb"
      using Cons.prems by simp_all
    have IH: "(\<forall>lt \<in> set lts. 0 < nrows lt \<and> 0 < ncols lt \<and> batch_shape lt = kb)
      \<and> (\<forall>c \<in> set cs. 0 < nrows c \<and> 0 < ncols c \<and> batch_shape c = kb)"
      using rest by (rule Cons.IH)
    have "0 < ncols f" "0 < nrows c" "0 < ncols c" "batch_shape c = kb"
      using fl f by simp_all
    then show ?case using IH f by simp
  qed
  then show "\<forall>lt \<in> set lts. 0 < nrows lt \<and> 0 < ncols lt \<and> batch_shape lt = kb"
    and c: "\<forall>c \<in> set cs. 0 < nrows c \<and> 0 < ncols c \<and> batch_shape c = kb" by simp_all
  show "\<forall>c \<in> set (map lt_transpose_nonbatch cs). 0 < nrows c \<and> 0 < ncols c \<and> batch_shape c = kb"
    using c by simp
qed

lemma cholesky_product_matrix:
  assumes "lazy_tensors k = lts" and "lts \<noteq> []"
    and "\<forall>lt \<in> set lts. 0 < nrows lt \<and> batch_shape lt = kb"
    and "list_all2 (cholesky_of upper) cs lts"
    and "shape v = rb @ [prod_list (map ncols lts), m]" and "wf_tensor v"
    and "mul_broadcast_shape kb rb = Inr ob" and "\<forall>n \<in> set ob. 0 < n" and "0 < m"
  shows "(if upper
          then (case KP_matmul (KPT cs upper) v of Inl e \<Rightarrow> Inl e | Inr w \<Rightarrow> KP_t_matmul (KPT cs upper) w)
          else (case KP_t_matmul (KPT cs upper) v of Inl e \<Rightarrow> Inl e | Inr w \<Rightarrow> KP_matmul (KPT cs upper) w))
         = KP_matmul k v"
proof -
  note pos = cholesky_factors_pos [OF assms(4,3)]
  note sz = cholesky_of_sizes [OF assms(4)]
  let ?ts = "map lt_transpose_nonbatch cs"
  have t: "KP_t_matmul (KPT cs upper) x = KP_matmul (KPT ?ts False) x" for x
    using KP_t_matmul_eq [of "KPT cs upper" kb x] pos(2) by simp
  have l1: "lazy_tensors (KPT cs upper) = cs" and l2: "lazy_tensors (KPT ?ts False) = ?ts" by simp_all
  have c1: "list_all2 (\<lambda>g f. ncols g = nrows f) cs ?ts" by (simp add: list_all2_map2 list_all2_same)
  have c2: "list_all2 (\<lambda>g f. ncols g = nrows f) ?ts cs" by (simp add: list_all2_map1 list_all2_same)
  have n1: "map nrows cs = map nrows lts" by (rule sz(1))
  have n2: "map ncols ?ts = map ncols lts" using sz(1,3) by (simp add: comp_def)
  have n3: "map nrows ?ts = map nrows lts" using sz(2) by (simp add: comp_def)
  have n4: "map ncols cs = map ncols lts" using sz(2,3) by simp
  have inb: "\<forall>lt \<in> set lts. \<beta> < prod_list (batch_shape lt)" if "\<beta> < prod_list kb" for \<beta>
    using that assms(3) by simp
  have inc: "\<forall>lt \<in> set cs. \<beta> < prod_list (batch_shape lt)" if "\<beta> < prod_list kb" for \<beta>
    using that pos(2) by simp
  show ?thesis
  proof (cases upper)
    case True
    have "(case KP_matmul (KPT cs upper) v of Inl e \<Rightarrow> Inl e | Inr w \<Rightarrow> KP_matmul (KPT ?ts False) w)
          = KP_matmul k v"
    proof (rule KP_matmul_product_matrix [OF l2 l1 assms(1,2) pos(3) pos(2) pos(1) c2 n3 n4 _ assms(5,6,7,8,9)])
      fix \<beta> assume b: "\<beta> < prod_list kb"
      show "mm_blocks (factor_blocks ?ts \<beta>) (factor_blocks cs \<beta>) = factor_blocks lts \<beta>"
        using mm_blocks_cholesky(2) [OF assms(4) inb [OF b] True] factor_blocks_transpose [OF inc [OF b]]
        by simp
    qed
    then show ?thesis unfolding t if_P [OF True] .
  next
    case False
    have "(case KP_matmul (KPT ?ts False) v of Inl e \<Rightarrow> Inl e | Inr w \<Rightarrow> KP_matmul (KPT cs upper) w)
          = KP_matmul k v"
    proof (rule KP_matmul_product_matrix [OF l1 l2 assms(1,2) pos(2) pos(3) pos(1) c1 n1 n2 _ assms(5,6,7,8,9)])
      fix \<beta> assume b: "\<beta> < prod_list kb"
      show "mm_blocks (factor_blocks cs \<beta>) (factor_blocks ?ts \<beta>) = factor_blocks lts \<beta>"
        using mm_blocks_cholesky(1) [OF assms(4) inb [OF b] False] factor_blocks_transpose [OF inc [OF b]]
        by simp
    qed
    then show ?thesis unfolding t if_not_P [OF False] .
  qed
qed

lemma cholesky_product_vector:
  assumes "lazy_tensors k = lts" and "lts \<noteq> []"
    and "\<forall>lt \<in> set lts. 0 < nrows lt \<and> batch_shape lt = []"
    and "list_all2 (cholesky_of upper) cs lts"
    and "shape v = [prod_list (map ncols lts)]" and "wf_tensor v"
  shows "(if upper
          then (case KP_matmul (KPT cs upper) v of Inl e \<Rightarrow> Inl e | Inr w \<Rightarrow> KP_t_matmul (KPT cs upper) w)
          else (case KP_t_matmul (KPT cs upper) v of Inl e \<Rightarrow> Inl e | Inr w \<Rightarrow> KP_matmul (KPT cs upper) w))
         = KP_matmul k v"
proof -
  note pos = cholesky_factors_pos [OF assms(4,3)]
  note sz = cholesky_of_sizes [OF assms(4)]
  let ?ts = "map lt_transpose_nonbatch cs"
  have t: "KP_t_matmul (KPT cs upper) x = KP_matmul (KPT ?ts False) x" for x
    using KP_t_matmul_eq [of "KPT cs upper" "[]" x] pos(2) by simp
  have l1: "lazy_tensors (KPT cs upper) = cs" and l2: "lazy_tensors (KPT ?ts False) = ?ts" by simp_all
  have c1: "list_all2 (\<lambda>g f. ncols g = nrows f) cs ?ts" by (simp add: list_all2_map2 list_all2_same)
  have c2: "list_all2 (\<lambda>g f. ncols g = nrows f) ?ts cs" by (simp add: list_all2_map1 list_all2_same)
  have n1: "map nrows cs = map nrows lts" by (rule sz(1))
  have n2: "map ncols ?ts = map ncols lts" using sz(1,3) by (simp add: comp_def)
  have n3: "map nrows ?ts = map nrows lts" using sz(2) by (simp add: comp_def)
  have n4: "map ncols cs = map ncols lts" using sz(2,3) by simp
  have inb: "\<forall>lt \<in> set lts. 0 < prod_list (batch_shape lt)" using assms(3) by simp
  have inc: "\<forall>lt \<in> set cs. 0 < prod_list (batch_shape lt)" using pos(2) by simp
  show ?thesis
  proof (cases upper)
    case True
    have "mm_blocks (factor_blocks ?ts 0) (factor_blocks cs 0) = factor_blocks lts 0"
      using mm_blocks_cholesky(2) [OF assms(4) inb True] factor_blocks_transpose [OF inc] by simp
    then have "(case KP_matmul (KPT cs upper) v of Inl e \<Rightarrow> Inl e | Inr w \<Rightarrow> KP_matmul (KPT ?ts False) w)
          = KP_matmul k v"
      by (rule KP_matmul_product_vector [OF l2 l1 assms(1,2) pos(3) pos(2) pos(1) c2 n3 n4 _ assms(5,6)])
    then show ?thesis unfolding t if_P [OF True] .
  next
    case False
    have "mm_blocks (factor_blocks cs 0) (factor_blocks ?ts 0) = factor_blocks lts 0"
      using mm_blocks_cholesky(1) [OF assms(4) inb False] factor_blocks_transpose [OF inc] by simp
    then have "(case KP_matmul (KPT ?ts False) v of Inl e \<Rightarrow> Inl e | Inr w \<Rightarrow> KP_matmul (KPT cs upper) w)
          = KP_matmul k v"
      by (rule KP_matmul_product_vector [OF l1 l2 assms(1,2) pos(2) pos(3) pos(1) c1 n1 n2 _ assms(5,6)])
    then show ?thesis unfolding t if_not_P [OF False] .
  qed
qed

text \<open>
  C4 (as amended). Let \<open>chol_f upper\<close> return, for every factor, a triangular operator \<open>C\<close> of the same
  batch shape that is its Cholesky factor in the convention of the source: \<open>C C\<^sup>T\<close> is the
  factor when \<open>upper\<close> is false (\<open>L @ L.T\<close>), and \<open>C\<^sup>T C\<close> is the factor when \<open>upper\<close> is
  true (\<open>U.T @ U\<close>). Then \<open>_cholesky(upper)\<close> returns the triangular composite of these
  Cholesky factors, in the same order and with the same \<open>upper\<close> flag, and the composite is
  recovered from it: when \<open>upper\<close> is false, \<open>chol.matmul(chol.t_matmul(v))\<close> is
  \<open>composite.matmul(v)\<close>; when \<open>upper\<close> is true, \<open>chol.t_matmul(chol.matmul(v))\<close> is
  \<open>composite.matmul(v)\<close>. This holds for a right-hand side of shape \<open>(..., n, m)\<close>, and for
  a 1-D vector when the composite has no batch dimension; in both cases
  \<open>composite.matmul(v)\<close> returns a tensor.
\<close>

theorem cholesky_identity:
  assumes "lazy_tensors k = lts" and "lts \<noteq> []"
    and "\<forall>lt \<in> set lts. 0 < nrows lt \<and> batch_shape lt = kb"
    and "map_err (chol_f upper) lts = Inr cs" and "list_all2 (cholesky_of upper) cs lts"
    and "wf_tensor v"
  shows "KP_cholesky chol_f k upper = Inr (KPT cs upper)
       \<and> (shape v = rb @ [prod_list (map ncols lts), m] \<and> 0 < m
            \<and> mul_broadcast_shape kb rb = Inr ob \<and> (\<forall>n \<in> set ob. 0 < n)
          \<longrightarrow> (if upper
               then (case KP_matmul (KPT cs upper) v of Inl e \<Rightarrow> Inl e
                     | Inr w \<Rightarrow> KP_t_matmul (KPT cs upper) w)
               else (case KP_t_matmul (KPT cs upper) v of Inl e \<Rightarrow> Inl e
                     | Inr w \<Rightarrow> KP_matmul (KPT cs upper) w))
              = KP_matmul k v
            \<and> \<not> isl (KP_matmul k v))
       \<and> (shape v = [prod_list (map ncols lts)] \<and> kb = []
          \<longrightarrow> (if upper
               then (case KP_matmul (KPT cs upper) v of Inl e \<Rightarrow> Inl e
                     | Inr w \<Rightarrow> KP_t_matmul (KPT cs upper) w)
               else (case KP_t_matmul (KPT cs upper) v of Inl e \<Rightarrow> Inl e
                     | Inr w \<Rightarrow> KP_matmul (KPT cs upper) w))
              = KP_matmul k v
            \<and> \<not> isl (KP_matmul k v))"
proof (intro conjI impI)
  show "KP_cholesky chol_f k upper = Inr (KPT cs upper)"
  proof (rule KP_cholesky_ok [where kb = kb])
    show "\<forall>lt \<in> set lts. batch_shape lt = kb" using assms(3) by simp
  qed (rule assms)+
next
  assume h: "shape v = rb @ [prod_list (map ncols lts), m] \<and> 0 < m
            \<and> mul_broadcast_shape kb rb = Inr ob \<and> (\<forall>n \<in> set ob. 0 < n)"
  then have h': "shape v = rb @ [prod_list (map ncols lts), m]" "0 < m"
    "mul_broadcast_shape kb rb = Inr ob" "\<forall>n \<in> set ob. 0 < n" by simp_all
  show "(if upper
         then (case KP_matmul (KPT cs upper) v of Inl e \<Rightarrow> Inl e | Inr w \<Rightarrow> KP_t_matmul (KPT cs upper) w)
         else (case KP_t_matmul (KPT cs upper) v of Inl e \<Rightarrow> Inl e | Inr w \<Rightarrow> KP_matmul (KPT cs upper) w))
        = KP_matmul k v"
    using assms(1,2,3,5) h'(1) assms(6) h'(3,4,2) by (rule cholesky_product_matrix)
  show "\<not> isl (KP_matmul k v)"
    using KP_matmul_matrix [OF assms(1,2) cholesky_factors_pos(1) [OF assms(5,3)] h'(1) assms(6) h'(3,4,2)]
    by simp
next
  assume h: "shape v = [prod_list (map ncols lts)] \<and> kb = []"
  then have sh: "shape v = [prod_list (map ncols lts)]"
    and pos: "\<forall>lt \<in> set lts. 0 < nrows lt \<and> batch_shape lt = []" using assms(3) by simp_all
  show "(if upper
         then (case KP_matmul (KPT cs upper) v of Inl e \<Rightarrow> Inl e | Inr w \<Rightarrow> KP_t_matmul (KPT cs upper) w)
         else (case KP_t_matmul (KPT cs upper) v of Inl e \<Rightarrow> Inl e | Inr w \<Rightarrow> KP_matmul (KPT cs upper) w))
        = KP_matmul k v"
    using assms(1,2) pos assms(5) sh assms(6) by (rule cholesky_product_vector)
  have e: "\<forall>n \<in> set ([] :: nat list). 0 < n" by simp
  show "\<not> isl (KP_matmul k v)"
    using KP_matmul_vector(2) [OF assms(1,2) cholesky_factors_pos(1) [OF assms(5) pos] sh assms(6) e]
    by simp
qed

theorem cholesky_identity_witness:
  "KP_cholesky ex_chol (KP [ex_S, ex_T]) False
     = Inr (KPT [\<lparr>triangular = True, batch_shape = [], nrows = 2, ncols = 2, entries = [1, 0, 2, 1]\<rparr>,
                 \<lparr>triangular = True, batch_shape = [], nrows = 2, ncols = 2, entries = [1, 0, 3, 1]\<rparr>]
              False)
   \<and> (case KP_t_matmul
            (KPT [\<lparr>triangular = True, batch_shape = [], nrows = 2, ncols = 2, entries = [1, 0, 2, 1]\<rparr>,
                  \<lparr>triangular = True, batch_shape = [], nrows = 2, ncols = 2, entries = [1, 0, 3, 1]\<rparr>]
               False)
            \<lparr>shape = [4], data = [1, 2, 3, 4]\<rparr> of
        Inl e \<Rightarrow> Inl e
      | Inr w \<Rightarrow> KP_matmul
          (KPT [\<lparr>triangular = True, batch_shape = [], nrows = 2, ncols = 2, entries = [1, 0, 2, 1]\<rparr>,
                \<lparr>triangular = True, batch_shape = [], nrows = 2, ncols = 2, entries = [1, 0, 3, 1]\<rparr>]
             False) w)
     = KP_matmul (KP [ex_S, ex_T]) \<lparr>shape = [4], data = [1, 2, 3, 4]\<rparr>
   \<and> (case KP_t_matmul
            (KPT [\<lparr>triangular = True, batch_shape = [], nrows = 2, ncols = 2, entries = [1, 0, 2, 1]\<rparr>,
                  \<lparr>triangular = True, batch_shape = [], nrows = 2, ncols = 2, entries = [1, 0, 3, 1]\<rparr>]
               False)
            \<lparr>shape = [3, 4, 1], data = [1, 2, 3, 4, 5, 6, 7, 8, 9, 10, 11, 12]\<rparr> of
        Inl e \<Rightarrow> Inl e
      | Inr w \<Rightarrow> KP_matmul
          (KPT [\<lparr>triangular = True, batch_shape = [], nrows = 2, ncols = 2, entries = [1, 0, 2, 1]\<rparr>,
                \<lparr>triangular = True, batch_shape = [], nrows = 2, ncols = 2, entries = [1, 0, 3, 1]\<rparr>]
             False) w)
     = KP_matmul (KP [ex_S, ex_T]) \<lparr>shape = [3, 4, 1], data = [1, 2, 3, 4, 5, 6, 7, 8, 9, 10, 11, 12]\<rparr>
   \<and> KP_matmul (KP [ex_S, ex_T]) \<lparr>shape = [4], data = [1, 2, 3, 4]\<rparr>
     = Inr \<lparr>shape = [4], data = [37, 121, 89, 291]\<rparr>"
proof -
  let ?cs = "[\<lparr>triangular = True, batch_shape = [], nrows = 2, ncols = 2, entries = [1, 0, 2, 1 :: int]\<rparr>,
              \<lparr>triangular = True, batch_shape = [], nrows = 2, ncols = 2, entries = [1, 0, 3, 1]\<rparr>]"
  have a1: "lazy_tensors (KP [ex_S, ex_T]) = [ex_S, ex_T]" and a2: "[ex_S, ex_T] \<noteq> []"
    by simp_all
  have a3: "\<forall>lt \<in> set [ex_S, ex_T]. 0 < nrows lt \<and> batch_shape lt = []"
    by (simp add: ex_S_def ex_T_def)
  have a4: "map_err (ex_chol False) [ex_S, ex_T] = Inr ?cs" by (simp add: ex_chol_def ex_S_def ex_T_def)
  have a5: "list_all2 (cholesky_of False) ?cs [ex_S, ex_T]" by code_simp
  have a6: "wf_tensor \<lparr>shape = [4], data = [1, 2, 3, 4 :: int]\<rparr>" by (simp add: wf_tensor_def)
  have a7: "shape \<lparr>shape = [4], data = [1, 2, 3, 4 :: int]\<rparr> = [prod_list (map ncols [ex_S, ex_T])]
            \<and> ([] :: nat list) = []"
    by (simp add: ex_S_def ex_T_def)
  have b6: "wf_tensor \<lparr>shape = [3, 4, 1], data = [1, 2, 3, 4, 5, 6, 7, 8, 9, 10, 11, 12 :: int]\<rparr>"
    by (simp add: wf_tensor_def)
  have b7: "shape \<lparr>shape = [3, 4, 1], data = [1, 2, 3, 4, 5, 6, 7, 8, 9, 10, 11, 12 :: int]\<rparr>
              = [3] @ [prod_list (map ncols [ex_S, ex_T]), 1]
            \<and> 0 < (1 :: nat) \<and> mul_broadcast_shape [] [3] = Inr [3] \<and> (\<forall>n \<in> set [3 :: nat]. 0 < n)"
    by (simp add: ex_S_def ex_T_def mul_broadcast_shape_def)
  note A = cholesky_identity [where chol_f = ex_chol and upper = False, OF a1 a2 a3 a4 a5 a6, unfolded if_False]
  note B = cholesky_identity [where chol_f = ex_chol and upper = False, OF a1 a2 a3 a4 a5 b6, unfolded if_False]
  from A have "KP_cholesky ex_chol (KP [ex_S, ex_T]) False = Inr (KPT ?cs False)" by (rule conjunct1)
  moreover from A a7
  have "(case KP_t_matmul (KPT ?cs False) \<lparr>shape = [4], data = [1, 2, 3, 4]\<rparr> of
           Inl e \<Rightarrow> Inl e | Inr w \<Rightarrow> KP_matmul (KPT ?cs False) w)
        = KP_matmul (KP [ex_S, ex_T]) \<lparr>shape = [4], data = [1, 2, 3, 4]\<rparr>" by blast
  moreover from B b7
  have "(case KP_t_matmul (KPT ?cs False)
                \<lparr>shape = [3, 4, 1], data = [1, 2, 3, 4, 5, 6, 7, 8, 9, 10, 11, 12]\<rparr> of
           Inl e \<Rightarrow> Inl e | Inr w \<Rightarrow> KP_matmul (KPT ?cs False) w)
        = KP_matmul (KP [ex_S, ex_T]) \<lparr>shape = [3, 4, 1], data = [1, 2, 3, 4, 5, 6, 7, 8, 9, 10, 11, 12]\<rparr>"
    by blast
  moreover have "KP_matmul (KP [ex_S, ex_T]) \<lparr>shape = [4], data = [1, 2, 3, 4]\<rparr>
     = Inr \<lparr>shape = [4], data = [37, 121, 89, 291]\<rparr>" by code_simp
  ultimately show ?thesis by blast
qed

text \<open>
  The claim as stated fails when \<open>upper\<close> is true: the factor \<open>U\<close> returned then satisfies
  \<open>U\<^sup>T U = composite\<close>, and \<open>chol.matmul(chol.t_matmul(v))\<close> computes \<open>U U\<^sup>T v\<close>, which is
  not \<open>composite.matmul(v)\<close>.
\<close>

theorem cholesky_identity_counterexample:
  "KP_cholesky ex_chol (KP [ex_S, ex_T]) True
     = Inr (KPT [\<lparr>triangular = True, batch_shape = [], nrows = 2, ncols = 2, entries = [1, 2, 0, 1]\<rparr>,
                 \<lparr>triangular = True, batch_shape = [], nrows = 2, ncols = 2, entries = [1, 3, 0, 1]\<rparr>]
              True)
   \<and> list_all2 (cholesky_of True)
        [\<lparr>triangular = True, batch_shape = [], nrows = 2, ncols = 2, entries = [1, 2, 0, 1]\<rparr>,
         \<lparr>triangular = True, batch_shape = [], nrows = 2, ncols = 2, entries = [1, 3, 0, 1]\<rparr>]
        [ex_S, ex_T]
   \<and> (case KP_t_matmul
            (KPT [\<lparr>triangular = True, batch_shape = [], nrows = 2, ncols = 2, entries = [1, 2, 0, 1]\<rparr>,
                  \<lparr>triangular = True, batch_shape = [], nrows = 2, ncols = 2, entries = [1, 3, 0, 1]\<rparr>]
               True)
            \<lparr>shape = [4], data = [1, 2, 3, 4 :: int]\<rparr> of
        Inl e \<Rightarrow> Inl e
      | Inr w \<Rightarrow> KP_matmul
          (KPT [\<lparr>triangular = True, batch_shape = [], nrows = 2, ncols = 2, entries = [1, 2, 0, 1]\<rparr>,
                \<lparr>triangular = True, batch_shape = [], nrows = 2, ncols = 2, entries = [1, 3, 0, 1]\<rparr>]
             True) w)
     = Inr \<lparr>shape = [4], data = [164, 51, 74, 23]\<rparr>
   \<and> KP_matmul (KP [ex_S, ex_T]) \<lparr>shape = [4], data = [1, 2, 3, 4]\<rparr>
     = Inr \<lparr>shape = [4], data = [37, 121, 89, 291]\<rparr>"
  by code_simp

section \<open>The Cholesky solve of the triangular composite\<close>

lemma mm_identity_right:
  assumes "length A = r * n"
  shows "mm r n n A (identity n) = A"
proof (rule list_eq_flat [where r = r and n = n])
  show "length (mm r n n A (identity n)) = r * n" by (simp add: length_mm)
  show "length A = r * n" by (rule assms)
next
  fix i l assume i: "i < r" and l: "l < n"
  have "mm r n n A (identity n) ! (i * n + l)
        = (\<Sum>a<n. A ! (i * n + a) * identity n ! (a * n + l))"
    using i l by (rule nth_mm)
  also have "\<dots> = (\<Sum>a<n. if a = l then A ! (i * n + a) else 0)"
    by (intro sum.cong refl) (simp add: nth_identity l)
  also have "\<dots> = A ! (i * n + l)" using l by simp
  finally show "mm r n n A (identity n) ! (i * n + l) = A ! (i * n + l)" .
qed

lemma gram_inverse_blocks:
  assumes "mm N N N G1 T = identity N" and "mm N N N G2 T' = identity N"
    and "mm N N N T T' = K" and "mm N N N K Ki = identity N"
    and "length Ki = N * N" and "length G2 = N * N"
  shows "mm N N N G2 G1 = Ki"
proof -
  have a: "mm N N N (mm N N N G2 G1) T = G2"
  proof -
    have "mm N N N (mm N N N G2 G1) T = mm N N N G2 (mm N N N G1 T)" by (rule mm_assoc [symmetric])
    also have "\<dots> = mm N N N G2 (identity N)" by (simp only: assms(1))
    also have "\<dots> = G2" using assms(6) by (rule mm_identity_right)
    finally show ?thesis .
  qed
  have b: "mm N N N (mm N N N G2 G1) K = identity N"
  proof -
    have "mm N N N (mm N N N G2 G1) K = mm N N N (mm N N N G2 G1) (mm N N N T T')"
      by (simp only: assms(3))
    also have "\<dots> = mm N N N (mm N N N (mm N N N G2 G1) T) T'" by (rule mm_assoc)
    also have "\<dots> = mm N N N G2 T'" by (simp only: a)
    also have "\<dots> = identity N" by (rule assms(2))
    finally show ?thesis .
  qed
  have "length (mm N N N G2 G1) = N * N" by (rule length_mm)
  then have "mm N N N G2 G1 = mm N N N (mm N N N G2 G1) (identity N)"
    by (rule mm_identity_right [symmetric])
  also have "\<dots> = mm N N N (mm N N N G2 G1) (mm N N N K Ki)" by (simp only: assms(4))
  also have "\<dots> = mm N N N (mm N N N (mm N N N G2 G1) K) Ki" by (rule mm_assoc)
  also have "\<dots> = mm N N N (identity N) Ki" by (simp only: b)
  also have "\<dots> = Ki" using assms(5) by (rule mm_identity)
  finally show ?thesis .
qed

lemma inverse_of_fields:
  assumes "inverse_of g f"
  shows "batch_shape g = batch_shape f" and "ncols f = nrows f" and "nrows g = nrows f"
    and "ncols g = nrows f" and "triangular g = triangular f"
  using assms by (simp_all add: inverse_of_def)

lemma inverse_factors_pos:
  assumes "list_all2 inverse_of gs lts"
    and "\<forall>lt \<in> set lts. 0 < nrows lt \<and> batch_shape lt = kb"
  shows "\<forall>lt \<in> set lts. 0 < nrows lt \<and> 0 < ncols lt \<and> batch_shape lt = kb"
    and "\<forall>g \<in> set gs. 0 < nrows g \<and> 0 < ncols g \<and> batch_shape g = kb"
proof -
  have "(\<forall>lt \<in> set lts. 0 < nrows lt \<and> 0 < ncols lt \<and> batch_shape lt = kb)
      \<and> (\<forall>g \<in> set gs. 0 < nrows g \<and> 0 < ncols g \<and> batch_shape g = kb)"
    using assms
  proof (induction gs lts rule: list_all2_induct)
    case Nil
    show ?case by simp
  next
    case (Cons g gs f lts)
    note fl = inverse_of_fields [OF Cons.hyps(1)]
    have f: "0 < nrows f" "batch_shape f = kb" and rest: "\<forall>lt \<in> set lts. 0 < nrows lt \<and> batch_shape lt = kb"
      using Cons.prems by simp_all
    have IH: "(\<forall>lt \<in> set lts. 0 < nrows lt \<and> 0 < ncols lt \<and> batch_shape lt = kb)
      \<and> (\<forall>g \<in> set gs. 0 < nrows g \<and> 0 < ncols g \<and> batch_shape g = kb)"
      using rest by (rule Cons.IH)
    have "0 < ncols f" "0 < nrows g" "0 < ncols g" "batch_shape g = kb"
      using fl f by simp_all
    then show ?case using IH f by simp
  qed
  then show "\<forall>lt \<in> set lts. 0 < nrows lt \<and> 0 < ncols lt \<and> batch_shape lt = kb"
    and "\<forall>g \<in> set gs. 0 < nrows g \<and> 0 < ncols g \<and> batch_shape g = kb" by simp_all
qed

lemma kron_list_inverse:
  assumes "list_all2 inverse_of gs lts" and "\<forall>lt \<in> set lts. b < prod_list (batch_shape lt)"
  shows "mm (prod_list (map nrows lts)) (prod_list (map nrows lts)) (prod_list (map nrows lts))
           (kron_list (factor_blocks gs b)) (kron_list (factor_blocks lts b))
         = identity (prod_list (map nrows lts))"
proof -
  note sizes = inverse_of_sizes [OF assms(1)]
  have len: "length gs = length lts" using assms(1) by (rule list_all2_lengthD)
  have chain: "list_all2 (\<lambda>g f. ncols g = nrows f) gs lts"
    using sizes(2) len by (simp add: list_all2_conv_all_nth) (metis nth_map)
  have "kron_list (mm_blocks (factor_blocks gs b) (factor_blocks lts b))
        = mm (rows_of (factor_blocks gs b)) (cols_of (factor_blocks gs b)) (cols_of (factor_blocks lts b))
            (kron_list (factor_blocks gs b)) (kron_list (factor_blocks lts b))"
    using chain by (intro kron_list_mm_blocks list_all2_factor_blocks)
  moreover have "mm_blocks (factor_blocks gs b) (factor_blocks lts b)
          = map (\<lambda>n. (n, n, identity n)) (map nrows lts)"
    using assms by (rule mm_blocks_inverse)
  ultimately show ?thesis
    by (simp add: rows_of_factor_blocks cols_of_factor_blocks sizes kron_list_identity del: map_map)
qed

lemma matmul_evaluate_blocks:
  assumes "shape rhs = rb @ [ncols lt, m]" and "mul_broadcast_shape (batch_shape lt) rb = Inr ob"
  shows "matmul (evaluate lt) rhs
         = Inr \<lparr>shape = ob @ [nrows lt, m],
                data = concat (map (\<lambda>b. mm (nrows lt) (ncols lt) m
                                          (block (nrows lt * ncols lt) (entries lt) (bidx ob (batch_shape lt) b))
                                          (block (ncols lt * m) (data rhs) (bidx ob rb b)))
                                 [0..<prod_list ob])\<rparr>"
  by (simp add: matmul_def evaluate_def assms Let_def nth_append)

lemma two_solves:
  assumes "lazy_tensors k1 = l1" and "lazy_tensors k2 = l2" and "l1 \<noteq> []"
    and "\<forall>lt \<in> set l1. 0 < nrows lt \<and> batch_shape lt = kb"
    and "\<forall>lt \<in> set l2. 0 < nrows lt \<and> batch_shape lt = kb"
    and "list_all2 inverse_of g1 l1" and "map_err inv_f l1 = Inr g1"
    and "list_all2 inverse_of g2 l2" and "map_err inv_f l2 = Inr g2"
    and "map nrows l2 = map nrows l1"
    and "shape rhs = rb @ [prod_list (map ncols l1), m]" and "wf_tensor rhs"
    and "mul_broadcast_shape kb rb = Inr ob" and "\<forall>n \<in> set ob. 0 < n" and "0 < m"
  shows "(case KP_inv_matmul_sep inv_f k1 rhs None of Inl e \<Rightarrow> Inl e
          | Inr w \<Rightarrow> KP_inv_matmul_sep inv_f k2 w None)
         = (case KP_matmul (with_factors k1 g1) rhs of Inl e \<Rightarrow> Inl e
            | Inr w \<Rightarrow> KP_matmul (with_factors k2 g2) w)"
    and "(case KP_matmul (with_factors k1 g1) rhs of Inl e \<Rightarrow> Inl e
          | Inr w \<Rightarrow> KP_matmul (with_factors k2 g2) w)
         = Inr \<lparr>shape = ob @ [prod_list (map nrows l1), m],
                data = concat (map (\<lambda>b. mm (prod_list (map nrows l1)) (prod_list (map nrows l1)) m
                                          (kron_list (mm_blocks (factor_blocks g2 (bidx ob kb b))
                                                                (factor_blocks g1 (bidx ob kb b))))
                                          (block (prod_list (map nrows l1) * m) (data rhs) (bidx ob rb b)))
                                 [0..<prod_list ob])\<rparr>"
proof -
  let ?N = "prod_list (map nrows l1)"
  note s1 = inverse_of_sizes [OF assms(6)]
  note s2 = inverse_of_sizes [OF assms(8)]
  note p1 = inverse_factors_pos [OF assms(6,4)]
  note p2 = inverse_factors_pos [OF assms(8,5)]
  have len1: "length g1 = length l1" using assms(6) by (rule list_all2_lengthD)
  then have g1ne: "g1 \<noteq> []" using assms(3) by auto
  have "length l2 = length l1" using arg_cong [OF assms(10), of length] by simp
  then have l2ne: "l2 \<noteq> []" using assms(3) by auto
  have n1: "prod_list (map ncols l1) = ?N" by (simp only: s1(3))
  have n2: "prod_list (map nrows g1) = ?N" by (simp only: s1(1))
  have n3: "prod_list (map ncols g1) = ?N" by (simp only: s1(2))
  have n4: "prod_list (map ncols l2) = ?N" by (simp only: s2(3) assms(10))
  have n5: "prod_list (map nrows g2) = ?N" by (simp only: s2(1) assms(10))
  have K1: "lazy_tensors (with_factors k1 g1) = g1" and K2: "lazy_tensors (with_factors k2 g2) = g2"
    by simp_all
  have idem: "mul_broadcast_shape kb ob = Inr ob" using assms(13) by (rule mul_broadcast_shape_idem)
  have sh: "shape rhs = rb @ [prod_list (map ncols g1), m]" using assms(11) by (simp only: n1 n3)
  let ?W = "\<lambda>b. mm (prod_list (map nrows g1)) (prod_list (map ncols g1)) m
                  (kron_list (factor_blocks g1 (bidx ob kb b)))
                  (block (prod_list (map ncols g1) * m) (data rhs) (bidx ob rb b))"
  let ?w = "\<lparr>shape = ob @ [prod_list (map nrows g1), m], data = concat (map ?W [0..<prod_list ob])\<rparr>"
  have first: "KP_matmul (with_factors k1 g1) rhs = Inr ?w"
    using K1 g1ne p1(2) sh assms(12,13,14,15) by (rule KP_matmul_matrix)
  have lenW: "\<forall>b<prod_list ob. length (?W b) = prod_list (map nrows g1) * m" by (simp add: length_mm)
  have wfw: "wf_tensor ?w" using lenW by (rule wf_blocks)
  have shw: "shape ?w = ob @ [prod_list (map ncols l2), m]" by (simp add: n2 n4)
  have step1: "KP_inv_matmul_sep inv_f k1 rhs None = KP_matmul (with_factors k1 g1) rhs"
    using assms(1,3,4,6,7,11,12,13,14,15) by (rule KP_inv_matmul_sep_eq_matmul)
  have step2: "KP_inv_matmul_sep inv_f k2 ?w None = KP_matmul (with_factors k2 g2) ?w"
    using assms(2) l2ne assms(5,8,9) shw wfw idem assms(14,15) by (rule KP_inv_matmul_sep_eq_matmul)
  show "(case KP_inv_matmul_sep inv_f k1 rhs None of Inl e \<Rightarrow> Inl e
          | Inr w \<Rightarrow> KP_inv_matmul_sep inv_f k2 w None)
         = (case KP_matmul (with_factors k1 g1) rhs of Inl e \<Rightarrow> Inl e
            | Inr w \<Rightarrow> KP_matmul (with_factors k2 g2) w)"
    by (simp only: step1 first sum.case step2)
  have len2: "length g2 = length l2" using assms(8) by (rule list_all2_lengthD)
  have "map ncols g2 = map nrows g1" by (simp only: s2(2) s1(1) assms(10))
  then have chain: "list_all2 (\<lambda>g f. ncols g = nrows f) g2 g1"
    using len1 len2 \<open>length l2 = length l1\<close>
    by (simp add: list_all2_conv_all_nth) (metis nth_map)
  have "(case KP_matmul (with_factors k1 g1) rhs of Inl e \<Rightarrow> Inl e
          | Inr w \<Rightarrow> KP_matmul (with_factors k2 g2) w)
         = Inr \<lparr>shape = ob @ [prod_list (map nrows g2), m],
                data = concat (map (\<lambda>b. mm (prod_list (map nrows g2)) (prod_list (map ncols g1)) m
                                          (kron_list (mm_blocks (factor_blocks g2 (bidx ob kb b))
                                                                (factor_blocks g1 (bidx ob kb b))))
                                          (block (prod_list (map ncols g1) * m) (data rhs) (bidx ob rb b)))
                                 [0..<prod_list ob])\<rparr>"
    using K2 K1 g1ne p2(2) p1(2) chain sh assms(12,13,14,15) by (rule KP_matmul_compose)
  then show "(case KP_matmul (with_factors k1 g1) rhs of Inl e \<Rightarrow> Inl e
          | Inr w \<Rightarrow> KP_matmul (with_factors k2 g2) w)
         = Inr \<lparr>shape = ob @ [prod_list (map nrows l1), m],
                data = concat (map (\<lambda>b. mm (prod_list (map nrows l1)) (prod_list (map nrows l1)) m
                                          (kron_list (mm_blocks (factor_blocks g2 (bidx ob kb b))
                                                                (factor_blocks g1 (bidx ob kb b))))
                                          (block (prod_list (map nrows l1) * m) (data rhs) (bidx ob rb b)))
                                 [0..<prod_list ob])\<rparr>"
    by (simp only: n5 n3)
qed

lemma KPT_cholesky_solve_steps:
  assumes "\<forall>lt \<in> set lts. batch_shape lt = kb" and "list_all triangular lts"
  shows "KPT_cholesky_solve base_inv_matmul inv_f (KPT lts u) rhs upper
         = (if upper
            then (case KP_inv_matmul_sep inv_f (KPT (map lt_transpose_nonbatch lts) False) rhs None of
                    Inl e \<Rightarrow> Inl e
                  | Inr w \<Rightarrow> KP_inv_matmul_sep inv_f (KPT lts u) w None)
            else (case KP_inv_matmul_sep inv_f (KPT lts u) rhs None of
                    Inl e \<Rightarrow> Inl e
                  | Inr w \<Rightarrow> KP_inv_matmul_sep inv_f (KPT (map lt_transpose_nonbatch lts) False) w None))"
proof -
  have t: "KP_transpose_nonbatch (KPT lts u) = Inr (KPT (map lt_transpose_nonbatch lts) False)"
    using KP_transpose_nonbatch_ok [of "KPT lts u" kb] assms by simp
  show ?thesis by (simp add: KPT_cholesky_solve_def t split: sum.splits)
qed

lemma cholesky_solve_gram:
  assumes "lts \<noteq> []" and "\<forall>lt \<in> set lts. 0 < nrows lt \<and> batch_shape lt = kb"
    and "list_all2 inverse_of gs lts"
    and "list_all2 inverse_of gts (map lt_transpose_nonbatch lts)"
    and "gram_of K (dense_kron lts)" and "inverse_of Kinv K" and "wf_lt Kinv"
    and "\<gamma> < prod_list kb"
  shows "kron_list (mm_blocks (factor_blocks gts \<gamma>) (factor_blocks gs \<gamma>))
         = block (nrows Kinv * ncols Kinv) (entries Kinv) \<gamma>"
    and "nrows Kinv = prod_list (map nrows lts)" and "ncols Kinv = prod_list (map nrows lts)"
    and "batch_shape Kinv = kb"
proof -
  define N where "N = prod_list (map nrows lts)"
  let ?ts = "map lt_transpose_nonbatch lts"
  note s = inverse_of_sizes [OF assms(3)]
  note st = inverse_of_sizes [OF assms(4)]
  have hd: "batch_shape (hd lts) = kb" using assms(1,2) by (cases lts) auto
  have c: "prod_list (map ncols lts) = N" by (simp only: s(3) N_def)
  have dk: "nrows (dense_kron lts) = N" "ncols (dense_kron lts) = N" "batch_shape (dense_kron lts) = kb"
    by (simp_all add: dense_kron_def c hd N_def)
  have K: "batch_shape K = kb" "nrows K = N" "ncols K = N"
    using assms(5) by (simp_all add: gram_of_def dk)
  note ki = inverse_of_fields [OF assms(6)]
  show Ki: "nrows Kinv = prod_list (map nrows lts)" "ncols Kinv = prod_list (map nrows lts)"
    "batch_shape Kinv = kb"
    using ki K by (simp_all add: N_def)
  have Ki': "nrows Kinv = N" "ncols Kinv = N" using Ki by (simp_all add: N_def)
  let ?T = "kron_list (factor_blocks lts \<gamma>)"
  let ?G1 = "kron_list (factor_blocks gs \<gamma>)"
  let ?G2 = "kron_list (factor_blocks gts \<gamma>)"
  have inb: "\<forall>lt \<in> set lts. \<gamma> < prod_list (batch_shape lt)" using assms(2,8) by simp
  have inbt: "\<forall>lt \<in> set ?ts. \<gamma> < prod_list (batch_shape lt)" using assms(2,8) by simp
  have blkT: "block (N * N) (entries (dense_kron lts)) \<gamma> = ?T"
    using block_dense_kron [of \<gamma> lts] assms(8) hd by (simp add: c N_def [symmetric])
  have "\<gamma> \<in> set [0..<prod_list (batch_shape (dense_kron lts))]" using assms(8) dk(3) by simp
  then have "mm N N N (block (N * N) (entries (dense_kron lts)) \<gamma>)
                 (tr2 N N (block (N * N) (entries (dense_kron lts)) \<gamma>))
             = block (N * N) (entries K) \<gamma>"
    using assms(5) unfolding gram_of_def list_all_iff dk by blast
  then have gram: "mm N N N ?T (tr2 N N ?T) = block (N * N) (entries K) \<gamma>" by (simp only: blkT)
  have "\<gamma> < prod_list (batch_shape K)" using assms(8) K(1) by simp
  from inverse_of_block(2) [OF assms(6) this]
  have kinv: "mm N N N (block (N * N) (entries K) \<gamma>) (block (N * N) (entries Kinv) \<gamma>) = identity N"
    by (simp add: K Ki')
  have "length (entries Kinv) = prod_list kb * (N * N)"
    using assms(7) by (simp add: wf_lt_def Ki(3) Ki')
  then have lenKi: "length (block (N * N) (entries Kinv) \<gamma>) = N * N"
    using assms(8) by (rule length_block_wf)
  have g1: "mm N N N ?G1 ?T = identity N"
    using kron_list_inverse [OF assms(3) inb] by (simp only: N_def)
  have nt: "prod_list (map nrows ?ts) = N" by (simp add: comp_def c)
  have trT: "kron_list (factor_blocks ?ts \<gamma>) = tr2 N N ?T"
    by (simp add: factor_blocks_transpose [OF inb] kron_list_tr_blocks rows_of_factor_blocks
        cols_of_factor_blocks c N_def [symmetric])
  have g2: "mm N N N ?G2 (tr2 N N ?T) = identity N"
    using kron_list_inverse [OF assms(4) inbt] by (simp only: nt trT)
  have rg2: "prod_list (map nrows gts) = N" by (simp only: st(1) nt)
  have cg2: "prod_list (map ncols gts) = N" by (simp only: st(2) nt)
  have cg1: "prod_list (map ncols gs) = N" by (simp only: s(2) N_def)
  have lenG2: "length ?G2 = N * N"
    by (simp add: length_kron_list rows_of_factor_blocks cols_of_factor_blocks rg2 cg2)
  have "map ncols gts = map nrows gs" using st(2) s(1,3) by (simp add: comp_def)
  moreover have "length gts = length gs"
    using list_all2_lengthD [OF assms(3)] list_all2_lengthD [OF assms(4)] by simp
  ultimately have chain: "list_all2 (\<lambda>g f. ncols g = nrows f) gts gs"
    by (simp add: list_all2_conv_all_nth) (metis nth_map)
  have "kron_list (mm_blocks (factor_blocks gts \<gamma>) (factor_blocks gs \<gamma>))
        = mm (rows_of (factor_blocks gts \<gamma>)) (cols_of (factor_blocks gts \<gamma>)) (cols_of (factor_blocks gs \<gamma>))
            ?G2 ?G1"
    using chain by (intro kron_list_mm_blocks list_all2_factor_blocks)
  then have "kron_list (mm_blocks (factor_blocks gts \<gamma>) (factor_blocks gs \<gamma>)) = mm N N N ?G2 ?G1"
    by (simp add: rows_of_factor_blocks cols_of_factor_blocks rg2 cg2 cg1)
  also have "\<dots> = block (N * N) (entries Kinv) \<gamma>"
    using g1 g2 gram kinv lenKi lenG2 by (rule gram_inverse_blocks)
  finally show "kron_list (mm_blocks (factor_blocks gts \<gamma>) (factor_blocks gs \<gamma>))
         = block (nrows Kinv * ncols Kinv) (entries Kinv) \<gamma>"
    by (simp only: Ki')
qed

lemma cholesky_solve_lower:
  assumes "lts \<noteq> []" and "\<forall>lt \<in> set lts. 0 < nrows lt \<and> batch_shape lt = kb"
    and "map_err inv_f lts = Inr gs" and "list_all2 inverse_of gs lts"
    and "map_err inv_f (map lt_transpose_nonbatch lts) = Inr gts"
    and "list_all2 inverse_of gts (map lt_transpose_nonbatch lts)"
    and "shape rhs = rb @ [prod_list (map ncols lts), m]" and "wf_tensor rhs"
    and "mul_broadcast_shape kb rb = Inr ob" and "\<forall>n \<in> set ob. 0 < n" and "0 < m"
  shows "(case KP_inv_matmul_sep inv_f (KPT lts u) rhs None of Inl e \<Rightarrow> Inl e
          | Inr w \<Rightarrow> KP_inv_matmul_sep inv_f (KPT (map lt_transpose_nonbatch lts) False) w None)
         = (case KP_matmul (KPT gs u) rhs of Inl e \<Rightarrow> Inl e | Inr w \<Rightarrow> KP_matmul (KPT gts False) w)"
    and "(case KP_matmul (KPT gs u) rhs of Inl e \<Rightarrow> Inl e | Inr w \<Rightarrow> KP_matmul (KPT gts False) w)
         = Inr \<lparr>shape = ob @ [prod_list (map nrows lts), m],
                data = concat (map (\<lambda>b. mm (prod_list (map nrows lts)) (prod_list (map nrows lts)) m
                                          (kron_list (mm_blocks (factor_blocks gts (bidx ob kb b))
                                                                (factor_blocks gs (bidx ob kb b))))
                                          (block (prod_list (map nrows lts) * m) (data rhs) (bidx ob rb b)))
                                 [0..<prod_list ob])\<rparr>"
proof -
  let ?ts = "map lt_transpose_nonbatch lts"
  note s = inverse_of_sizes [OF assms(4)]
  note p = inverse_factors_pos [OF assms(4,2)]
  have l1: "lazy_tensors (KPT lts u) = lts" and l2: "lazy_tensors (KPT ?ts False) = ?ts" by simp_all
  have pt: "\<forall>lt \<in> set ?ts. 0 < nrows lt \<and> batch_shape lt = kb" using p(1) by simp
  have nn: "map nrows ?ts = map nrows lts" using s(3) by (simp add: comp_def)
  note A = two_solves [OF l1 l2 assms(1,2) pt assms(4,3,6,5) nn assms(7,8,9,10,11)]
  show "(case KP_inv_matmul_sep inv_f (KPT lts u) rhs None of Inl e \<Rightarrow> Inl e
          | Inr w \<Rightarrow> KP_inv_matmul_sep inv_f (KPT ?ts False) w None)
         = (case KP_matmul (KPT gs u) rhs of Inl e \<Rightarrow> Inl e | Inr w \<Rightarrow> KP_matmul (KPT gts False) w)"
    using A(1) by (simp only: with_factors.simps)
  show "(case KP_matmul (KPT gs u) rhs of Inl e \<Rightarrow> Inl e | Inr w \<Rightarrow> KP_matmul (KPT gts False) w)
         = Inr \<lparr>shape = ob @ [prod_list (map nrows lts), m],
                data = concat (map (\<lambda>b. mm (prod_list (map nrows lts)) (prod_list (map nrows lts)) m
                                          (kron_list (mm_blocks (factor_blocks gts (bidx ob kb b))
                                                                (factor_blocks gs (bidx ob kb b))))
                                          (block (prod_list (map nrows lts) * m) (data rhs) (bidx ob rb b)))
                                 [0..<prod_list ob])\<rparr>"
    using A(2) by (simp only: with_factors.simps)
qed

lemma cholesky_solve_upper:
  assumes "lts \<noteq> []" and "\<forall>lt \<in> set lts. 0 < nrows lt \<and> batch_shape lt = kb"
    and "map_err inv_f lts = Inr gs" and "list_all2 inverse_of gs lts"
    and "map_err inv_f (map lt_transpose_nonbatch lts) = Inr gts"
    and "list_all2 inverse_of gts (map lt_transpose_nonbatch lts)"
    and "shape rhs = rb @ [prod_list (map ncols lts), m]" and "wf_tensor rhs"
    and "mul_broadcast_shape kb rb = Inr ob" and "\<forall>n \<in> set ob. 0 < n" and "0 < m"
  shows "(case KP_inv_matmul_sep inv_f (KPT (map lt_transpose_nonbatch lts) False) rhs None of
            Inl e \<Rightarrow> Inl e
          | Inr w \<Rightarrow> KP_inv_matmul_sep inv_f (KPT lts u) w None)
         = (case KP_matmul (KPT gts False) rhs of Inl e \<Rightarrow> Inl e | Inr w \<Rightarrow> KP_matmul (KPT gs u) w)"
    and "\<not> isl (case KP_matmul (KPT gts False) rhs of Inl e \<Rightarrow> Inl e | Inr w \<Rightarrow> KP_matmul (KPT gs u) w)"
proof -
  let ?ts = "map lt_transpose_nonbatch lts"
  note s = inverse_of_sizes [OF assms(4)]
  note p = inverse_factors_pos [OF assms(4,2)]
  have l1: "lazy_tensors (KPT lts u) = lts" and l2: "lazy_tensors (KPT ?ts False) = ?ts" by simp_all
  have tne: "?ts \<noteq> []" using assms(1) by simp
  have pt: "\<forall>lt \<in> set ?ts. 0 < nrows lt \<and> batch_shape lt = kb" using p(1) by simp
  have nn: "map nrows lts = map nrows ?ts" using s(3) by (simp add: comp_def)
  have a: "map ncols ?ts = map nrows lts" by (simp add: comp_def)
  have "prod_list (map ncols ?ts) = prod_list (map ncols lts)" by (simp only: a s(3))
  then have sh: "shape rhs = rb @ [prod_list (map ncols ?ts), m]" using assms(7) by (simp only:)
  note A = two_solves [OF l2 l1 tne pt assms(2) assms(6,5,4,3) nn sh assms(8,9,10,11)]
  show "(case KP_inv_matmul_sep inv_f (KPT ?ts False) rhs None of Inl e \<Rightarrow> Inl e
          | Inr w \<Rightarrow> KP_inv_matmul_sep inv_f (KPT lts u) w None)
         = (case KP_matmul (KPT gts False) rhs of Inl e \<Rightarrow> Inl e | Inr w \<Rightarrow> KP_matmul (KPT gs u) w)"
    using A(1) by (simp only: with_factors.simps)
  show "\<not> isl (case KP_matmul (KPT gts False) rhs of Inl e \<Rightarrow> Inl e | Inr w \<Rightarrow> KP_matmul (KPT gs u) w)"
    unfolding A(2) [unfolded with_factors.simps] by simp
qed

lemma cholesky_solve_gram_tensor:
  assumes "lts \<noteq> []" and "\<forall>lt \<in> set lts. 0 < nrows lt \<and> batch_shape lt = kb"
    and "list_all2 inverse_of gs lts"
    and "list_all2 inverse_of gts (map lt_transpose_nonbatch lts)"
    and "gram_of K (dense_kron lts)" and "inverse_of Kinv K" and "wf_lt Kinv"
    and "shape rhs = rb @ [prod_list (map ncols lts), m]"
    and "mul_broadcast_shape kb rb = Inr ob" and "\<forall>n \<in> set ob. 0 < n"
  shows "Inr \<lparr>shape = ob @ [prod_list (map nrows lts), m],
                data = concat (map (\<lambda>b. mm (prod_list (map nrows lts)) (prod_list (map nrows lts)) m
                                          (kron_list (mm_blocks (factor_blocks gts (bidx ob kb b))
                                                                (factor_blocks gs (bidx ob kb b))))
                                          (block (prod_list (map nrows lts) * m) (data rhs) (bidx ob rb b)))
                                 [0..<prod_list ob])\<rparr>
         = matmul (evaluate Kinv) rhs"
proof -
  define N where "N = prod_list (map nrows lts)"
  note s = inverse_of_sizes [OF assms(3)]
  have ex: "expandable_rev (rev kb) (rev ob)"
    using mul_broadcast_shape_expandable(1) [OF assms(9)] .
  have g0: "bidx ob kb b < prod_list kb" for b using ex assms(10) by (rule bidx_less)
  note G = cholesky_solve_gram [OF assms(1,2,3,4,5,6,7)]
  have Ki: "nrows Kinv = N" "ncols Kinv = N" "batch_shape Kinv = kb"
    using G(2,3,4) [OF g0] by (simp_all add: N_def)
  have blk: "kron_list (mm_blocks (factor_blocks gts (bidx ob kb b)) (factor_blocks gs (bidx ob kb b)))
             = block (N * N) (entries Kinv) (bidx ob kb b)" for b
    using G(1) [OF g0] by (simp only: Ki)
  have sh: "shape rhs = rb @ [ncols Kinv, m]" using assms(8) by (simp only: s(3) Ki N_def)
  have bc: "mul_broadcast_shape (batch_shape Kinv) rb = Inr ob" using assms(9) by (simp only: Ki)
  have "matmul (evaluate Kinv) rhs
        = Inr \<lparr>shape = ob @ [N, m],
               data = concat (map (\<lambda>b. mm N N m (block (N * N) (entries Kinv) (bidx ob kb b))
                                          (block (N * m) (data rhs) (bidx ob rb b)))
                                 [0..<prod_list ob])\<rparr>"
    using matmul_evaluate_blocks [OF sh bc] by (simp only: Ki)
  then show ?thesis by (simp only: blk N_def)
qed

text \<open>
  C5 (as amended). Let \<open>inv_f\<close> return the two-sided inverse of every factor and of every
  transposed factor of a triangular composite \<open>T\<close>. Then \<open>_cholesky_solve(rhs, upper)\<close> is
  exactly the two-step substitution with the separable solve of the triangular class: when
  \<open>upper\<close>, first \<open>w = solve(transpose(T), rhs)\<close> and then \<open>solve(T, w)\<close>; otherwise first
  \<open>w = solve(T, rhs)\<close> and then \<open>solve(transpose(T), w)\<close>. For a right-hand side of at least
  two dimensions, of shape \<open>(..., n, m)\<close>, the result is a tensor and is
  \<open>T\<^sup>-\<^sup>1 (T\<^sup>-\<^sup>T rhs)\<close> when \<open>upper\<close> and \<open>T\<^sup>-\<^sup>T (T\<^sup>-\<^sup>1 rhs)\<close> otherwise, the inverses being
  the composites of the inverted factors; and when \<open>T T\<^sup>T\<close> is a dense matrix \<open>K\<close> with
  inverse \<open>K\<^sup>-\<^sup>1\<close>, the result for \<open>upper = False\<close> is \<open>K\<^sup>-\<^sup>1 @ rhs\<close>. A right-hand side of
  fewer than two dimensions, such as a 1-D vector, is rejected with \<open>IndexError\<close>.
\<close>

theorem cholesky_solve_two_step:
  assumes "lts \<noteq> []" and "\<forall>lt \<in> set lts. 0 < nrows lt \<and> batch_shape lt = kb"
    and "list_all triangular lts"
    and "map_err inv_f lts = Inr gs" and "list_all2 inverse_of gs lts"
    and "map_err inv_f (map lt_transpose_nonbatch lts) = Inr gts"
    and "list_all2 inverse_of gts (map lt_transpose_nonbatch lts)"
    and "wf_tensor rhs"
  shows "KPT_cholesky_solve base_inv_matmul inv_f (KPT lts u) rhs upper
           = (if upper
              then (case KP_inv_matmul_sep inv_f (KPT (map lt_transpose_nonbatch lts) False) rhs None of
                      Inl e \<Rightarrow> Inl e
                    | Inr w \<Rightarrow> KP_inv_matmul_sep inv_f (KPT lts u) w None)
              else (case KP_inv_matmul_sep inv_f (KPT lts u) rhs None of
                      Inl e \<Rightarrow> Inl e
                    | Inr w \<Rightarrow> KP_inv_matmul_sep inv_f (KPT (map lt_transpose_nonbatch lts) False) w None))
       \<and> (shape rhs = rb @ [prod_list (map ncols lts), m] \<and> 0 < m
            \<and> mul_broadcast_shape kb rb = Inr ob \<and> (\<forall>n \<in> set ob. 0 < n)
          \<longrightarrow> KPT_cholesky_solve base_inv_matmul inv_f (KPT lts u) rhs upper
                = (if upper
                   then (case KP_matmul (KPT gts False) rhs of Inl e \<Rightarrow> Inl e
                         | Inr w \<Rightarrow> KP_matmul (KPT gs u) w)
                   else (case KP_matmul (KPT gs u) rhs of Inl e \<Rightarrow> Inl e
                         | Inr w \<Rightarrow> KP_matmul (KPT gts False) w))
              \<and> \<not> isl (KPT_cholesky_solve base_inv_matmul inv_f (KPT lts u) rhs upper)
              \<and> (\<not> upper \<and> gram_of K (dense_kron lts) \<and> inverse_of Kinv K \<and> wf_lt Kinv
                 \<longrightarrow> KPT_cholesky_solve base_inv_matmul inv_f (KPT lts u) rhs upper
                       = matmul (evaluate Kinv) rhs))
       \<and> (length (shape rhs) < 2
          \<longrightarrow> KPT_cholesky_solve base_inv_matmul inv_f (KPT lts u) rhs upper = Inl IndexError)"
proof -
  have bs: "\<forall>lt \<in> set lts. batch_shape lt = kb" using assms(2) by simp
  note steps = KPT_cholesky_solve_steps [OF bs assms(3), of base_inv_matmul inv_f u rhs upper]
  have matrix: "KPT_cholesky_solve base_inv_matmul inv_f (KPT lts u) rhs upper
                = (if upper
                   then (case KP_matmul (KPT gts False) rhs of Inl e \<Rightarrow> Inl e
                         | Inr w \<Rightarrow> KP_matmul (KPT gs u) w)
                   else (case KP_matmul (KPT gs u) rhs of Inl e \<Rightarrow> Inl e
                         | Inr w \<Rightarrow> KP_matmul (KPT gts False) w))
              \<and> \<not> isl (KPT_cholesky_solve base_inv_matmul inv_f (KPT lts u) rhs upper)
              \<and> (\<not> upper \<and> gram_of K (dense_kron lts) \<and> inverse_of Kinv K \<and> wf_lt Kinv
                 \<longrightarrow> KPT_cholesky_solve base_inv_matmul inv_f (KPT lts u) rhs upper
                       = matmul (evaluate Kinv) rhs)"
    if h: "shape rhs = rb @ [prod_list (map ncols lts), m] \<and> 0 < m
            \<and> mul_broadcast_shape kb rb = Inr ob \<and> (\<forall>n \<in> set ob. 0 < n)"
  proof -
    from h have h': "shape rhs = rb @ [prod_list (map ncols lts), m]" "0 < m"
      "mul_broadcast_shape kb rb = Inr ob" "\<forall>n \<in> set ob. 0 < n" by simp_all
    note U = cholesky_solve_upper [OF assms(1,2,4,5,6,7) h'(1) assms(8) h'(3,4,2), of u]
    note L = cholesky_solve_lower [OF assms(1,2,4,5,6,7) h'(1) assms(8) h'(3,4,2), of u]
    show ?thesis
    proof (cases upper)
      case True
      have e: "KPT_cholesky_solve base_inv_matmul inv_f (KPT lts u) rhs upper
               = (case KP_matmul (KPT gts False) rhs of Inl e \<Rightarrow> Inl e | Inr w \<Rightarrow> KP_matmul (KPT gs u) w)"
        using steps U(1) True by simp
      moreover have "\<not> isl (KPT_cholesky_solve base_inv_matmul inv_f (KPT lts u) rhs upper)"
        unfolding e by (rule U(2))
      ultimately show ?thesis using True by simp
    next
      case False
      have e: "KPT_cholesky_solve base_inv_matmul inv_f (KPT lts u) rhs upper
               = (case KP_matmul (KPT gs u) rhs of Inl e \<Rightarrow> Inl e | Inr w \<Rightarrow> KP_matmul (KPT gts False) w)"
        using steps L(1) False by simp
      have n: "\<not> isl (KPT_cholesky_solve base_inv_matmul inv_f (KPT lts u) rhs upper)"
        unfolding e L(2) by simp
      have g: "KPT_cholesky_solve base_inv_matmul inv_f (KPT lts u) rhs upper = matmul (evaluate Kinv) rhs"
        if "gram_of K (dense_kron lts)" and "inverse_of Kinv K" and "wf_lt Kinv"
        unfolding e L(2)
        using assms(1,2,5,7) that h'(1,3,4) by (rule cholesky_solve_gram_tensor)
      show ?thesis using e n g False by simp
    qed
  qed
  have vector: "KPT_cholesky_solve base_inv_matmul inv_f (KPT lts u) rhs upper = Inl IndexError"
    if "length (shape rhs) < 2"
    unfolding steps by (simp add: KP_inv_matmul_sep_vector [OF that])
  show ?thesis using steps matrix vector by blast
qed

theorem cholesky_solve_two_step_witness:
  "KPT_cholesky_solve (\<lambda>k r l. Inl RuntimeError) ex_inv (KPT [ex_L, ex_M] False)
       \<lparr>shape = [4, 1], data = [1, 2, 3, 4]\<rparr> False
     = (case KP_matmul
               (KPT [\<lparr>triangular = True, batch_shape = [], nrows = 2, ncols = 2, entries = [1, 0, - 3, 1]\<rparr>,
                     \<lparr>triangular = True, batch_shape = [], nrows = 2, ncols = 2, entries = [1, 0, 2, 1]\<rparr>]
                  False)
               \<lparr>shape = [4, 1], data = [1, 2, 3, 4]\<rparr> of
          Inl e \<Rightarrow> Inl e
        | Inr w \<Rightarrow> KP_matmul
            (KPT [\<lparr>triangular = True, batch_shape = [], nrows = 2, ncols = 2, entries = [1, - 3, 0, 1]\<rparr>,
                  \<lparr>triangular = True, batch_shape = [], nrows = 2, ncols = 2, entries = [1, 2, 0, 1]\<rparr>]
               False) w)
   \<and> KPT_cholesky_solve (\<lambda>k r l. Inl RuntimeError) ex_inv (KPT [ex_L, ex_M] False)
       \<lparr>shape = [4, 1], data = [1, 2, 3, 4]\<rparr> False
     = matmul (evaluate ex_Kinv) \<lparr>shape = [4, 1], data = [1, 2, 3, 4]\<rparr>
   \<and> matmul (evaluate ex_Kinv) \<lparr>shape = [4, 1], data = [1, 2, 3, 4]\<rparr>
     = Inr \<lparr>shape = [4, 1], data = [21, 10, - 4, - 2]\<rparr>"
proof -
  let ?gs = "[\<lparr>triangular = True, batch_shape = [], nrows = 2, ncols = 2, entries = [1, 0, - 3, 1 :: int]\<rparr>,
              \<lparr>triangular = True, batch_shape = [], nrows = 2, ncols = 2, entries = [1, 0, 2, 1]\<rparr>]"
  let ?gts = "[\<lparr>triangular = True, batch_shape = [], nrows = 2, ncols = 2, entries = [1, - 3, 0, 1 :: int]\<rparr>,
               \<lparr>triangular = True, batch_shape = [], nrows = 2, ncols = 2, entries = [1, 2, 0, 1]\<rparr>]"
  have a1: "[ex_L, ex_M] \<noteq> []" by simp
  have a2: "\<forall>lt \<in> set [ex_L, ex_M]. 0 < nrows lt \<and> batch_shape lt = []"
    by (simp add: ex_L_def ex_M_def)
  have a3: "list_all triangular [ex_L, ex_M]" by (simp add: ex_L_def ex_M_def)
  have a4: "map_err ex_inv [ex_L, ex_M] = Inr ?gs" by (simp add: ex_inv_def ex_L_def ex_M_def)
  have a5: "list_all2 inverse_of ?gs [ex_L, ex_M]" by code_simp
  have a6: "map_err ex_inv (map lt_transpose_nonbatch [ex_L, ex_M]) = Inr ?gts" by code_simp
  have a7: "list_all2 inverse_of ?gts (map lt_transpose_nonbatch [ex_L, ex_M])" by code_simp
  have a8: "wf_tensor \<lparr>shape = [4, 1], data = [1, 2, 3, 4 :: int]\<rparr>" by (simp add: wf_tensor_def)
  have h1: "shape \<lparr>shape = [4, 1], data = [1, 2, 3, 4 :: int]\<rparr> = [] @ [prod_list (map ncols [ex_L, ex_M]), 1]
            \<and> 0 < (1 :: nat) \<and> mul_broadcast_shape [] [] = Inr [] \<and> (\<forall>n \<in> set ([] :: nat list). 0 < n)"
    by (simp add: ex_L_def ex_M_def mul_broadcast_shape_def)
  have h2: "gram_of ex_K (dense_kron [ex_L, ex_M])" by code_simp
  have h3: "inverse_of ex_Kinv ex_K" by code_simp
  have h4: "wf_lt ex_Kinv" by (simp add: wf_lt_def ex_Kinv_def)
  note A = cholesky_solve_two_step [where inv_f = ex_inv and upper = False and u = False
      and base_inv_matmul = "\<lambda>k r l. Inl RuntimeError" and K = ex_K and Kinv = ex_Kinv,
      OF a1 a2 a3 a4 a5 a6 a7 a8, unfolded if_False]
  from A h1
  have "KPT_cholesky_solve (\<lambda>k r l. Inl RuntimeError) ex_inv (KPT [ex_L, ex_M] False)
          \<lparr>shape = [4, 1], data = [1, 2, 3, 4]\<rparr> False
        = (case KP_matmul (KPT ?gs False) \<lparr>shape = [4, 1], data = [1, 2, 3, 4]\<rparr> of
             Inl e \<Rightarrow> Inl e | Inr w \<Rightarrow> KP_matmul (KPT ?gts False) w)" by blast
  moreover from A h1 h2 h3 h4
  have "KPT_cholesky_solve (\<lambda>k r l. Inl RuntimeError) ex_inv (KPT [ex_L, ex_M] False)
          \<lparr>shape = [4, 1], data = [1, 2, 3, 4]\<rparr> False
        = matmul (evaluate ex_Kinv) \<lparr>shape = [4, 1], data = [1, 2, 3, 4]\<rparr>" by blast
  moreover have "matmul (evaluate ex_Kinv) \<lparr>shape = [4, 1], data = [1, 2, 3, 4]\<rparr>
     = Inr \<lparr>shape = [4, 1], data = [21, 10, - 4, - 2]\<rparr>" by code_simp
  ultimately show ?thesis by blast
qed

text \<open>
  The claim as stated fails for a 1-D right-hand side: \<open>K\<^sup>-\<^sup>1 @ rhs\<close> is a vector, but the
  solve of the triangular class reads \<open>right_tensor.size(-2)\<close> and raises \<open>IndexError\<close>.
\<close>

theorem cholesky_solve_two_step_counterexample:
  "KPT_cholesky_solve (\<lambda>k r l. Inl RuntimeError) ex_inv (KPT [ex_L, ex_M] False)
       \<lparr>shape = [4], data = [1, 2, 3, 4]\<rparr> False
     = Inl IndexError
   \<and> matvec (evaluate ex_Kinv) \<lparr>shape = [4], data = [1, 2, 3, 4]\<rparr>
     = Inr \<lparr>shape = [4], data = [21, 10, - 4, - 2]\<rparr>
   \<and> gram_of ex_K (dense_kron [ex_L, ex_M]) \<and> inverse_of ex_Kinv ex_K"
  by code_simp

end
